(* ===== verification/Prelude.thy ===== *)
theory Prelude
  imports Main "HOL-Library.Word" "HOL-Library.List_Lexorder"
begin

text \<open>
  The vocabulary every component shares: the machine types, the kernel's error kinds
  (\<^verbatim>\<open>tee/kernel/src/error.rs\<close>), the outcome of a Rust function, overflow-checked
  arithmetic, and generic lemmas on lists.

  The kernel and the supervisors are built with \<^verbatim>\<open>overflow-checks = true\<close>
  (\<^verbatim>\<open>tee/Cargo.toml\<close>), so an arithmetic overflow, a failed \<^verbatim>\<open>assert!\<close>,
  an index out of range, an \<^verbatim>\<open>unwrap\<close> of nothing and a \<^verbatim>\<open>todo!()\<close> all
  panic. A panic is the outcome \<open>Panic\<close> and is never confused with an error that is
  returned to the caller.
\<close>

unbundle bit_operations_syntax

named_theorems result_simps \<open>rewriting of outcomes\<close>
named_theorems list_simps \<open>rewriting of list slices and overlays\<close>

section \<open>Machine types\<close>

type_synonym u8 = "8 word"
type_synonym u16 = "16 word"
type_synonym u32 = "32 word"
type_synonym u64 = "64 word"
type_synonym bytes = "u8 list"

abbreviation usize_bound :: nat where
  "usize_bound \<equiv> 2 ^ 64"

section \<open>Errors and outcomes\<close>

datatype error_kind =
    Perm | NoEnt | Srch | Intr | XIo | NoExec | BadF | Child | Again | NoMem | Acces | Fault
  | Busy | Exist | XDev | NoDev | NotDir | IsDir | Inval | Mfile | NoTty | SPipe | Pipe
  | Range | NoSys | NotEmpty | Loop | NameTooLong | OpNotSupp | TimedOut | RestartNoIntr

fun error_code :: "error_kind \<Rightarrow> nat" where
  "error_code Perm = 1"
| "error_code NoEnt = 2"
| "error_code Srch = 3"
| "error_code Intr = 4"
| "error_code XIo = 6"
| "error_code NoExec = 8"
| "error_code BadF = 9"
| "error_code Child = 10"
| "error_code Again = 11"
| "error_code NoMem = 12"
| "error_code Acces = 13"
| "error_code Fault = 14"
| "error_code Busy = 16"
| "error_code Exist = 17"
| "error_code XDev = 18"
| "error_code NoDev = 19"
| "error_code NotDir = 20"
| "error_code IsDir = 21"
| "error_code Inval = 22"
| "error_code Mfile = 24"
| "error_code NoTty = 25"
| "error_code SPipe = 29"
| "error_code Pipe = 32"
| "error_code Range = 34"
| "error_code NoSys = 38"
| "error_code NotEmpty = 39"
| "error_code Loop = 40"
| "error_code NameTooLong = 78"
| "error_code OpNotSupp = 95"
| "error_code TimedOut = 110"
| "error_code RestartNoIntr = 512"

text \<open>
  The outcome of a fallible function: \<^verbatim>\<open>Ok\<close>, \<^verbatim>\<open>Err\<close>, or no return at all.
  \<open>result\<close> is the kernel's \<^verbatim>\<open>Result<T, Error>\<close>.
\<close>

datatype ('a, 'e) outcome = Ok 'a | Err 'e | Panic

type_synonym 'a result = "('a, error_kind) outcome"

fun rbind :: "('a, 'e) outcome \<Rightarrow> ('a \<Rightarrow> ('b, 'e) outcome) \<Rightarrow> ('b, 'e) outcome" where
  "rbind (Ok x) f = f x"
| "rbind (Err e) f = Err e"
| "rbind Panic f = Panic"

fun rmap :: "('a \<Rightarrow> 'b) \<Rightarrow> ('a, 'e) outcome \<Rightarrow> ('b, 'e) outcome" where
  "rmap f (Ok x) = Ok (f x)"
| "rmap f (Err e) = Err e"
| "rmap f Panic = Panic"

text \<open>The macro \<^verbatim>\<open>ensure!(condition, kind)\<close> followed by the rest of the function.\<close>

definition ensure :: "bool \<Rightarrow> 'e \<Rightarrow> ('a, 'e) outcome \<Rightarrow> ('a, 'e) outcome" where
  "ensure c e k = (if c then k else Err e)"

text \<open>The macro \<^verbatim>\<open>assert!(condition)\<close> followed by the rest of the function.\<close>

definition rassert :: "bool \<Rightarrow> ('a, 'e) outcome \<Rightarrow> ('a, 'e) outcome" where
  "rassert c k = (if c then k else Panic)"

text \<open>\<^verbatim>\<open>option.ok_or(err!(kind))\<close> and \<^verbatim>\<open>option.unwrap()\<close>.\<close>

definition ok_or :: "'a option \<Rightarrow> 'e \<Rightarrow> ('a, 'e) outcome" where
  "ok_or x e = (case x of None \<Rightarrow> Err e | Some v \<Rightarrow> Ok v)"

definition unwrap :: "'a option \<Rightarrow> ('a, 'e) outcome" where
  "unwrap x = (case x of None \<Rightarrow> Panic | Some v \<Rightarrow> Ok v)"

lemma rbind_eq_Ok [result_simps]: "rbind m f = Ok y \<longleftrightarrow> (\<exists>x. m = Ok x \<and> f x = Ok y)"
  by (cases m) auto

lemma rbind_eq_Err [result_simps]:
  "rbind m f = Err e \<longleftrightarrow> m = Err e \<or> (\<exists>x. m = Ok x \<and> f x = Err e)"
  by (cases m) auto

lemma rbind_eq_Panic [result_simps]:
  "rbind m f = Panic \<longleftrightarrow> m = Panic \<or> (\<exists>x. m = Ok x \<and> f x = Panic)"
  by (cases m) auto

lemma rmap_eq_Ok [result_simps]: "rmap f m = Ok y \<longleftrightarrow> (\<exists>x. m = Ok x \<and> y = f x)"
  by (cases m) auto

lemma rmap_eq_Err [result_simps]: "rmap f m = Err e \<longleftrightarrow> m = Err e"
  by (cases m) auto

lemma rmap_eq_Panic [result_simps]: "rmap f m = Panic \<longleftrightarrow> m = Panic"
  by (cases m) auto

lemma ensure_eq_Ok [result_simps]: "ensure c e k = Ok y \<longleftrightarrow> c \<and> k = Ok y"
  by (simp add: ensure_def)

lemma ensure_eq_Err [result_simps]:
  "ensure c e k = Err e' \<longleftrightarrow> (\<not> c \<and> e' = e) \<or> (c \<and> k = Err e')"
  by (auto simp: ensure_def)

lemma ensure_eq_Panic [result_simps]: "ensure c e k = Panic \<longleftrightarrow> c \<and> k = Panic"
  by (simp add: ensure_def)

lemma ensure_simps [simp]: "ensure True e k = k" "ensure False e k = Err e"
  by (simp_all add: ensure_def)

lemma rassert_eq_Ok [result_simps]: "rassert c k = Ok y \<longleftrightarrow> c \<and> k = Ok y"
  by (simp add: rassert_def)

lemma rassert_eq_Err [result_simps]: "rassert c k = Err e \<longleftrightarrow> c \<and> k = Err e"
  by (simp add: rassert_def)

lemma rassert_simps [simp]: "rassert True k = k" "rassert False k = Panic"
  by (simp_all add: rassert_def)

lemma ok_or_simps [simp]: "ok_or None e = Err e" "ok_or (Some v) e = Ok v"
  by (simp_all add: ok_or_def)

lemma ok_or_eq_Ok [result_simps]: "ok_or x e = Ok v \<longleftrightarrow> x = Some v"
  by (cases x) simp_all

lemma ok_or_eq_Err [result_simps]: "ok_or x e = Err e' \<longleftrightarrow> x = None \<and> e' = e"
  by (cases x) auto

lemma ok_or_not_Panic [simp]: "ok_or x e \<noteq> Panic"
  by (cases x) simp_all

lemma unwrap_simps [simp]: "unwrap None = Panic" "unwrap (Some v) = Ok v"
  by (simp_all add: unwrap_def)

lemma unwrap_eq_Ok [result_simps]: "unwrap x = Ok v \<longleftrightarrow> x = Some v"
  by (cases x) simp_all

text \<open>No two error kinds share a number, so user space can tell them apart.\<close>

lemma error_code_inj: "inj error_code"
proof (rule injI)
  fix e e' assume eq: "error_code e = error_code e'"
  show "e = e'"
    using eq by (cases e; cases e'; simp)
qed

section \<open>Overflow-checked arithmetic\<close>

text \<open>On words of any width, and on \<^verbatim>\<open>usize\<close> values kept as naturals.\<close>

definition wadd :: "'w::len word \<Rightarrow> 'w word \<Rightarrow> ('w word, 'e) outcome" where
  "wadd a b = (if unat a + unat b < 2 ^ LENGTH('w) then Ok (a + b) else Panic)"

definition wsub :: "'w::len word \<Rightarrow> 'w word \<Rightarrow> ('w word, 'e) outcome" where
  "wsub a b = (if b \<le> a then Ok (a - b) else Panic)"

definition uadd :: "nat \<Rightarrow> nat \<Rightarrow> (nat, 'e) outcome" where
  "uadd a b = (if a + b < usize_bound then Ok (a + b) else Panic)"

definition usub :: "nat \<Rightarrow> nat \<Rightarrow> (nat, 'e) outcome" where
  "usub a b = (if b \<le> a then Ok (a - b) else Panic)"

definition checked_add :: "nat \<Rightarrow> nat \<Rightarrow> nat option" where
  "checked_add a b = (if a + b < usize_bound then Some (a + b) else None)"

definition checked_sub :: "nat \<Rightarrow> nat \<Rightarrow> nat option" where
  "checked_sub a b = (if b \<le> a then Some (a - b) else None)"

definition div_ceil :: "nat \<Rightarrow> nat \<Rightarrow> nat" where
  "div_ceil a b = (if a mod b = 0 then a div b else a div b + 1)"

lemma uadd_eq_Ok [result_simps]: "uadd a b = Ok c \<longleftrightarrow> c = a + b \<and> a + b < usize_bound"
  by (auto simp: uadd_def)

lemma usub_eq_Ok [result_simps]: "usub a b = Ok c \<longleftrightarrow> c = a - b \<and> b \<le> a"
  by (auto simp: usub_def)

lemma unat_wadd: "wadd a b = Ok c \<Longrightarrow> unat c = unat a + unat b"
  by (auto simp: wadd_def unat_word_ariths split: if_splits)

lemma unat_wsub: "wsub a b = Ok c \<Longrightarrow> unat c = unat a - unat b"
  by (auto simp: wsub_def unat_sub split: if_splits)

lemma uadd_not_Err [simp]: "uadd a b \<noteq> Err e"
  by (simp add: uadd_def)

lemma usub_not_Err [simp]: "usub a b \<noteq> Err e"
  by (simp add: usub_def)

lemma div_ceil_le_iff:
  assumes "0 < b"
  shows "div_ceil a b \<le> n \<longleftrightarrow> a \<le> n * b"
proof (cases "a mod b = 0")
  case True
  then obtain k where "a = b * k" by (auto simp: mod_0_imp_dvd)
  with assms show ?thesis by (simp add: div_ceil_def mult.commute)
next
  case False
  have "a = a div b * b + a mod b" by simp
  moreover have "a mod b < b" using assms by simp
  ultimately have "a div b < n \<longleftrightarrow> a \<le> n * b"
    using False by (metis linorder_not_le not_less_iff_gr_or_eq order_less_imp_le
        div_less_iff_less_mult assms mod_mult_self2_is_0 less_mult_imp_div_less)
  then show ?thesis using False by (auto simp: div_ceil_def)
qed

lemma div_ceil_mult_ge: "0 < b \<Longrightarrow> a \<le> div_ceil a b * b"
  using div_ceil_le_iff by blast

section \<open>Stateful functions\<close>

text \<open>
  A function that changes a state and may fail: an error returns the state it leaves behind.
\<close>

type_synonym ('s, 'a, 'e) failing = "'s \<Rightarrow> ('a, 'e) outcome \<times> 's"
type_synonym ('s, 'a) stateful = "('s, 'a, error_kind) failing"

definition sret :: "'a \<Rightarrow> ('s, 'a, 'e) failing" where
  "sret x s = (Ok x, s)"

definition slift :: "('a, 'e) outcome \<Rightarrow> ('s, 'a, 'e) failing" where
  "slift r s = (r, s)"

definition sbind :: "('s, 'a, 'e) failing \<Rightarrow> ('a \<Rightarrow> ('s, 'b, 'e) failing) \<Rightarrow> ('s, 'b, 'e) failing" where
  "sbind m f s =
     (case m s of (Ok x, s') \<Rightarrow> f x s' | (Err e, s') \<Rightarrow> (Err e, s') | (Panic, s') \<Rightarrow> (Panic, s'))"

lemma sret_simp [simp]: "sret x s = (Ok x, s)"
  by (simp add: sret_def)

lemma slift_simp [simp]: "slift r s = (r, s)"
  by (simp add: slift_def)

lemma sbind_slift_Ok [simp]: "sbind (slift (Ok x)) f = f x"
  by (rule ext) (simp add: sbind_def)

lemma sbind_Ok [result_simps]:
  "sbind m f s = (Ok y, t) \<longleftrightarrow> (\<exists>x u. m s = (Ok x, u) \<and> f x u = (Ok y, t))"
  by (auto simp: sbind_def split: prod.splits outcome.splits)

lemma sbind_eqs:
  "m s = (Ok x, u) \<Longrightarrow> sbind m f s = f x u"
  "m s = (Err e, u) \<Longrightarrow> sbind m f s = (Err e, u)"
  "m s = (Panic, u) \<Longrightarrow> sbind m f s = (Panic, u)"
  by (simp_all add: sbind_def)

lemma sbind_cases:
  assumes "sbind m f s = (r, t)"
  obtains x u where "m s = (Ok x, u)" "f x u = (r, t)"
  | e where "m s = (Err e, t)" "r = Err e"
  | "m s = (Panic, t)" "r = Panic"
  using assms by (auto simp: sbind_def split: prod.splits outcome.splits)

section \<open>Words\<close>

lemma word_eq_iff_bits: "x = y \<longleftrightarrow> (\<forall>n < LENGTH('a). bit x n = bit y n)" for x y :: "'a::len word"
  by (auto intro: bit_word_eqI)

section \<open>Lists\<close>

text \<open>\<open>overlay xs k ys\<close> writes \<open>ys\<close> over \<open>xs\<close> from index \<open>k\<close> on
  (\<^verbatim>\<open>copy_nonoverlapping\<close> into a slice).\<close>

definition overlay :: "'a list \<Rightarrow> nat \<Rightarrow> 'a list \<Rightarrow> 'a list" where
  "overlay xs k ys = take k xs @ ys @ drop (k + length ys) xs"

lemma length_overlay [simp]:
  "k + length ys \<le> length xs \<Longrightarrow> length (overlay xs k ys) = length xs"
  by (simp add: overlay_def)

lemma nth_overlay:
  assumes "k + length ys \<le> length xs" "i < length xs"
  shows "overlay xs k ys ! i =
    (if k \<le> i \<and> i < k + length ys then ys ! (i - k) else xs ! i)"
  using assms by (auto simp: overlay_def nth_append min_def)

lemma overlay_Nil [simp]: "overlay xs k [] = xs"
  by (simp add: overlay_def)

lemma overlay_append1:
  "k + length ys \<le> length xs \<Longrightarrow> overlay (xs @ zs) k ys = overlay xs k ys @ zs"
  by (simp add: overlay_def)

lemma overlay_append2: "overlay (xs @ zs) (length xs + k) ys = xs @ overlay zs k ys"
  by (simp add: overlay_def add.assoc)

lemma in_set_update: "x \<in> set (xs[i := y]) \<Longrightarrow> x = y \<or> x \<in> set xs"
  using set_update_subset_insert [of xs i y] by auto

text \<open>Lists of blocks of one size.\<close>

lemma length_concat_blocks: "(\<And>x. x \<in> set xss \<Longrightarrow> length x = n) \<Longrightarrow> length (concat xss) = n * length xss"
  by (induction xss) auto

lemma overlay_concat_blocks:
  assumes "\<And>x. x \<in> set xss \<Longrightarrow> length x = n" "i < length xss" "k + length ys \<le> n"
  shows "concat (xss[i := overlay (xss ! i) k ys]) = overlay (concat xss) (i * n + k) ys"
  using assms
proof (induction xss arbitrary: i)
  case (Cons x xss)
  show ?case
  proof (cases i)
    case 0
    with Cons show ?thesis by (simp add: overlay_append1)
  next
    case (Suc j)
    with Cons.IH [of j] Cons.prems have "concat (xss[j := overlay (xss ! j) k ys]) = overlay (concat xss) (j * n + k) ys"
      by simp
    moreover have "overlay (x @ concat xss) (n + (j * n + k)) ys = x @ overlay (concat xss) (j * n + k) ys"
      using overlay_append2 [of x "concat xss" "j * n + k" ys] Cons.prems by simp
    ultimately show ?thesis using Suc by (simp add: add.assoc)
  qed
qed simp

lemma nth_concat_blocks:
  assumes "\<And>x. x \<in> set xss \<Longrightarrow> length x = n" "k < n * length xss"
  shows "concat xss ! k = xss ! (k div n) ! (k mod n)"
  using assms
proof (induction xss arbitrary: k)
  case (Cons x xss)
  show ?case
  proof (cases "k < n")
    case True
    with Cons show ?thesis by (simp add: nth_append)
  next
    case False
    moreover have "0 < n" using Cons.prems(2) by (cases n) auto
    ultimately have "k div n = Suc ((k - n) div n)" "k mod n = (k - n) mod n"
      by (auto simp: le_div_geq le_mod_geq)
    with False Cons.prems Cons.IH [of "k - n"] show ?thesis by (simp add: nth_append less_diff_conv2)
  qed
qed simp

end
