(* ===== verification/Interfaces.thy ===== *)
theory Interfaces
  imports Prelude
begin

text \<open>
  The contracts several components provide: a transition system with an invariant, a
  first-in first-out channel, and an ordered map (Rust's \<^verbatim>\<open>BTreeMap\<close>). Each is a
  locale; the components interpret it on their own definitions.
\<close>

section \<open>Transition systems\<close>

inductive reachable :: "('s \<Rightarrow> bool) \<Rightarrow> ('s \<Rightarrow> 's \<Rightarrow> bool) \<Rightarrow> 's \<Rightarrow> bool"
  for init :: "'s \<Rightarrow> bool" and step :: "'s \<Rightarrow> 's \<Rightarrow> bool" where
  start: "init s \<Longrightarrow> reachable init step s"
| step: "reachable init step s \<Longrightarrow> step s t \<Longrightarrow> reachable init step t"

locale step_system =
  fixes init :: "'s \<Rightarrow> bool" and step :: "'s \<Rightarrow> 's \<Rightarrow> bool" and inv :: "'s \<Rightarrow> bool"
  assumes init_inv: "init s \<Longrightarrow> inv s"
    and step_inv: "inv s \<Longrightarrow> step s t \<Longrightarrow> inv t"
begin

lemma reachable_inv: "reachable init step s \<Longrightarrow> inv s"
  by (induction rule: reachable.induct) (auto intro: init_inv step_inv)

lemma steps_inv: "step\<^sup>*\<^sup>* s t \<Longrightarrow> inv s \<Longrightarrow> inv t"
  by (induction rule: rtranclp_induct) (auto intro: step_inv)

end

section \<open>First-in first-out channels\<close>

text \<open>
  A channel has a sending side, which accepts a message or refuses it, and a receiving
  side, which takes the next message if there is one. A schedule is the interleaving of
  the calls the two sides make.
\<close>

datatype 'm fifo_op = Send 'm | Receive

fun fifo_run ::
  "('m \<Rightarrow> 's \<Rightarrow> 's option) \<Rightarrow> ('s \<Rightarrow> 'm option \<times> 's) \<Rightarrow> 'm fifo_op list \<Rightarrow> 's
   \<Rightarrow> 'm list \<times> 'm list \<times> 's" where
  "fifo_run push pop [] s = ([], [], s)"
| "fifo_run push pop (Send m # ops) s =
     (case push m s of
        None \<Rightarrow> fifo_run push pop ops s
      | Some s' \<Rightarrow> (case fifo_run push pop ops s' of (acc, del, t) \<Rightarrow> (m # acc, del, t)))"
| "fifo_run push pop (Receive # ops) s =
     (case pop s of
        (None, s') \<Rightarrow> fifo_run push pop ops s'
      | (Some m, s') \<Rightarrow> (case fifo_run push pop ops s' of (acc, del, t) \<Rightarrow> (acc, m # del, t)))"

fun sends_ok :: "('m \<Rightarrow> bool) \<Rightarrow> 'm fifo_op list \<Rightarrow> bool" where
  "sends_ok ok [] = True"
| "sends_ok ok (Send m # ops) = (ok m \<and> sends_ok ok ops)"
| "sends_ok ok (Receive # ops) = sends_ok ok ops"

lemma sends_ok_True [simp]: "sends_ok (\<lambda>_. True) ops"
proof (induction ops)
  case (Cons x ops)
  then show ?case by (cases x) simp_all
qed simp

locale fifo_channel =
  fixes ok :: "'m \<Rightarrow> bool"
    and rel :: "'s \<Rightarrow> 'm list \<Rightarrow> bool"
    and push :: "'m \<Rightarrow> 's \<Rightarrow> 's option"
    and pop :: "'s \<Rightarrow> 'm option \<times> 's"
  assumes push_rel: "rel s ms \<Longrightarrow> ok m \<Longrightarrow> push m s = Some s' \<Longrightarrow> rel s' (ms @ [m])"
    and pop_Cons: "rel s (m # ms) \<Longrightarrow> \<exists>s'. pop s = (Some m, s') \<and> rel s' ms"
    and pop_Nil: "rel s [] \<Longrightarrow> \<exists>s'. pop s = (None, s') \<and> rel s' []"
begin

lemma pop_cases:
  assumes "rel s ms"
  obtains s' where "ms = []" "pop s = (None, s')" "rel s' []"
  | m ms' s' where "ms = m # ms'" "pop s = (Some m, s')" "rel s' ms'"
proof (cases ms)
  case Nil
  with assms that(1) show ?thesis using pop_Nil by blast
next
  case (Cons m ms')
  with assms that(2) show ?thesis using pop_Cons by blast
qed

text \<open>Whatever the schedule, what was delivered and what is still queued, in this order,
  is what was queued at the start and what was accepted since, in this order.\<close>

lemma run_in_order:
  "rel s ms \<Longrightarrow> sends_ok ok ops \<Longrightarrow> fifo_run push pop ops s = (acc, del, t) \<Longrightarrow>
   \<exists>ms'. rel t ms' \<and> ms @ acc = del @ ms'"
proof (induction ops arbitrary: s ms acc del)
  case Nil
  then show ?case by auto
next
  case (Cons x ops)
  show ?case
  proof (cases x)
    case (Send m)
    show ?thesis
    proof (cases "push m s")
      case None
      with Cons Send show ?thesis by simp
    next
      case (Some s')
      obtain acc' where run: "fifo_run push pop ops s' = (acc', del, t)" and acc: "acc = m # acc'"
        using Cons.prems(3) Send Some by (auto split: prod.splits)
      have "rel s' (ms @ [m])"
        using push_rel Cons.prems Send Some by simp
      from Cons.IH [OF this _ run] Cons.prems(2) Send acc show ?thesis by simp
    qed
  next
    case Receive
    show ?thesis
    proof (rule pop_cases [OF Cons.prems(1)])
      fix s' assume "ms = []" "pop s = (None, s')" "rel s' []"
      with Cons.IH [of s' "[]"] Cons.prems(2,3) Receive show ?thesis by simp
    next
      fix m ms' s' assume ms: "ms = m # ms'" and pop: "pop s = (Some m, s')" and rel: "rel s' ms'"
      obtain del' where run: "fifo_run push pop ops s' = (acc, del', t)" and del: "del = m # del'"
        using Cons.prems(3) Receive pop by (auto split: prod.splits)
      from Cons.IH [OF rel _ run] Cons.prems(2) Receive ms del show ?thesis by simp
    qed
  qed
qed

end

end
