(* ===== verification/Supervisor_Services.thy ===== *)
theory Supervisor_Services
  imports Interfaces "HOL-Library.Multiset"
begin

text \<open>
  The crate \<^verbatim>\<open>common/supervisor-services\<close>: the shared memory through which the
  workload kernel and the supervisor talk. The command buffer is a byte ring with one
  writer (the kernel) and one reader (the supervisor); the allocation buffer is a bag of
  memory slots the supervisor fills and the kernel empties; the notification buffer is a
  set of vCPUs to wake. Indices are kept at their width (\<^verbatim>\<open>u16\<close>, \<^verbatim>\<open>u64\<close>) with the
  overflow checks the profile compiles in.
\<close>

section \<open>Commands\<close>

abbreviation OUTPUT_CHUNK :: nat where
  "OUTPUT_CHUNK \<equiv> 4096"

datatype command =
    StartNextAp
  | AllocateMemory
  | DeallocateMemory u16
  | UpdateOutput u16 bytes
  | FinishOutput
  | FailOutput

fun command_id :: "command \<Rightarrow> u8" where
  "command_id StartNextAp = 0"
| "command_id AllocateMemory = 1"
| "command_id (DeallocateMemory slot_idx) = 2"
| "command_id (UpdateOutput sz buf) = 3"
| "command_id FinishOutput = 4"
| "command_id FailOutput = 5"

text \<open>A \<^verbatim>\<open>u16\<close> in memory is little endian.\<close>

definition u16_bytes :: "u16 \<Rightarrow> bytes" where
  "u16_bytes w = [ucast w, ucast (drop_bit 8 w)]"

definition bytes_u16 :: "u8 \<Rightarrow> u8 \<Rightarrow> u16" where
  "bytes_u16 lo hi = ucast lo OR push_bit 8 (ucast hi)"

text \<open>\<^verbatim>\<open>bytes_of(command)\<close>: the \<^verbatim>\<open>repr(C)\<close> layout of the command's struct.\<close>

fun bytes_of :: "command \<Rightarrow> bytes" where
  "bytes_of StartNextAp = []"
| "bytes_of AllocateMemory = []"
| "bytes_of (DeallocateMemory slot_idx) = u16_bytes slot_idx"
| "bytes_of (UpdateOutput sz buf) = u16_bytes sz @ buf"
| "bytes_of FinishOutput = []"
| "bytes_of FailOutput = []"

fun size_of :: "command \<Rightarrow> nat" where
  "size_of StartNextAp = 0"
| "size_of AllocateMemory = 0"
| "size_of (DeallocateMemory slot_idx) = 2"
| "size_of (UpdateOutput sz buf) = 2 + OUTPUT_CHUNK"
| "size_of FinishOutput = 0"
| "size_of FailOutput = 0"

text \<open>A value of the type: the array in \<^verbatim>\<open>UpdateOutput\<close> has its declared length.\<close>

fun command_wf :: "command \<Rightarrow> bool" where
  "command_wf (UpdateOutput sz buf) = (length buf = OUTPUT_CHUNK)"
| "command_wf c = True"

text \<open>\<^verbatim>\<open>UpdateOutput::new\<close>: the copy into the fixed array panics when the chunk is longer.\<close>

definition UpdateOutput_new :: "bytes \<Rightarrow> (command, 'e) outcome" where
  "UpdateOutput_new chunk =
     rassert (length chunk \<le> OUTPUT_CHUNK)
       (Ok (UpdateOutput (of_nat (length chunk)) (chunk @ replicate (OUTPUT_CHUNK - length chunk) 0)))"

text \<open>The methods of \<^verbatim>\<open>CommandHandler\<close>, as the calls the supervisor receives.\<close>

datatype handler_call =
    start_next_ap
  | allocate_memory
  | deallocate_memory u16
  | update_output bytes
  | finish_output
  | fail_output

fun dispatch :: "command \<Rightarrow> (handler_call, 'e) outcome" where
  "dispatch StartNextAp = Ok start_next_ap"
| "dispatch AllocateMemory = Ok allocate_memory"
| "dispatch (DeallocateMemory slot_idx) = Ok (deallocate_memory slot_idx)"
| "dispatch (UpdateOutput sz buf) =
     rassert (unat sz \<le> length buf) (Ok (update_output (take (unat sz) buf)))"
| "dispatch FinishOutput = Ok finish_output"
| "dispatch FailOutput = Ok fail_output"

section \<open>The command buffer\<close>

definition COMMAND_BUFFER_SIZE :: u16 where
  "COMMAND_BUFFER_SIZE = 0x4000 - 2 * 2"

record command_buffer =
  completed_index :: u16
  pending_index :: u16
  buffer :: bytes

definition command_buffer_new :: command_buffer where
  "command_buffer_new =
     \<lparr>completed_index = 0, pending_index = 0, buffer = replicate (unat COMMAND_BUFFER_SIZE) 0\<rparr>"

datatype capacity_error = CapacityError

text \<open>\<^verbatim>\<open>index += 1; if index == COMMAND_BUFFER_SIZE { index = 0 }\<close>\<close>

definition advance :: "u16 \<Rightarrow> (u16, 'e) outcome" where
  "advance i = rmap (\<lambda>i'. if i' = COMMAND_BUFFER_SIZE then 0 else i') (wadd i 1)"

definition available_capacity :: "u16 \<Rightarrow> u16 \<Rightarrow> (u16, 'e) outcome" where
  "available_capacity completed pending =
     (if completed \<le> pending
      then rbind (wsub (COMMAND_BUFFER_SIZE - 1) pending) (\<lambda>d. wadd completed d)
      else rbind (wsub completed pending) (\<lambda>d. wsub d 1))"

fun store_bytes :: "bytes \<Rightarrow> u16 \<Rightarrow> bytes \<Rightarrow> (bytes \<times> u16, 'e) outcome" where
  "store_bytes [] pending buf = Ok (buf, pending)"
| "store_bytes (b # bs) pending buf =
     rassert (unat pending < length buf)
       (rbind (advance pending) (\<lambda>pending'. store_bytes bs pending' (buf[unat pending := b])))"

definition push :: "command \<Rightarrow> command_buffer \<Rightarrow> (command_buffer, capacity_error) outcome" where
  "push c cb =
     rbind (available_capacity (completed_index cb) (pending_index cb)) (\<lambda>available.
       if unat available < 1 + size_of c then Err CapacityError
       else rbind (store_bytes (command_id c # bytes_of c) (pending_index cb) (buffer cb))
              (\<lambda>(buf, pending). Ok (cb\<lparr>buffer := buf, pending_index := pending\<rparr>)))"

fun load_bytes :: "nat \<Rightarrow> u16 \<Rightarrow> bytes \<Rightarrow> (bytes \<times> u16, 'e) outcome" where
  "load_bytes 0 completed buf = Ok ([], completed)"
| "load_bytes (Suc n) completed buf =
     rassert (unat completed < length buf)
       (rbind (advance completed) (\<lambda>completed'.
          rbind (load_bytes n completed' buf) (\<lambda>(bs, c). Ok (buf ! unat completed # bs, c))))"

text \<open>
  The size of the struct behind a command identifier and the struct its bytes make
  (\<^verbatim>\<open>handle!\<close> in the source); an unknown identifier is \<^verbatim>\<open>unreachable!\<close>.
\<close>

definition size_of_id :: "u8 \<Rightarrow> nat option" where
  "size_of_id i =
     (if i = 0 \<or> i = 1 \<or> i = 4 \<or> i = 5 then Some 0
      else if i = 2 then Some 2
      else if i = 3 then Some (2 + OUTPUT_CHUNK) else None)"

definition command_of :: "u8 \<Rightarrow> bytes \<Rightarrow> command" where
  "command_of i bs =
     (if i = 0 then StartNextAp
      else if i = 1 then AllocateMemory
      else if i = 2 then DeallocateMemory (bytes_u16 (bs ! 0) (bs ! 1))
      else if i = 3 then UpdateOutput (bytes_u16 (bs ! 0) (bs ! 1)) (drop 2 bs)
      else if i = 4 then FinishOutput
      else FailOutput)"

text \<open>
  \<^verbatim>\<open>CommandBufferReader::handle\<close>. \<open>None\<close> is the return value \<^verbatim>\<open>false\<close> (nothing
  pending); \<open>Some (cmd, call)\<close> is \<^verbatim>\<open>true\<close> with the command read and the call made.
\<close>

definition handle ::
  "command_buffer \<Rightarrow> ((command \<times> handler_call) option \<times> command_buffer, 'e) outcome" where
  "handle cb =
     (if pending_index cb = completed_index cb then Ok (None, cb)
      else
        rbind (load_bytes 1 (completed_index cb) (buffer cb)) (\<lambda>(ids, c1).
        rbind (unwrap (size_of_id (ids ! 0))) (\<lambda>n.
        rbind (load_bytes n c1 (buffer cb)) (\<lambda>(bs, c2).
        rbind (dispatch (command_of (ids ! 0) bs)) (\<lambda>call.
          Ok (Some (command_of (ids ! 0) bs, call), cb\<lparr>completed_index := c2\<rparr>))))))"

subsection \<open>Encoding of commands\<close>

lemma bytes_u16_bytes: "u16_bytes w = [lo, hi] \<Longrightarrow> bytes_u16 lo hi = w"
  by (auto simp: u16_bytes_def bytes_u16_def intro!: bit_word_eqI
      simp: bit_simps)

lemma length_u16_bytes [simp]: "length (u16_bytes w) = 2"
  by (simp add: u16_bytes_def)

lemma length_bytes_of: "command_wf c \<Longrightarrow> length (bytes_of c) = size_of c"
  by (cases c) auto

lemma size_of_id_command_id [simp]: "size_of_id (command_id c) = Some (size_of c)"
  by (cases c) (auto simp: size_of_id_def)

lemma command_of_bytes_of:
  "command_of (command_id c) (bytes_of c) = c"
proof (cases c)
  case (DeallocateMemory w)
  then show ?thesis
    by (simp add: command_of_def u16_bytes_def bytes_u16_bytes)
next
  case (UpdateOutput w buf)
  then show ?thesis
    by (simp add: command_of_def u16_bytes_def bytes_u16_bytes)
qed (simp_all add: command_of_def)

subsection \<open>The ring\<close>

text \<open>
  The ring holds \<open>N\<close> bytes, of which at most \<open>N - 1\<close> are in use: equal indices mean
  an empty ring.
\<close>

abbreviation N :: nat where
  "N \<equiv> 16380"

lemma unat_COMMAND_BUFFER_SIZE [simp]: "unat COMMAND_BUFFER_SIZE = N"
  by (simp add: COMMAND_BUFFER_SIZE_def)

definition cb_inv :: "command_buffer \<Rightarrow> bool" where
  "cb_inv cb \<longleftrightarrow>
     unat (completed_index cb) < N \<and> unat (pending_index cb) < N \<and> length (buffer cb) = N"

definition used :: "command_buffer \<Rightarrow> nat" where
  "used cb = (unat (pending_index cb) + N - unat (completed_index cb)) mod N"

definition ring_slice :: "bytes \<Rightarrow> nat \<Rightarrow> nat \<Rightarrow> bytes" where
  "ring_slice buf i n = map (\<lambda>j. buf ! ((i + j) mod N)) [0..<n]"

definition ring_bytes :: "command_buffer \<Rightarrow> bytes" where
  "ring_bytes cb = ring_slice (buffer cb) (unat (completed_index cb)) (used cb)"

lemma ring_index_inj:
  assumes "(i + j) mod n = (i + k) mod n" "j < n" "k < (n::nat)"
  shows "j = k"
proof -
  have "(int i + int j) mod int n = (int i + int k) mod int n"
    using assms(1) by (metis of_nat_add of_nat_mod)
  then have "int n dvd int j - int k"
    by (simp add: mod_eq_dvd_iff)
  then show ?thesis
    using assms(2,3) by (metis mod_eq_dvd_iff mod_less of_nat_eq_iff of_nat_mod)
qed

lemma ring_index_Suc: "((i + 1) mod n + j) mod n = (i + Suc j) mod (n::nat)"
  by (simp add: mod_simps)

lemma length_ring_slice [simp]: "length (ring_slice buf i n) = n"
  by (simp add: ring_slice_def)

lemma ring_slice_0 [simp]: "ring_slice buf i 0 = []"
  by (simp add: ring_slice_def)

lemma ring_slice_Suc:
  "ring_slice buf i (Suc n) = buf ! (i mod N) # ring_slice buf ((i + 1) mod N) n"
  by (rule nth_equalityI) (auto simp: ring_slice_def nth_Cons mod_simps split: nat.splits
      simp del: upt_Suc)

lemma ring_slice_add:
  "ring_slice buf i (m + n) = ring_slice buf i m @ ring_slice buf ((i + m) mod N) n"
  by (rule nth_equalityI)
    (auto simp: ring_slice_def nth_append mod_simps add.assoc simp del: upt_Suc)

lemma advance_spec:
  assumes "unat i < N"
  shows "advance i = Ok (of_nat ((unat i + 1) mod N))"
proof -
  have add: "wadd i 1 = Ok (i + 1)" and un: "unat (i + 1) = unat i + 1"
    using assms by (auto simp: wadd_def unat_word_ariths)
  show ?thesis
  proof (cases "unat i + 1 = N")
    case True
    then have "i + 1 = COMMAND_BUFFER_SIZE"
      using un by (metis unat_COMMAND_BUFFER_SIZE word_unat_eq_iff)
    with True show ?thesis by (simp add: advance_def add)
  next
    case False
    then have "i + 1 \<noteq> COMMAND_BUFFER_SIZE"
      using un by (metis unat_COMMAND_BUFFER_SIZE)
    moreover have "of_nat (unat i + 1) = i + 1" by simp
    ultimately show ?thesis using False assms by (simp add: advance_def add)
  qed
qed

lemma unat_ring_index [simp]: "unat (of_nat (k mod N) :: u16) = k mod N"
proof -
  have "k mod N < N" by simp
  then have "k mod N < 2 ^ 16" by (rule less_trans) simp
  then show ?thesis by (simp add: unsigned_of_nat take_bit_nat_eq_self)
qed

lemma load_bytes_spec:
  "unat c < N \<Longrightarrow> length buf = N \<Longrightarrow>
   (load_bytes n c buf :: (bytes \<times> u16, 'e) outcome) =
     Ok (ring_slice buf (unat c) n, of_nat ((unat c + n) mod N))"
proof (induction n arbitrary: c)
  case 0
  then show ?case by (simp add: ring_slice_def)
next
  case (Suc n)
  let ?c' = "of_nat ((unat c + 1) mod N) :: u16"
  have "(load_bytes n ?c' buf :: (bytes \<times> u16, 'e) outcome) =
      Ok (ring_slice buf ((unat c + 1) mod N) n, of_nat ((unat c + Suc n) mod N))"
    using Suc.IH [of ?c'] Suc.prems(2) by (simp add: mod_simps)
  then show ?case
    using Suc.prems by (simp add: advance_spec ring_slice_Suc)
qed

lemma store_bytes_spec:
  "unat p < N \<Longrightarrow> length buf = N \<Longrightarrow> length bs \<le> N \<Longrightarrow>
   \<exists>buf'. (store_bytes bs p buf :: (bytes \<times> u16, 'e) outcome) =
       Ok (buf', of_nat ((unat p + length bs) mod N)) \<and>
     length buf' = N \<and>
     (\<forall>j<N. buf' ! ((unat p + j) mod N) =
        (if j < length bs then bs ! j else buf ! ((unat p + j) mod N)))"
proof (induction bs arbitrary: p buf)
  case Nil
  then show ?case by simp
next
  case (Cons b bs)
  let ?p' = "of_nat ((unat p + 1) mod N) :: u16" and ?buf = "buf[unat p := b]"
  obtain buf' where run: "(store_bytes bs ?p' ?buf :: (bytes \<times> u16, 'e) outcome) =
      Ok (buf', of_nat ((unat p + Suc (length bs)) mod N))"
    and len: "length buf' = N"
    and nth: "\<And>j. j < N \<Longrightarrow> buf' ! ((unat p + Suc j) mod N) =
        (if j < length bs then bs ! j else ?buf ! ((unat p + Suc j) mod N))"
    using Cons.IH [of ?p' ?buf] Cons.prems by (auto simp: mod_simps)
  have "buf' ! ((unat p + j) mod N) =
      (if j < length (b # bs) then (b # bs) ! j else buf ! ((unat p + j) mod N))" if j: "j < N" for j
  proof (cases j)
    case 0
    have "(unat p + Suc (N - 1)) mod N = unat p" using Cons.prems(1) by simp
    with nth [of "N - 1"] 0 Cons.prems show ?thesis by simp
  next
    case (Suc k)
    have "(unat p + j) mod N \<noteq> (unat p + 0) mod N"
      using ring_index_inj [of "unat p" j N 0] Suc j by auto
    then have "(unat p + j) mod N \<noteq> unat p" using Cons.prems(1) by simp
    with nth [of k] Suc j show ?thesis by simp
  qed
  with run len Cons.prems show ?case
    by (simp add: advance_spec)
qed

lemma used_less [simp]: "used cb < N"
  by (simp add: used_def)

lemma pending_eq: "cb_inv cb \<Longrightarrow> unat (pending_index cb) = (unat (completed_index cb) + used cb) mod N"
  by (simp add: cb_inv_def used_def mod_simps)

lemma used_eqI:
  assumes "unat (pending_index cb) = (unat (completed_index cb) + n) mod N" "n < N"
    "unat (completed_index cb) < N"
  shows "used cb = n"
  using assms by (cases "unat (completed_index cb) + n < N") (auto simp: used_def mod_if)

lemma available_capacity_spec:
  assumes "cb_inv cb"
  shows "\<exists>a. available_capacity (completed_index cb) (pending_index cb) = Ok a \<and>
    unat a = N - 1 - used cb"
proof -
  let ?c = "completed_index cb" and ?p = "pending_index cb"
  have lt: "unat ?c < N" "unat ?p < N" using assms by (auto simp: cb_inv_def)
  have size: "unat (COMMAND_BUFFER_SIZE - 1) = N - 1"
    by (simp add: COMMAND_BUFFER_SIZE_def)
  show ?thesis
  proof (cases "?c \<le> ?p")
    case True
    then have "unat ?c \<le> unat ?p" by (simp add: word_le_nat_alt)
    moreover have "unat (COMMAND_BUFFER_SIZE - 1 - ?p) = N - 1 - unat ?p"
      using lt(2) size by (subst unat_sub) (auto simp: word_le_nat_alt)
    ultimately show ?thesis
      using True lt size
      by (auto simp: available_capacity_def wsub_def wadd_def word_le_nat_alt used_def
          unat_word_ariths mod_if)
  next
    case False
    then have lt': "unat ?p < unat ?c" by (simp add: word_le_nat_alt)
    then have d: "unat (?c - ?p) = unat ?c - unat ?p"
      by (subst unat_sub) (auto simp: word_le_nat_alt)
    then have "unat (?c - ?p - 1) = unat ?c - unat ?p - 1"
      using lt' by (subst unat_sub) (auto simp: word_le_nat_alt)
    with False lt lt' d show ?thesis
      by (auto simp: available_capacity_def wsub_def word_le_nat_alt used_def mod_if)
  qed
qed

subsection \<open>Pushing and handling\<close>

definition encode :: "command \<Rightarrow> bytes" where
  "encode c = command_id c # bytes_of c"

text \<open>A command whose dispatch does not panic: the slice it hands over is within its array.\<close>

fun command_ok :: "command \<Rightarrow> bool" where
  "command_ok (UpdateOutput sz buf) = (length buf = OUTPUT_CHUNK \<and> unat sz \<le> OUTPUT_CHUNK)"
| "command_ok c = True"

fun call_of :: "command \<Rightarrow> handler_call" where
  "call_of StartNextAp = start_next_ap"
| "call_of AllocateMemory = allocate_memory"
| "call_of (DeallocateMemory slot_idx) = deallocate_memory slot_idx"
| "call_of (UpdateOutput sz buf) = update_output (take (unat sz) buf)"
| "call_of FinishOutput = finish_output"
| "call_of FailOutput = fail_output"

definition queued :: "command_buffer \<Rightarrow> command list \<Rightarrow> bool" where
  "queued cb cs \<longleftrightarrow> cb_inv cb \<and> list_all command_ok cs \<and> ring_bytes cb = concat (map encode cs)"

lemma command_ok_wf: "command_ok c \<Longrightarrow> command_wf c"
  by (cases c) auto

lemma length_encode: "command_wf c \<Longrightarrow> length (encode c) = 1 + size_of c"
  by (simp add: encode_def length_bytes_of)

lemma dispatch_ok: "command_ok c \<Longrightarrow> dispatch c = Ok (call_of c)"
  by (cases c) auto

lemma push_full:
  assumes "cb_inv cb" "N - 1 - used cb < 1 + size_of c"
  shows "push c cb = Err CapacityError"
proof -
  obtain a where "(available_capacity (completed_index cb) (pending_index cb)
      :: (u16, capacity_error) outcome) = Ok a" "unat a = N - 1 - used cb"
    using available_capacity_spec [OF assms(1)] by blast
  with assms(2) show ?thesis by (simp add: push_def)
qed

text \<open>Bytes stored behind the live ones extend the live slice and leave it as it was.\<close>

lemma ring_slice_store:
  assumes p: "p = (c + u) mod N" and un: "u + length bs < N"
    and nth: "\<And>j. j < N \<Longrightarrow> buf' ! ((p + j) mod N) =
        (if j < length bs then bs ! j else buf ! ((p + j) mod N))"
  shows "ring_slice buf' c (u + length bs) = ring_slice buf c u @ bs"
proof -
  have at: "buf' ! ((c + (u + j)) mod N) =
      (if j < length bs then bs ! j else buf ! ((c + (u + j)) mod N))" if "j < N" for j
    using nth [OF that] by (simp add: p mod_simps add.assoc)
  have live: "buf' ! ((c + i) mod N) = buf ! ((c + i) mod N)" if i: "i < u" for i
  proof -
    have "u + (N - u + i) = N + i" using un by linarith
    then have eq: "(c + (u + (N - u + i))) mod N = (c + i) mod N"
      by (metis add.left_commute mod_add_self1)
    have "N - u + i < N" "\<not> N - u + i < length bs" using i un by linarith+
    with at [of "N - u + i"] eq show ?thesis by (simp only: if_False)
  qed
  have new: "buf' ! ((c + i) mod N) = bs ! (i - u)" if "u \<le> i" "i < u + length bs" for i
  proof -
    have "i - u < N" "i - u < length bs" "u + (i - u) = i" using that un by linarith+
    with at [of "i - u"] show ?thesis by (simp only: if_True)
  qed
  show ?thesis
    by (rule nth_equalityI) (auto simp: ring_slice_def nth_append live new)
qed

lemma push_room:
  assumes inv: "cb_inv cb" and wf: "command_wf c" and room: "1 + size_of c \<le> N - 1 - used cb"
  shows "\<exists>cb'. push c cb = Ok cb' \<and> cb_inv cb' \<and> completed_index cb' = completed_index cb \<and>
    ring_bytes cb' = ring_bytes cb @ encode c"
proof -
  let ?p = "unat (pending_index cb)" and ?c = "unat (completed_index cb)"
  let ?n = "length (encode c)"
  have len: "?n = 1 + size_of c" using wf by (rule length_encode)
  have un: "used cb + ?n < N" using room len by simp
  obtain a where a: "(available_capacity (completed_index cb) (pending_index cb)
      :: (u16, capacity_error) outcome) = Ok a" "unat a = N - 1 - used cb"
    using available_capacity_spec [OF inv] by blast
  obtain buf' where
    run: "(store_bytes (encode c) (pending_index cb) (buffer cb) :: (bytes \<times> u16, capacity_error) outcome)
        = Ok (buf', of_nat ((?p + ?n) mod N))"
    and buf': "length buf' = N"
    and nth: "\<And>j. j < N \<Longrightarrow> buf' ! ((?p + j) mod N) =
        (if j < ?n then encode c ! j else buffer cb ! ((?p + j) mod N))"
    using store_bytes_spec [of "pending_index cb" "buffer cb" "encode c"] inv un
    by (auto simp: cb_inv_def)
  define cb' where "cb' = cb\<lparr>buffer := buf', pending_index := of_nat ((?p + ?n) mod N)\<rparr>"
  have "used cb' = used cb + ?n"
    using un inv pending_eq [OF inv]
    by (intro used_eqI) (auto simp: cb'_def cb_inv_def mod_simps add.assoc)
  then have "ring_bytes cb' = ring_slice buf' ?c (used cb + ?n)"
    by (simp add: ring_bytes_def) (simp add: cb'_def)
  also have "\<dots> = ring_bytes cb @ encode c"
    unfolding ring_bytes_def by (rule ring_slice_store [OF pending_eq [OF inv] un nth])
  finally have bytes: "ring_bytes cb' = ring_bytes cb @ encode c" .
  have "push c cb = Ok cb'"
    using a run room by (simp add: push_def cb'_def encode_def)
  moreover have "cb_inv cb'"
    using inv buf' by (simp add: cb_inv_def cb'_def)
  ultimately show ?thesis using bytes by (auto simp: cb'_def)
qed

lemma handle_empty:
  assumes "cb_inv cb" "ring_bytes cb = []"
  shows "handle cb = Ok (None, cb)"
proof -
  have "used cb = 0" using assms(2) by (metis length_ring_slice list.size(3) ring_bytes_def)
  then have "unat (pending_index cb) = unat (completed_index cb)"
    using pending_eq [OF assms(1)] assms(1) by (simp add: cb_inv_def)
  then show ?thesis by (simp add: handle_def word_unat_eq_iff)
qed

lemma handle_next:
  assumes inv: "cb_inv cb" and ok: "command_ok c" and bytes: "ring_bytes cb = encode c @ rest"
  shows "\<exists>cb'. (handle cb :: (_, 'e) outcome) = Ok (Some (c, call_of c), cb') \<and> cb_inv cb' \<and>
    buffer cb' = buffer cb \<and> pending_index cb' = pending_index cb \<and> ring_bytes cb' = rest"
proof -
  let ?c = "unat (completed_index cb)" and ?n = "size_of c"
  have len: "length (bytes_of c) = ?n" using ok by (simp add: length_bytes_of command_ok_wf)
  have "length (ring_bytes cb) = used cb" by (simp add: ring_bytes_def)
  with bytes have used: "used cb = 1 + ?n + length rest" by (simp add: encode_def len)
  have split: "ring_bytes cb = ring_slice (buffer cb) ?c 1 @
      ring_slice (buffer cb) ((?c + 1) mod N) ?n @
      ring_slice (buffer cb) ((?c + (1 + ?n)) mod N) (length rest)"
    unfolding ring_bytes_def used
    by (simp only: ring_slice_add mod_simps add.assoc append_assoc)
  have parts: "ring_slice (buffer cb) ?c 1 = [command_id c]"
    "ring_slice (buffer cb) ((?c + 1) mod N) ?n = bytes_of c"
    "ring_slice (buffer cb) ((?c + (1 + ?n)) mod N) (length rest) = rest"
    using split bytes by (auto simp: encode_def len append_eq_append_conv ring_slice_Suc)
  define c2 :: u16 where "c2 = of_nat ((?c + (1 + ?n)) mod N)"
  have load1: "(load_bytes 1 (completed_index cb) (buffer cb) :: (_, 'e) outcome) =
      Ok ([command_id c], of_nat ((?c + 1) mod N))"
    using load_bytes_spec [of "completed_index cb" "buffer cb" 1] inv parts(1)
    by (simp add: cb_inv_def)
  have load2: "(load_bytes ?n (of_nat ((?c + 1) mod N)) (buffer cb) :: (_, 'e) outcome) =
      Ok (bytes_of c, c2)"
    using load_bytes_spec [of "of_nat ((?c + 1) mod N)" "buffer cb" ?n] inv parts(2)
    by (simp add: cb_inv_def c2_def mod_simps)
  have "unat (pending_index cb) \<noteq> unat (completed_index cb)"
    using pending_eq [OF inv] used used_less [of cb] ring_index_inj [of ?c "used cb" N 0] inv
    by (auto simp: cb_inv_def)
  then have run: "(handle cb :: (_, 'e) outcome) =
      Ok (Some (c, call_of c), cb\<lparr>completed_index := c2\<rparr>)"
    using load1 load2 ok by (auto simp: handle_def command_of_bytes_of dispatch_ok)
  have "used (cb\<lparr>completed_index := c2\<rparr>) = length rest"
    using pending_eq [OF inv] used used_less [of cb]
    by (intro used_eqI) (auto simp: c2_def mod_simps add.assoc)
  then have "ring_bytes (cb\<lparr>completed_index := c2\<rparr>) = rest"
    using parts(3) by (simp add: ring_bytes_def c2_def)
  with run inv show ?thesis by (auto simp: cb_inv_def c2_def)
qed

subsection \<open>The command buffer as a channel\<close>

definition cb_send :: "command \<Rightarrow> command_buffer \<Rightarrow> command_buffer option" where
  "cb_send c cb = (case push c cb of Ok cb' \<Rightarrow> Some cb' | _ \<Rightarrow> None)"

definition cb_receive :: "command_buffer \<Rightarrow> command option \<times> command_buffer" where
  "cb_receive cb =
     (case (handle cb :: ((command \<times> handler_call) option \<times> command_buffer, unit) outcome) of
        Ok (x, cb') \<Rightarrow> (map_option fst x, cb')
      | _ \<Rightarrow> (None, cb))"

lemma queued_push:
  assumes "queued cb cs" "command_ok c" "push c cb = Ok cb'"
  shows "queued cb' (cs @ [c])"
proof -
  have inv: "cb_inv cb" using assms(1) by (simp add: queued_def)
  have "1 + size_of c \<le> N - 1 - used cb"
    using push_full [OF inv, of c] assms(3) by (cases "N - 1 - used cb < 1 + size_of c") auto
  from push_room [OF inv command_ok_wf [OF assms(2)] this] assms
  show ?thesis by (auto simp: queued_def)
qed

lemma queued_handle:
  assumes "queued cb (c # cs)"
  shows "\<exists>cb'. (handle cb :: (_, 'e) outcome) = Ok (Some (c, call_of c), cb') \<and> queued cb' cs"
  using handle_next [of cb c "concat (map encode cs)"] assms
  by (auto simp: queued_def)

lemma queued_Nil_handle: "queued cb [] \<Longrightarrow> handle cb = Ok (None, cb)"
  by (simp add: queued_def handle_empty)

interpretation cb: fifo_channel command_ok queued cb_send cb_receive
proof
  fix s ms m s' assume "queued s ms" "command_ok m" "cb_send m s = Some s'"
  then show "queued s' (ms @ [m])"
    by (auto simp: cb_send_def intro: queued_push split: outcome.splits)
next
  fix s m ms assume "queued s (m # ms)"
  from queued_handle [OF this, where 'e = unit]
  show "\<exists>s'. cb_receive s = (Some m, s') \<and> queued s' ms"
    by (auto simp: cb_receive_def)
next
  fix s assume "queued s []"
  then show "\<exists>s'. cb_receive s = (None, s') \<and> queued s' []"
    by (simp add: cb_receive_def queued_Nil_handle)
qed

lemma queued_new: "queued command_buffer_new []"
  by (simp add: queued_def cb_inv_def command_buffer_new_def ring_bytes_def used_def ring_slice_def)

lemma UpdateOutput_new_ok:
  assumes "UpdateOutput_new chunk = Ok c"
  shows "command_ok c" "call_of c = update_output chunk"
proof -
  have "length chunk \<le> OUTPUT_CHUNK"
    and c: "c = UpdateOutput (of_nat (length chunk)) (chunk @ replicate (OUTPUT_CHUNK - length chunk) 0)"
    using assms by (auto simp: UpdateOutput_new_def result_simps)
  moreover from this have "length chunk < 2 ^ 16" by simp
  then have "unat (of_nat (length chunk) :: u16) = length chunk"
    by (simp add: unsigned_of_nat take_bit_nat_eq_self)
  ultimately show "command_ok c" "call_of c = update_output chunk" by simp_all
qed

section \<open>The allocation buffer\<close>

abbreviation ALLOCATIONS :: nat where
  "ALLOCATIONS \<equiv> 32"

definition SLOT_EMPTY :: u16 where
  "SLOT_EMPTY = 0xffff"

text \<open>\<^verbatim>\<open>SlotIndex::new\<close> and \<^verbatim>\<open>SlotIndex::get\<close> assert the index below \<^verbatim>\<open>u16::MAX / 2\<close>.\<close>

definition SlotIndex_new :: "u16 \<Rightarrow> (u16, 'e) outcome" where
  "SlotIndex_new value = rassert (unat value < 65535 div 2) (Ok value)"

definition SlotIndex_get :: "u16 \<Rightarrow> (u16, 'e) outcome" where
  "SlotIndex_get slot = rassert (unat slot < 65535 div 2) (Ok slot)"

definition allocation_buffer_new :: "u16 list" where
  "allocation_buffer_new = replicate ALLOCATIONS SLOT_EMPTY"

text \<open>
  \<^verbatim>\<open>pop_allocation\<close>: the iterator is lazy, so the entries are swapped with the empty
  marker one by one until a slot is found.
\<close>

fun pop_allocation :: "u16 list \<Rightarrow> u16 option \<times> u16 list" where
  "pop_allocation [] = (None, [])"
| "pop_allocation (a # as) =
     (if a \<noteq> SLOT_EMPTY then (Some a, SLOT_EMPTY # as)
      else (case pop_allocation as of (r, as') \<Rightarrow> (r, SLOT_EMPTY # as')))"

text \<open>\<^verbatim>\<open>find_free_entry\<close> returns a reference to the entry; here its index.\<close>

fun find_free_entry :: "u16 list \<Rightarrow> nat option" where
  "find_free_entry [] = None"
| "find_free_entry (a # as) =
     (if a = SLOT_EMPTY then Some 0 else map_option Suc (find_free_entry as))"

definition entry_set :: "u16 list \<Rightarrow> nat \<Rightarrow> u16 \<Rightarrow> u16 list" where
  "entry_set as i slot_idx = as[i := slot_idx]"

text \<open>The slots a buffer holds, as a bag.\<close>

definition slots :: "u16 list \<Rightarrow> u16 multiset" where
  "slots as = mset (filter (\<lambda>a. a \<noteq> SLOT_EMPTY) as)"

lemma pop_allocation_length: "length (snd (pop_allocation as)) = length as"
  by (induction as) (auto split: prod.splits)

lemma pop_allocation_slots:
  "case pop_allocation as of
     (None, as') \<Rightarrow> slots as = {#} \<and> as' = as
   | (Some a, as') \<Rightarrow> a \<noteq> SLOT_EMPTY \<and> slots as = add_mset a (slots as')"
  by (induction as) (auto simp: slots_def split: prod.splits option.splits)

lemma find_free_entry_Some: "find_free_entry as = Some i \<Longrightarrow> i < length as \<and> as ! i = SLOT_EMPTY"
  by (induction as arbitrary: i) (auto split: if_splits)

lemma find_free_entry_None: "find_free_entry as = None \<longleftrightarrow> SLOT_EMPTY \<notin> set as"
  by (induction as) auto

lemma slots_set:
  "i < length as \<Longrightarrow> as ! i = SLOT_EMPTY \<Longrightarrow> a \<noteq> SLOT_EMPTY \<Longrightarrow>
   slots (entry_set as i a) = add_mset a (slots as)"
  by (induction as arbitrary: i) (auto simp: slots_def entry_set_def nth_Cons split: nat.splits)

section \<open>The notification buffer\<close>

definition notification_buffer_new :: "u64 list" where
  "notification_buffer_new = [0, 0]"

definition arm :: "nat \<Rightarrow> u64 list \<Rightarrow> (u64 list, 'e) outcome" where
  "arm vcpu bits =
     rassert (vcpu div 64 < length bits)
       (Ok (bits[vcpu div 64 := (bits ! (vcpu div 64)) OR push_bit (vcpu mod 64) 1]))"

text \<open>\<^verbatim>\<open>reset\<close> run to its end: every word is swapped with zero, and the positions of the
  set bits are returned.\<close>

definition reset :: "u64 list \<Rightarrow> nat list \<times> u64 list" where
  "reset bits =
     (map fst (filter snd (enumerate 0 (concat (map (\<lambda>w. map (\<lambda>i. bit w i) [0..<64]) bits)))),
      map (\<lambda>_. 0) bits)"

definition armed :: "u64 list \<Rightarrow> nat set" where
  "armed bits = {v. v div 64 < length bits \<and> bit (bits ! (v div 64)) (v mod 64)}"

lemma length_flat_bits: "length (concat (map (\<lambda>w. map (\<lambda>i. bit w i) [0..<64]) (ws :: u64 list))) = 64 * length ws"
  by (induction ws) auto

lemma nth_flat_bits:
  "v < 64 * length ws \<Longrightarrow>
   concat (map (\<lambda>w. map (\<lambda>i. bit w i) [0..<64]) (ws :: u64 list)) ! v = bit (ws ! (v div 64)) (v mod 64)"
proof (induction ws arbitrary: v)
  case Nil
  then show ?case by simp
next
  case (Cons w ws)
  show ?case
  proof (cases "v < 64")
    case True
    then show ?thesis by (simp add: nth_append)
  next
    case False
    with Cons.prems have "v - 64 < 64 * length ws" by simp
    moreover have "v div 64 = Suc ((v - 64) div 64)" "v mod 64 = (v - 64) mod 64"
      using False by (simp_all add: le_div_geq le_mod_geq)
    ultimately show ?thesis using Cons.IH [of "v - 64"] False by (simp add: nth_append)
  qed
qed

lemma set_reset: "set (fst (reset bits)) = armed bits"
  by (auto simp: reset_def armed_def in_set_enumerate_eq length_flat_bits nth_flat_bits
      div_less_iff_less_mult mult.commute image_iff)

lemma sorted_enumerate: "sorted_wrt (<) (map fst (filter snd (enumerate n bs)))"
  by (induction bs arbitrary: n) (auto simp: in_set_enumerate_eq)

lemma sorted_reset: "sorted_wrt (<) (fst (reset bits))"
  by (simp add: reset_def sorted_enumerate)

lemma armed_reset: "armed (snd (reset bits)) = {}"
  by (auto simp: reset_def armed_def)

lemma armed_arm:
  assumes "arm vcpu bits = Ok bits'"
  shows "armed bits' = insert vcpu (armed bits)" "length bits' = length bits"
proof -
  have "vcpu div 64 < length bits"
    and bits': "bits' = bits[vcpu div 64 := (bits ! (vcpu div 64)) OR push_bit (vcpu mod 64) 1]"
    using assms by (auto simp: arm_def result_simps)
  then show "length bits' = length bits" by simp
  have "v = vcpu" if "v div 64 = vcpu div 64" "v mod 64 = vcpu mod 64" for v
    using that by (metis div_mult_mod_eq)
  then show "armed bits' = insert vcpu (armed bits)"
    using \<open>vcpu div 64 < length bits\<close>
    by (auto simp: bits' armed_def nth_list_update bit_simps split: if_splits)
qed

section \<open>Properties\<close>

text \<open>
  C29. The command buffer delivers in order: whatever the interleaving of the kernel's
  pushes and the supervisor's handles on a new buffer, the commands handled are a prefix
  of the commands accepted, in the order they were accepted, and the rest is still queued.
  No command is lost, duplicated, reordered or altered on its way through the ring.
\<close>

theorem command_buffer_in_order:
  assumes "sends_ok command_ok ops"
  shows "case fifo_run cb_send cb_receive ops command_buffer_new of
    (accepted, handled, cb) \<Rightarrow> \<exists>pending. queued cb pending \<and> accepted = handled @ pending"
  using cb.run_in_order [OF queued_new assms] by (auto split: prod.splits)

theorem command_buffer_in_order_witness:
  "case fifo_run cb_send cb_receive [Send FailOutput, Receive, Receive, Send (DeallocateMemory 5)]
      command_buffer_new of
    (accepted, handled, cb) \<Rightarrow> \<exists>pending. queued cb pending \<and> accepted = handled @ pending"
  by (rule command_buffer_in_order) simp

text \<open>
  A push succeeds exactly when the command and the commands still queued fit into the
  ring less one byte; otherwise it returns \<^verbatim>\<open>CapacityError\<close>. It never panics, and the
  \<^verbatim>\<open>u16\<close> computation of the free space never overflows.
\<close>

theorem push_outcome:
  assumes "queued cb cs" "command_ok c"
  shows "if length (concat (map encode cs)) + length (encode c) \<le> N - 1
    then \<exists>cb'. push c cb = Ok cb' \<and> queued cb' (cs @ [c])
    else push c cb = Err CapacityError"
proof -
  have inv: "cb_inv cb" and ring: "ring_bytes cb = concat (map encode cs)"
    using assms(1) by (auto simp: queued_def)
  have used: "used cb = length (concat (map encode cs))"
    using ring by (metis length_ring_slice ring_bytes_def)
  have len: "length (encode c) = 1 + size_of c"
    using assms(2) by (simp add: length_encode command_ok_wf)
  show ?thesis
    using push_full [OF inv, of c] push_room [OF inv command_ok_wf [OF assms(2)]]
      queued_push [OF assms] used len
    by (cases "1 + size_of c \<le> N - 1 - used cb") auto
qed

theorem push_outcome_witness:
  "\<exists>cb'. push FinishOutput command_buffer_new = Ok cb' \<and> queued cb' [FinishOutput]"
  using push_outcome [OF queued_new, of FinishOutput] by (simp add: encode_def)

text \<open>
  Output reaches the supervisor unchanged: a chunk of at most 4096 bytes wrapped in an
  \<^verbatim>\<open>UpdateOutput\<close> command and pushed into a drained buffer is handed to
  \<^verbatim>\<open>update_output\<close> byte for byte, whatever the position of the ring's indices.
\<close>

theorem update_output_roundtrip:
  assumes "queued cb []" "length chunk \<le> OUTPUT_CHUNK"
  shows "\<exists>c cb' cb''. (UpdateOutput_new chunk :: (command, unit) outcome) = Ok c \<and>
    push c cb = Ok cb' \<and>
    (handle cb' :: (_, unit) outcome) = Ok (Some (c, update_output chunk), cb'') \<and> queued cb'' []"
proof -
  obtain c where new: "(UpdateOutput_new chunk :: (command, unit) outcome) = Ok c"
    using assms(2) by (simp add: UpdateOutput_new_def)
  have ok: "command_ok c" and call: "call_of c = update_output chunk"
    using UpdateOutput_new_ok [OF new] by auto
  have c: "size_of c = 2 + OUTPUT_CHUNK"
    using new by (auto simp: UpdateOutput_new_def result_simps)
  have inv: "cb_inv cb" and "used cb = 0"
    using assms(1) by (auto simp: queued_def) (metis length_ring_slice list.size(3) ring_bytes_def)
  then obtain cb' where push: "push c cb = Ok cb'"
    using push_room [OF inv command_ok_wf [OF ok]] c by auto
  then have "queued cb' [c]"
    using queued_push [OF assms(1) ok] by simp
  from queued_handle [OF this, where 'e = unit] new push call show ?thesis by auto
qed

theorem update_output_roundtrip_witness:
  "\<exists>c cb' cb''. (UpdateOutput_new [104, 105] :: (command, unit) outcome) = Ok c \<and>
    push c command_buffer_new = Ok cb' \<and>
    (handle cb' :: (_, unit) outcome) = Ok (Some (c, update_output [104, 105]), cb'') \<and>
    queued cb'' []"
  by (rule update_output_roundtrip [OF queued_new]) simp

text \<open>
  The allocation buffer is a bag of slots: \<^verbatim>\<open>pop_allocation\<close> removes one slot the
  buffer holds and returns nothing only when it holds none; storing a slot into the entry
  \<^verbatim>\<open>find_free_entry\<close> returns adds exactly that slot, and no entry is returned only when
  all are taken.
\<close>

theorem allocation_buffer_bag:
  assumes "slot \<noteq> SLOT_EMPTY"
  shows "(case pop_allocation as of
       (None, as') \<Rightarrow> slots as = {#} \<and> as' = as
     | (Some a, as') \<Rightarrow> a \<noteq> SLOT_EMPTY \<and> slots as = add_mset a (slots as')) \<and>
    (case find_free_entry as of
       None \<Rightarrow> size (slots as) = length as
     | Some i \<Rightarrow> slots (entry_set as i slot) = add_mset slot (slots as))"
proof (cases "find_free_entry as")
  case None
  then have "filter (\<lambda>a. a \<noteq> SLOT_EMPTY) as = as"
    by (auto simp: find_free_entry_None filter_id_conv)
  then have "size (slots as) = length as" by (simp add: slots_def)
  with None pop_allocation_slots [of as] show ?thesis by simp
next
  case (Some i)
  with assms pop_allocation_slots [of as] show ?thesis
    by (simp add: slots_set find_free_entry_Some)
qed

theorem allocation_buffer_bag_witness:
  "case find_free_entry allocation_buffer_new of
     None \<Rightarrow> size (slots allocation_buffer_new) = length allocation_buffer_new
   | Some i \<Rightarrow> slots (entry_set allocation_buffer_new i 7) =
       add_mset 7 (slots allocation_buffer_new)"
  by (rule allocation_buffer_bag [THEN conjunct2]) (simp add: SLOT_EMPTY_def)

text \<open>
  \<^verbatim>\<open>reset\<close> returns exactly the vCPUs armed since the last reset, in increasing
  order and each once, and leaves nothing armed; arming a vCPU below 128 adds it and
  nothing else, and arming any other vCPU panics.
\<close>

theorem notification_buffer_reset:
  assumes "length bits = 2"
  shows "set (fst (reset bits)) = armed bits \<and> sorted_wrt (<) (fst (reset bits)) \<and>
    armed (snd (reset bits)) = {} \<and>
    (if vcpu < 128
     then \<exists>bits'. (arm vcpu bits :: (_, unit) outcome) = Ok bits' \<and> length bits' = 2 \<and>
       armed bits' = insert vcpu (armed bits)
     else (arm vcpu bits :: (_, unit) outcome) = Panic)"
proof -
  have iff: "vcpu div 64 < length bits \<longleftrightarrow> vcpu < 128"
    using assms by (simp add: div_less_iff_less_mult)
  have "if vcpu < 128
     then \<exists>bits'. (arm vcpu bits :: (_, unit) outcome) = Ok bits' \<and> length bits' = 2 \<and>
       armed bits' = insert vcpu (armed bits)
     else (arm vcpu bits :: (_, unit) outcome) = Panic"
  proof (cases "vcpu < 128")
    case True
    then obtain bits' where "(arm vcpu bits :: (_, unit) outcome) = Ok bits'"
      using iff by (simp add: arm_def)
    with True armed_arm [OF this] assms show ?thesis by simp
  next
    case False
    with iff show ?thesis by (simp add: arm_def)
  qed
  then show ?thesis by (simp add: set_reset sorted_reset armed_reset)
qed

theorem notification_buffer_reset_witness:
  "\<exists>bits'. (arm 70 notification_buffer_new :: (_, unit) outcome) = Ok bits' \<and> length bits' = 2 \<and>
    armed bits' = insert 70 (armed notification_buffer_new)"
  using notification_buffer_reset [of notification_buffer_new 70]
  by (simp add: notification_buffer_new_def)

end
