(* ===== verification/Ordered_Map.thy ===== *)
theory Ordered_Map
  imports Interfaces
begin

text \<open>
  The ordered map of the standard library (Rust's \<^verbatim>\<open>BTreeMap\<close>) as an association
  list kept in strictly ascending key order, so that its iterators are the list itself.
  The contract its clients rely on is the locale \<open>ordered_map\<close>, interpreted here as
  \<open>bt\<close>.
\<close>

section \<open>The contract\<close>

locale ordered_map =
  fixes wf :: "'m \<Rightarrow> bool"
    and empty :: "'m"
    and get :: "'k::linorder \<Rightarrow> 'm \<Rightarrow> 'v option"
    and put :: "'k \<Rightarrow> 'v \<Rightarrow> 'm \<Rightarrow> 'm"
    and del :: "'k \<Rightarrow> 'm \<Rightarrow> 'm"
    and entries :: "'m \<Rightarrow> ('k \<times> 'v) list"
  assumes wf_empty: "wf empty"
    and wf_put: "wf m \<Longrightarrow> wf (put k v m)"
    and wf_del: "wf m \<Longrightarrow> wf (del k m)"
    and get_empty: "get k empty = None"
    and get_put: "wf m \<Longrightarrow> get k (put k' v m) = (if k = k' then Some v else get k m)"
    and get_del: "wf m \<Longrightarrow> get k (del k' m) = (if k = k' then None else get k m)"
    and get_entries: "get k m = map_of (entries m) k"
    and sorted_entries: "wf m \<Longrightarrow> sorted_wrt (<) (map fst (entries m))"
begin

lemma distinct_entries: "wf m \<Longrightarrow> distinct (map fst (entries m))"
  using sorted_entries strict_sorted_iff by blast

lemma entries_get: "wf m \<Longrightarrow> (k, v) \<in> set (entries m) \<longleftrightarrow> get k m = Some v"
  by (simp add: get_entries distinct_entries)

lemma keys_get: "k \<in> set (map fst (entries m)) \<longleftrightarrow> get k m \<noteq> None"
  by (simp add: get_entries map_of_eq_None_iff)

text \<open>What a map iterates over is determined by what its lookups return.\<close>

lemma entries_eqI:
  assumes "wf m" "wf m'" "\<And>k. get k m = get k m'"
  shows "entries m = entries m'"
proof (rule map_sorted_distinct_set_unique [where f = fst])
  show "inj_on fst (set (entries m) \<union> set (entries m'))"
    using assms by (auto simp: inj_on_def entries_get)
  show "set (entries m) = set (entries m')"
    using assms by (auto simp: entries_get)
qed (use assms sorted_entries distinct_entries strict_sorted_iff in auto)

lemma put_put: "wf m \<Longrightarrow> entries (put k v (put k w m)) = entries (put k v m)"
  by (rule entries_eqI) (auto simp: wf_put get_put)

lemma put_commute:
  "wf m \<Longrightarrow> k \<noteq> k' \<Longrightarrow> entries (put k v (put k' w m)) = entries (put k' w (put k v m))"
  by (rule entries_eqI) (auto simp: wf_put get_put)

lemma del_put: "wf m \<Longrightarrow> get k m = None \<Longrightarrow> entries (del k (put k v m)) = entries m"
  by (rule entries_eqI) (auto simp: wf_put wf_del get_put get_del)

end

section \<open>Sorted association lists\<close>

type_synonym ('k, 'v) btree = "('k \<times> 'v) list"

definition bt_wf :: "('k::linorder, 'v) btree \<Rightarrow> bool" where
  "bt_wf m = sorted_wrt (<) (map fst m)"

fun bt_get :: "'k::linorder \<Rightarrow> ('k, 'v) btree \<Rightarrow> 'v option" where
  "bt_get k [] = None"
| "bt_get k ((k', v) # m) = (if k = k' then Some v else bt_get k m)"

fun bt_insert :: "'k::linorder \<Rightarrow> 'v \<Rightarrow> ('k, 'v) btree \<Rightarrow> ('k, 'v) btree" where
  "bt_insert k v [] = [(k, v)]"
| "bt_insert k v ((k', v') # m) =
     (if k < k' then (k, v) # (k', v') # m
      else if k = k' then (k, v) # m
      else (k', v') # bt_insert k v m)"

fun bt_remove :: "'k::linorder \<Rightarrow> ('k, 'v) btree \<Rightarrow> ('k, 'v) btree" where
  "bt_remove k [] = []"
| "bt_remove k ((k', v) # m) = (if k = k' then m else (k', v) # bt_remove k m)"

lemma keys_bt_insert: "set (map fst (bt_insert k v m)) = insert k (set (map fst m))"
  by (induction k v m rule: bt_insert.induct) auto

lemma keys_bt_remove: "set (map fst (bt_remove k m)) \<subseteq> set (map fst m)"
  by (induction k m rule: bt_remove.induct) auto

lemma bt_wf_insert: "bt_wf m \<Longrightarrow> bt_wf (bt_insert k v m)"
proof (induction k v m rule: bt_insert.induct)
  case (2 k v k' v' m)
  then have "bt_wf m \<and> (\<forall>x\<in>set (map fst m). k' < x)" by (simp add: bt_wf_def)
  with 2 show ?case
    using keys_bt_insert [of k v m] by (auto simp: bt_wf_def)
qed (simp add: bt_wf_def)

lemma bt_wf_remove: "bt_wf m \<Longrightarrow> bt_wf (bt_remove k m)"
proof (induction k m rule: bt_remove.induct)
  case (2 k k' v m)
  then have "\<forall>x\<in>set (map fst m). k' < x" by (simp add: bt_wf_def)
  then have "\<forall>x\<in>set (map fst (bt_remove k m)). k' < x"
    using keys_bt_remove [of k m] by blast
  with 2 show ?case by (auto simp: bt_wf_def)
qed simp

lemma bt_get_map_of: "bt_get k m = map_of m k"
  by (induction k m rule: bt_get.induct) auto

lemma bt_get_insert: "bt_get k (bt_insert k' v m) = (if k = k' then Some v else bt_get k m)"
  by (induction k' v m rule: bt_insert.induct) auto

lemma bt_get_remove: "bt_wf m \<Longrightarrow> bt_get k (bt_remove k' m) = (if k = k' then None else bt_get k m)"
proof (induction k' m rule: bt_remove.induct)
  case (2 k' k'' v m)
  then have wf: "bt_wf m" and "k'' \<notin> set (map fst m)" by (auto simp: bt_wf_def)
  then have "bt_get k'' m = None" by (simp add: bt_get_map_of map_of_eq_None_iff)
  with 2 wf show ?case by auto
qed simp

interpretation bt: ordered_map bt_wf "[]" bt_get bt_insert bt_remove "\<lambda>m. m"
  by unfold_locales
    (simp_all add: bt_wf_insert bt_wf_remove bt_get_insert bt_get_remove, simp_all add: bt_wf_def bt_get_map_of)

lemma bt_wf_Nil [simp]: "bt_wf []"
  by (simp add: bt_wf_def)

text \<open>Filtering a map and mapping over its values keep the order of its keys.\<close>

lemma bt_wf_filter: "bt_wf m \<Longrightarrow> bt_wf (filter P m)"
  by (induction m) (auto simp: bt_wf_def)

lemma bt_wf_map_value: "bt_wf m \<Longrightarrow> bt_wf (map (\<lambda>(k, v). (k, f k v)) m)"
  by (simp add: bt_wf_def comp_def case_prod_beta)

lemma bt_get_filter:
  "bt_wf m \<Longrightarrow> bt_get k (filter P m) =
     (case bt_get k m of None \<Rightarrow> None | Some v \<Rightarrow> if P (k, v) then Some v else None)"
proof (induction m)
  case (Cons kv m)
  obtain k' v where [simp]: "kv = (k', v)" by (cases kv)
  from Cons.prems have wf: "bt_wf m" and lt: "\<And>x. x \<in> set (map fst m) \<Longrightarrow> k' < x"
    by (auto simp: bt_wf_def)
  have "bt_get k' m = None"
    using lt by (auto simp: bt_get_map_of map_of_eq_None_iff)
  with Cons.IH [OF wf] show ?case
    by (auto split: option.splits)
qed simp

lemma bt_get_map_value:
  "bt_get k (map (\<lambda>(k, v). (k, f k v)) m) = map_option (f k) (bt_get k m)"
  by (induction m) auto

end
