(* ===== verification/Notify.thy ===== *)
theory Notify
  imports Interfaces "HOL-Library.Multiset"
begin

text \<open>
  The notification primitive of the kernel's runtime (\<^verbatim>\<open>tee/kernel/src/rt/notify.rs\<close>).
  A waker is the number of the task it wakes, so \<^verbatim>\<open>will_wake\<close> is equality. Each
  definition is one critical section of the lock around the state; the calls several tasks
  make interleave at this grain in the transition system \<open>notify_step\<close>.
\<close>

section \<open>The state and its operations\<close>

type_synonym waker = nat

record notify =
  generation :: u64
  wakers :: "waker list"

record wait =
  start_generation :: u64
  registered_waker :: "waker option"

definition Notify_new :: notify where
  "Notify_new = \<lparr>generation = 0, wakers = []\<rparr>"

definition Notify_wait :: "notify \<Rightarrow> wait" where
  "Notify_wait st = \<lparr>start_generation = generation st, registered_waker = None\<rparr>"

text \<open>\<^verbatim>\<open>iter().position(..)\<close> and \<^verbatim>\<open>Vec::swap_remove\<close>.\<close>

fun position :: "('a \<Rightarrow> bool) \<Rightarrow> 'a list \<Rightarrow> nat option" where
  "position P [] = None"
| "position P (x # xs) = (if P x then Some 0 else map_option Suc (position P xs))"

definition swap_remove :: "nat \<Rightarrow> 'a list \<Rightarrow> 'a list" where
  "swap_remove i xs = butlast (xs[i := last xs])"

definition remove_waker :: "wait \<Rightarrow> waker \<Rightarrow> notify \<Rightarrow> (notify, 'e) outcome" where
  "remove_waker w wk st =
     (if generation st \<noteq> start_generation w then Ok st
      else rbind (unwrap (position ((=) wk) (wakers st)))
        (\<lambda>idx. Ok (st\<lparr>wakers := swap_remove idx (wakers st)\<rparr>)))"

datatype poll = Ready | Pending

definition wait_poll :: "waker \<Rightarrow> wait \<Rightarrow> notify \<Rightarrow> (poll \<times> wait \<times> notify, 'e) outcome" where
  "wait_poll wk w st =
     (if generation st \<noteq> start_generation w then Ok (Ready, w, st)
      else (case registered_waker w of
          Some old \<Rightarrow>
            (if old = wk then Ok (Pending, w, st)
             else rbind (remove_waker w old st)
               (\<lambda>st'. Ok (Pending, w\<lparr>registered_waker := Some wk\<rparr>,
                 st'\<lparr>wakers := wakers st' @ [wk]\<rparr>)))
        | None \<Rightarrow>
            Ok (Pending, w\<lparr>registered_waker := Some wk\<rparr>, st\<lparr>wakers := wakers st @ [wk]\<rparr>)))"

definition wait_drop :: "wait \<Rightarrow> notify \<Rightarrow> (notify, 'e) outcome" where
  "wait_drop w st =
     (case registered_waker w of None \<Rightarrow> Ok st | Some wk \<Rightarrow> remove_waker w wk st)"

text \<open>\<^verbatim>\<open>notify\<close> returns the wakers it woke, in the order it woke them.\<close>

definition Notify_notify :: "notify \<Rightarrow> (notify \<times> waker list, 'e) outcome" where
  "Notify_notify st =
     rbind (wadd (generation st) 1)
       (\<lambda>g. Ok (\<lparr>generation = g, wakers = []\<rparr>, wakers st))"

section \<open>The transition system\<close>

text \<open>A primitive and the futures it has handed out; a dropped future is \<open>None\<close>.\<close>

record notify_sys =
  cell :: notify
  waits :: "wait option list"

inductive notify_step :: "notify_sys \<Rightarrow> notify_sys \<Rightarrow> bool" where
  wait: "notify_step s (s\<lparr>waits := waits s @ [Some (Notify_wait (cell s))]\<rparr>)"
| poll: "i < length (waits s) \<Longrightarrow> waits s ! i = Some w \<Longrightarrow>
    wait_poll wk w (cell s) = (Ok (r, w', st) :: (_, unit) outcome) \<Longrightarrow>
    notify_step s \<lparr>cell = st, waits = (waits s)[i := Some w']\<rparr>"
| drop: "i < length (waits s) \<Longrightarrow> waits s ! i = Some w \<Longrightarrow>
    wait_drop w (cell s) = (Ok st :: (_, unit) outcome) \<Longrightarrow>
    notify_step s \<lparr>cell = st, waits = (waits s)[i := None]\<rparr>"
| notify: "Notify_notify (cell s) = (Ok (st, wks) :: (_, unit) outcome) \<Longrightarrow>
    notify_step s (s\<lparr>cell := st\<rparr>)"

definition notify_init :: "notify_sys \<Rightarrow> bool" where
  "notify_init s = (s = \<lparr>cell = Notify_new, waits = []\<rparr>)"

inductive_cases notify_stepE: "notify_step s t"

text \<open>The wakers in the list are exactly those of the futures of the current generation.\<close>

definition registered :: "u64 \<Rightarrow> wait option \<Rightarrow> waker list" where
  "registered g x =
     (case x of None \<Rightarrow> []
      | Some w \<Rightarrow> if start_generation w = g
                 then (case registered_waker w of None \<Rightarrow> [] | Some wk \<Rightarrow> [wk]) else [])"

definition notify_inv :: "notify_sys \<Rightarrow> bool" where
  "notify_inv s =
     (mset (wakers (cell s)) = mset (concat (map (registered (generation (cell s))) (waits s))) \<and>
      (\<forall>w. Some w \<in> set (waits s) \<longrightarrow> start_generation w \<le> generation (cell s)))"

lemma position_SomeD: "position P xs = Some i \<Longrightarrow> i < length xs \<and> P (xs ! i)"
  by (induction xs arbitrary: i) (auto split: if_splits)

lemma position_None_iff: "position P xs = None \<longleftrightarrow> (\<forall>x\<in>set xs. \<not> P x)"
  by (induction xs) auto

lemma mset_swap_remove: "i < length xs \<Longrightarrow> mset (swap_remove i xs) = mset xs - {#xs ! i#}"
proof (cases xs rule: rev_cases)
  case (snoc ys y)
  assume "i < length xs"
  with snoc show ?thesis
    by (cases "i = length ys")
      (auto simp: swap_remove_def list_update_append mset_update nth_append butlast_append)
qed simp

lemma mset_concat_map_update:
  "i < length xs \<Longrightarrow>
   mset (concat (map f (xs[i := y]))) + mset (f (xs ! i)) = mset (concat (map f xs)) + mset (f y)"
  by (induction xs arbitrary: i) (auto simp: less_Suc_eq_0_disj ac_simps)

lemma remove_waker_present:
  assumes "generation st = start_generation w" "wk \<in> set (wakers st)"
  obtains st' where "remove_waker w wk st = (Ok st' :: (_, 'e) outcome)"
    "generation st' = generation st" "add_mset wk (mset (wakers st')) = mset (wakers st)"
proof -
  obtain i where i: "position ((=) wk) (wakers st) = Some i"
    using assms(2) by (cases "position ((=) wk) (wakers st)") (auto simp: position_None_iff)
  with position_SomeD [OF i] assms(1) that show ?thesis
    by (simp add: remove_waker_def mset_swap_remove nth_mem)
qed

lemma registered_mem:
  assumes "notify_inv s" "i < length (waits s)" "waits s ! i = Some w"
    "start_generation w = generation (cell s)" "registered_waker w = Some wk"
  shows "wk \<in> set (wakers (cell s))"
proof -
  have "wk \<in> set (concat (map (registered (generation (cell s))) (waits s)))"
  proof -
    have "registered (generation (cell s)) (Some w) = [wk]"
      using assms by (simp add: registered_def)
    moreover have "Some w \<in> set (waits s)"
      using nth_mem [OF assms(2)] assms(3) by simp
    ultimately show ?thesis
      by (metis UN_I image_eqI list.set_intros(1) set_concat set_map)
  qed
  with assms(1) show ?thesis
    unfolding notify_inv_def by (metis mset_eq_setD)
qed

text \<open>What replacing one future does to the list of wakers it accounts for.\<close>

lemma notify_inv_update:
  assumes inv: "notify_inv s" and i: "i < length (waits s)"
    and gen: "generation st = generation (cell s)"
    and ws: "mset (wakers st) + mset (registered (generation st) (waits s ! i)) =
      mset (wakers (cell s)) + mset (registered (generation st) x)"
    and le: "\<And>w. x = Some w \<Longrightarrow> start_generation w \<le> generation st"
  shows "notify_inv \<lparr>cell = st, waits = (waits s)[i := x]\<rparr>"
proof -
  let ?f = "registered (generation (cell s))"
  have "mset (wakers st) + mset (?f (waits s ! i)) =
      mset (concat (map ?f ((waits s)[i := x]))) + mset (?f (waits s ! i))"
    using mset_concat_map_update [OF i, of ?f x] inv ws gen by (simp add: notify_inv_def)
  then have "mset (wakers st) = mset (concat (map ?f ((waits s)[i := x])))"
    by simp
  moreover have "start_generation w \<le> generation st" if "Some w \<in> set ((waits s)[i := x])" for w
    using inv le that set_update_subset_insert [of "waits s" i x] gen by (auto simp: notify_inv_def)
  ultimately show ?thesis
    using gen by (simp add: notify_inv_def)
qed

lemma wait_poll_ok:
  assumes inv: "notify_inv s" and i: "i < length (waits s)" "waits s ! i = Some w"
  obtains r w' st where "wait_poll wk w (cell s) = (Ok (r, w', st) :: (_, 'e) outcome)"
    "r = Ready \<longleftrightarrow> start_generation w \<noteq> generation (cell s)"
    "start_generation w' = start_generation w"
    "r = Pending \<Longrightarrow> registered_waker w' = Some wk"
    "notify_inv \<lparr>cell = st, waits = (waits s)[i := Some w']\<rparr>"
proof (cases "start_generation w = generation (cell s)")
  case False
  have "notify_inv \<lparr>cell = cell s, waits = (waits s)[i := Some w]\<rparr>"
    by (rule notify_inv_update) (use inv i in \<open>auto simp: notify_inv_def in_set_conv_nth\<close>)
  with False that [of Ready w "cell s"] show ?thesis by (simp add: wait_poll_def)
next
  case True
  have le: "start_generation w \<le> generation (cell s)" using True by simp
  show ?thesis
  proof (cases "registered_waker w")
    case None
    let ?w = "w\<lparr>registered_waker := Some wk\<rparr>" and ?st = "(cell s)\<lparr>wakers := wakers (cell s) @ [wk]\<rparr>"
    have "notify_inv \<lparr>cell = ?st, waits = (waits s)[i := Some ?w]\<rparr>"
      by (rule notify_inv_update) (use inv i True None in \<open>auto simp: registered_def\<close>)
    with True None that [of Pending ?w ?st] show ?thesis by (simp add: wait_poll_def)
  next
    case (Some old)
    let ?w = "w\<lparr>registered_waker := Some wk\<rparr>"
    have old: "old \<in> set (wakers (cell s))"
      using registered_mem inv i True Some by blast
    obtain st where st: "remove_waker w old (cell s) = (Ok st :: (_, 'e) outcome)"
      "generation st = generation (cell s)" "add_mset old (mset (wakers st)) = mset (wakers (cell s))"
      using remove_waker_present [OF _ old, of w, where 'e = 'e] True by metis
    let ?st = "st\<lparr>wakers := wakers st @ [wk]\<rparr>"
    have "notify_inv \<lparr>cell = cell s, waits = (waits s)[i := Some w]\<rparr>"
      by (rule notify_inv_update) (use inv i True in simp_all)
    moreover have "notify_inv \<lparr>cell = ?st, waits = (waits s)[i := Some ?w]\<rparr>"
      by (rule notify_inv_update) (use inv i True Some st in \<open>simp_all add: registered_def\<close>)
    moreover have "wait_poll wk w (cell s) =
        (if old = wk then Ok (Pending, w, cell s) else Ok (Pending, ?w, ?st) :: (_, 'e) outcome)"
      using True Some st(1) by (simp add: wait_poll_def)
    ultimately show ?thesis
      using that [of Pending w "cell s"] that [of Pending ?w ?st] True Some
      by (cases "old = wk") simp_all
  qed
qed

lemma wait_drop_ok:
  assumes inv: "notify_inv s" and i: "i < length (waits s)" "waits s ! i = Some w"
  obtains st where "wait_drop w (cell s) = (Ok st :: (_, 'e) outcome)"
    "notify_inv \<lparr>cell = st, waits = (waits s)[i := None]\<rparr>"
proof (cases "start_generation w = generation (cell s) \<and> registered_waker w \<noteq> None")
  case False
  have "notify_inv \<lparr>cell = cell s, waits = (waits s)[i := None]\<rparr>"
    by (rule notify_inv_update) (use inv i False in \<open>auto simp: registered_def\<close>)
  with False that [of "cell s"] show ?thesis
    by (auto simp: wait_drop_def remove_waker_def split: option.splits)
next
  case True
  then obtain wk where wk: "registered_waker w = Some wk" by auto
  have mem: "wk \<in> set (wakers (cell s))"
    using registered_mem inv i True wk by blast
  obtain st where st: "remove_waker w wk (cell s) = (Ok st :: (_, 'e) outcome)"
    "generation st = generation (cell s)" "add_mset wk (mset (wakers st)) = mset (wakers (cell s))"
    using remove_waker_present [OF _ mem, of w, where 'e = 'e] True by metis
  have "notify_inv \<lparr>cell = st, waits = (waits s)[i := None]\<rparr>"
    by (rule notify_inv_update) (use inv i True wk st in \<open>simp_all add: registered_def\<close>)
  with st wk that [of st] show ?thesis by (simp add: wait_drop_def)
qed

lemma Notify_notify_Ok:
  assumes "Notify_notify st = (Ok (st', wks) :: (_, 'e) outcome)"
  shows "generation st < generation st'" "wakers st' = []" "wks = wakers st"
proof -
  have add: "(wadd (generation st) 1 :: (_, 'e) outcome) = Ok (generation st')"
    using assms by (auto simp: Notify_notify_def result_simps)
  from unat_wadd [OF this] show "generation st < generation st'"
    by (simp add: word_less_nat_alt)
qed (use assms in \<open>auto simp: Notify_notify_def result_simps\<close>)

lemma notify_inv_notify:
  assumes inv: "notify_inv s" and n: "Notify_notify (cell s) = (Ok (st, wks) :: (_, 'e) outcome)"
  shows "notify_inv (s\<lparr>cell := st\<rparr>)"
proof -
  note ok = Notify_notify_Ok [OF n]
  have old: "start_generation w < generation st" if "Some w \<in> set (waits s)" for w
    using inv that ok(1) by (auto simp: notify_inv_def intro: le_less_trans)
  then have "registered (generation st) x = []" if "x \<in> set (waits s)" for x
    using that by (cases x) (fastforce simp: registered_def)+
  then show ?thesis
    using ok old by (auto simp: notify_inv_def intro: less_imp_le)
qed

lemma notify_step_inv: "notify_inv s \<Longrightarrow> notify_step s t \<Longrightarrow> notify_inv t"
proof (erule notify_stepE)
  assume "notify_inv s" "t = s\<lparr>waits := waits s @ [Some (Notify_wait (cell s))]\<rparr>"
  then show ?thesis by (auto simp: notify_inv_def Notify_wait_def registered_def)
next
  fix i w wk r w' st
  assume "notify_inv s" "i < length (waits s)" "waits s ! i = Some w"
    and p: "wait_poll wk w (cell s) = (Ok (r, w', st) :: (_, unit) outcome)"
    and t: "t = \<lparr>cell = st, waits = (waits s)[i := Some w']\<rparr>"
  from this(1-3) show ?thesis
    by (rule wait_poll_ok [where wk = wk and 'e = unit]) (simp add: p t)
next
  fix i w st
  assume "notify_inv s" "i < length (waits s)" "waits s ! i = Some w"
    and p: "wait_drop w (cell s) = (Ok st :: (_, unit) outcome)"
    and t: "t = \<lparr>cell = st, waits = (waits s)[i := None]\<rparr>"
  from this(1-3) show ?thesis
    by (rule wait_drop_ok [where 'e = unit]) (simp add: p t)
qed (use notify_inv_notify in blast)

interpretation ntf: step_system notify_init notify_step notify_inv
  by unfold_locales
    (simp add: notify_init_def notify_inv_def Notify_new_def, rule notify_step_inv)

section \<open>A concrete run\<close>

text \<open>One future is created and polled by task 7.\<close>

definition example_wait :: wait where
  "example_wait = \<lparr>start_generation = 0, registered_waker = Some 7\<rparr>"

definition example_sys :: notify_sys where
  "example_sys = \<lparr>cell = \<lparr>generation = 0, wakers = [7]\<rparr>, waits = [Some example_wait]\<rparr>"

lemma example_reachable: "reachable notify_init notify_step example_sys"
proof -
  let ?s0 = "\<lparr>cell = Notify_new, waits = []\<rparr>"
  let ?s1 = "?s0\<lparr>waits := [Some (Notify_wait Notify_new)]\<rparr>"
  have "reachable notify_init notify_step ?s0"
    by (rule reachable.start) (simp add: notify_init_def)
  moreover have "notify_step ?s0 ?s1"
    using notify_step.wait [of ?s0] by simp
  moreover have "notify_step ?s1 example_sys"
    using notify_step.poll [of 0 ?s1 "Notify_wait Notify_new" 7 Pending example_wait
        "\<lparr>generation = 0, wakers = [7]\<rparr>"]
    by (simp add: wait_poll_def Notify_wait_def Notify_new_def example_wait_def example_sys_def)
  ultimately show ?thesis by (blast intro: reachable.step)
qed

section \<open>Properties\<close>

text \<open>
  No wake-up is lost. In every reachable state a call of \<^verbatim>\<open>notify\<close> wakes the
  waker of every future that was polled and is still waiting, and after it each of these
  futures is ready; a future is ready exactly when a notification came after it was
  created.
\<close>

theorem notify_wakes_all:
  assumes "reachable notify_init notify_step s"
    and "Notify_notify (cell s) = (Ok (st, woken) :: (_, unit) outcome)"
    and "i < length (waits s)" and "waits s ! i = Some w"
  shows "(\<forall>wk. registered_waker w = Some wk \<and> start_generation w = generation (cell s)
            \<longrightarrow> wk \<in> set woken) \<and>
         (\<exists>w'. (wait_poll wk' w st :: (_, unit) outcome) = Ok (Ready, w', st))"
proof -
  have inv: "notify_inv s" by (rule ntf.reachable_inv [OF assms(1)])
  note ok = Notify_notify_Ok [OF assms(2)]
  have "start_generation w \<le> generation (cell s)"
    using inv nth_mem [OF assms(3)] assms(4) by (simp add: notify_inv_def)
  then have "start_generation w \<noteq> generation st" using ok(1) by auto
  then show ?thesis
    using registered_mem [OF inv assms(3,4)] ok(3) by (auto simp: wait_poll_def)
qed

theorem notify_wakes_all_witness:
  "7 \<in> set [7::waker] \<and>
   (\<exists>w'. (wait_poll 7 example_wait \<lparr>generation = 1, wakers = []\<rparr> :: (_, unit) outcome) =
     Ok (Ready, w', \<lparr>generation = 1, wakers = []\<rparr>))"
  using notify_wakes_all [OF example_reachable, of "\<lparr>generation = 1, wakers = []\<rparr>" "[7]" 0
      example_wait 7]
  by (simp add: example_sys_def example_wait_def Notify_notify_def wadd_def)

text \<open>
  The \<^verbatim>\<open>unwrap\<close> in \<^verbatim>\<open>remove_waker\<close> never fails: in every reachable state
  polling any live future with any waker and dropping any live future both return, and the
  poll is ready exactly when there was a notification since the future was created.
\<close>

theorem wait_never_panics:
  assumes "reachable notify_init notify_step s"
    and "i < length (waits s)" and "waits s ! i = Some w"
  shows "(\<exists>r w' st. (wait_poll wk w (cell s) :: (_, unit) outcome) = Ok (r, w', st) \<and>
            (r = Ready \<longleftrightarrow> start_generation w \<noteq> generation (cell s))) \<and>
         (\<exists>st. (wait_drop w (cell s) :: (_, unit) outcome) = Ok st)"
proof -
  have inv: "notify_inv s" by (rule ntf.reachable_inv [OF assms(1)])
  obtain r w' st where "(wait_poll wk w (cell s) :: (_, unit) outcome) = Ok (r, w', st)"
    "r = Ready \<longleftrightarrow> start_generation w \<noteq> generation (cell s)"
    by (rule wait_poll_ok [OF inv assms(2,3)])
  moreover obtain st' where "(wait_drop w (cell s) :: (_, unit) outcome) = Ok st'"
    by (rule wait_drop_ok [OF inv assms(2,3)])
  ultimately show ?thesis by blast
qed

theorem wait_never_panics_witness:
  "(\<exists>r w' st. (wait_poll 8 example_wait (cell example_sys) :: (_, unit) outcome) = Ok (r, w', st)) \<and>
   (\<exists>st. (wait_drop example_wait (cell example_sys) :: (_, unit) outcome) = Ok st)"
  using wait_never_panics [OF example_reachable, of 0 example_wait 8]
  by (auto simp: example_sys_def)

end
