(* ===== verification/File_Access.thy ===== *)
theory File_Access
  imports Prelude
begin

text \<open>
  Who may do what with a file: the mode bits and \<^verbatim>\<open>stat\<close> structure of
  \<^verbatim>\<open>user/process/syscall/args.rs\<close>, \<^verbatim>\<open>Ownership\<close> of \<^verbatim>\<open>fs/ownership.rs\<close> and
  \<^verbatim>\<open>FileAccessContext\<close> of \<^verbatim>\<open>fs/node.rs\<close>. The bit sets are the 64-bit words of the
  \<^verbatim>\<open>bitflags!\<close> macro; user and group identifiers are \<^verbatim>\<open>u32\<close>.
\<close>

section \<open>Flag sets\<close>

definition contains :: "u64 \<Rightarrow> u64 \<Rightarrow> bool" where
  "contains s f = (s AND f = f)"

definition intersects :: "u64 \<Rightarrow> u64 \<Rightarrow> bool" where
  "intersects s f = (s AND f \<noteq> 0)"

definition remove_flags :: "u64 \<Rightarrow> u64 \<Rightarrow> u64" where
  "remove_flags s f = s AND NOT f"

definition set_flags :: "u64 \<Rightarrow> u64 \<Rightarrow> bool \<Rightarrow> u64" where
  "set_flags s f b = (if b then s OR f else s AND NOT f)"

section \<open>File modes, file types and stat\<close>

definition OTHER_EXECUTE :: u64 where "OTHER_EXECUTE = 2 ^ 0"
definition OTHER_WRITE :: u64 where "OTHER_WRITE = 2 ^ 1"
definition OTHER_READ :: u64 where "OTHER_READ = 2 ^ 2"
definition GROUP_EXECUTE :: u64 where "GROUP_EXECUTE = 2 ^ 3"
definition GROUP_WRITE :: u64 where "GROUP_WRITE = 2 ^ 4"
definition GROUP_READ :: u64 where "GROUP_READ = 2 ^ 5"
definition OWNER_EXECUTE :: u64 where "OWNER_EXECUTE = 2 ^ 6"
definition OWNER_WRITE :: u64 where "OWNER_WRITE = 2 ^ 7"
definition OWNER_READ :: u64 where "OWNER_READ = 2 ^ 8"
definition STICKY :: u64 where "STICKY = 2 ^ 9"
definition SET_GROUP_ID :: u64 where "SET_GROUP_ID = 2 ^ 10"
definition SET_USER_ID :: u64 where "SET_USER_ID = 2 ^ 11"

text \<open>\<^verbatim>\<open>FileMode::ALL\<close> (octal 777) and every bit the type defines (octal 7777).\<close>

definition FileMode_ALL :: u64 where "FileMode_ALL = 0x1ff"
definition FileMode_all_bits :: u64 where "FileMode_all_bits = 0xfff"

definition FileMode_from_bits_truncate :: "u64 \<Rightarrow> u64" where
  "FileMode_from_bits_truncate w = w AND FileMode_all_bits"

datatype file_type = Unknown | Fifo | Char_Dev | Dir | Block | File | Link | Socket

fun file_type_code :: "file_type \<Rightarrow> u32" where
  "file_type_code Unknown = 0"
| "file_type_code Fifo = 1"
| "file_type_code Char_Dev = 2"
| "file_type_code Dir = 4"
| "file_type_code Block = 6"
| "file_type_code File = 8"
| "file_type_code Link = 10"
| "file_type_code Socket = 12"

text \<open>\<^verbatim>\<open>checked::cast\<close>: the bit patterns that are a \<^verbatim>\<open>FileType\<close>.\<close>

definition file_type_of_code :: "u32 \<Rightarrow> file_type option" where
  "file_type_of_code w =
     List.find (\<lambda>t. file_type_code t = w) [Unknown, Fifo, Char_Dev, Dir, Block, File, Link, Socket]"

definition FileTypeAndMode_new :: "file_type \<Rightarrow> u64 \<Rightarrow> u32" where
  "FileTypeAndMode_new ty mode = push_bit 12 (file_type_code ty) OR ucast mode"

definition FileTypeAndMode_ty :: "u32 \<Rightarrow> (file_type, 'e) outcome" where
  "FileTypeAndMode_ty tm = unwrap (file_type_of_code (drop_bit 12 tm))"

definition FileTypeAndMode_mode :: "u32 \<Rightarrow> u64" where
  "FileTypeAndMode_mode tm = FileMode_from_bits_truncate (ucast tm)"

record timespec =
  tv_sec :: int
  tv_nsec :: int

record stat =
  st_dev :: u64
  st_ino :: u64
  st_nlink :: nat
  st_mode :: u32
  st_uid :: u32
  st_gid :: u32
  st_rdev :: u64
  st_size :: int
  st_blksize :: int
  st_blocks :: int
  st_atime :: timespec
  st_mtime :: timespec
  st_ctime :: timespec

definition Timespec_ZERO :: timespec where
  "Timespec_ZERO = \<lparr>tv_sec = 0, tv_nsec = 0\<rparr>"

definition stat_major :: "stat \<Rightarrow> u16" where
  "stat_major st = ucast (drop_bit 8 (st_rdev st))"

definition stat_minor :: "stat \<Rightarrow> u8" where
  "stat_minor st = ucast (st_rdev st)"

section \<open>Users and groups\<close>

definition SUPER_USER :: u32 where "SUPER_USER = 0"
definition UNCHANGED :: u32 where "UNCHANGED = - 1"

text \<open>The fields of \<^verbatim>\<open>FileAccessContext\<close> that decisions are made on.\<close>

record file_access_context =
  symlink_recursion_limit :: u16
  filesystem_user_id :: u32
  filesystem_group_id :: u32
  supplementary_group_ids :: "u32 list"

definition root_context :: file_access_context where
  "root_context = \<lparr>symlink_recursion_limit = 16, filesystem_user_id = SUPER_USER,
     filesystem_group_id = SUPER_USER, supplementary_group_ids = []\<rparr>"

definition is_user :: "file_access_context \<Rightarrow> u32 \<Rightarrow> bool" where
  "is_user ctx uid \<longleftrightarrow> filesystem_user_id ctx = SUPER_USER \<or> filesystem_user_id ctx = uid"

definition is_in_group :: "file_access_context \<Rightarrow> u32 \<Rightarrow> bool" where
  "is_in_group ctx gid \<longleftrightarrow>
     filesystem_user_id ctx = SUPER_USER \<or> filesystem_group_id ctx = gid \<or>
     gid \<in> set (supplementary_group_ids ctx)"

definition follow_symlink :: "file_access_context \<Rightarrow> file_access_context result" where
  "follow_symlink ctx =
     (if symlink_recursion_limit ctx = 0 then Err Loop
      else Ok (ctx\<lparr>symlink_recursion_limit := symlink_recursion_limit ctx - 1\<rparr>))"

datatype permission = Read | Write | Execute

fun owner_bit :: "permission \<Rightarrow> u64" where
  "owner_bit Read = OWNER_READ"
| "owner_bit Write = OWNER_WRITE"
| "owner_bit Execute = OWNER_EXECUTE"

fun group_bit :: "permission \<Rightarrow> u64" where
  "group_bit Read = GROUP_READ"
| "group_bit Write = GROUP_WRITE"
| "group_bit Execute = GROUP_EXECUTE"

fun other_bit :: "permission \<Rightarrow> u64" where
  "other_bit Read = OTHER_READ"
| "other_bit Write = OTHER_WRITE"
| "other_bit Execute = OTHER_EXECUTE"

definition check_permissions :: "file_access_context \<Rightarrow> stat \<Rightarrow> permission \<Rightarrow> unit result" where
  "check_permissions ctx st perm =
     (if filesystem_user_id ctx = SUPER_USER then
        (if perm = Execute then
           ensure (intersects (FileTypeAndMode_mode (st_mode st))
                     (OWNER_EXECUTE OR GROUP_EXECUTE OR OTHER_EXECUTE)) Acces (Ok ())
         else Ok ())
      else
        let mode_bit =
          (if is_user ctx (st_uid st) then owner_bit perm
           else if is_in_group ctx (st_gid st) then group_bit perm
           else other_bit perm)
        in ensure (contains (FileTypeAndMode_mode (st_mode st)) mode_bit) Acces (Ok ()))"

section \<open>Flags for opening\<close>

definition OpenFlags_WRONLY :: u64 where "OpenFlags_WRONLY = 2 ^ 0"
definition OpenFlags_RDWR :: u64 where "OpenFlags_RDWR = 2 ^ 1"
definition OpenFlags_CREAT :: u64 where "OpenFlags_CREAT = 2 ^ 6"
definition OpenFlags_EXCL :: u64 where "OpenFlags_EXCL = 2 ^ 7"
definition OpenFlags_TRUNC :: u64 where "OpenFlags_TRUNC = 2 ^ 9"
definition OpenFlags_APPEND :: u64 where "OpenFlags_APPEND = 2 ^ 10"
definition OpenFlags_NONBLOCK :: u64 where "OpenFlags_NONBLOCK = 2 ^ 11"
definition OpenFlags_DIRECTORY :: u64 where "OpenFlags_DIRECTORY = 2 ^ 16"
definition OpenFlags_NOFOLLOW :: u64 where "OpenFlags_NOFOLLOW = 2 ^ 17"
definition OpenFlags_NOATIME :: u64 where "OpenFlags_NOATIME = 2 ^ 18"
definition OpenFlags_CLOEXEC :: u64 where "OpenFlags_CLOEXEC = 2 ^ 19"
definition OpenFlags_PATH :: u64 where "OpenFlags_PATH = 2 ^ 21"

section \<open>Ownership\<close>

record ownership =
  own_mode :: u64
  own_uid :: u32
  own_gid :: u32

definition Ownership_new :: "u64 \<Rightarrow> u32 \<Rightarrow> u32 \<Rightarrow> ownership" where
  "Ownership_new mode uid gid = \<lparr>own_mode = mode, own_uid = uid, own_gid = gid\<rparr>"

definition chmod :: "u64 \<Rightarrow> file_access_context \<Rightarrow> ownership \<Rightarrow> ownership result" where
  "chmod mode ctx own =
     ensure (is_user ctx (own_uid own)) Perm
       (let mode' = (if filesystem_user_id ctx \<noteq> SUPER_USER \<and> \<not> is_in_group ctx (own_gid own)
                     then remove_flags mode SET_GROUP_ID else mode)
        in Ok (own\<lparr>own_mode := mode'\<rparr>))"

definition chown :: "u32 \<Rightarrow> u32 \<Rightarrow> file_access_context \<Rightarrow> ownership \<Rightarrow> ownership result" where
  "chown uid gid ctx own =
     (let uid = (if uid = UNCHANGED then own_uid own else uid);
          gid = (if gid = UNCHANGED then own_gid own else gid)
      in ensure (is_user ctx (own_uid own)) Perm
          (ensure (is_user ctx uid) Perm
            (ensure (is_in_group ctx gid) Perm
              (Ok (own\<lparr>own_uid := uid, own_gid := gid\<rparr>)))))"

section \<open>Lemmas\<close>

lemma contains_exp: "n < 64 \<Longrightarrow> contains s (2 ^ n) \<longleftrightarrow> bit s n"
  by (auto simp: contains_def word_eq_iff_bits bit_simps)

lemma intersects_exp: "n < 64 \<Longrightarrow> intersects s (2 ^ n) \<longleftrightarrow> bit s n"
  by (auto simp: intersects_def word_eq_iff_bits bit_simps)

lemma intersects_or: "intersects s (f OR g) \<longleftrightarrow> intersects s f \<or> intersects s g"
  by (auto simp: intersects_def word_eq_iff_bits bit_simps)

lemmas mode_bit_defs =
  OTHER_EXECUTE_def OTHER_WRITE_def OTHER_READ_def GROUP_EXECUTE_def GROUP_WRITE_def
  GROUP_READ_def OWNER_EXECUTE_def OWNER_WRITE_def OWNER_READ_def STICKY_def SET_GROUP_ID_def
  SET_USER_ID_def

lemma all_bits_mask: "FileMode_all_bits = mask 12"
  by (simp add: FileMode_all_bits_def mask_eq_exp_minus_1)

lemma file_type_of_code_inverse [simp]: "file_type_of_code (file_type_code ty) = Some ty"
  by (cases ty) (simp_all add: file_type_of_code_def)

lemma file_type_code_bits: "bit (file_type_code ty) n \<Longrightarrow> n < 4"
proof -
  have "file_type_code ty = take_bit 4 (file_type_code ty)" by (cases ty) simp_all
  then show "bit (file_type_code ty) n \<Longrightarrow> n < 4" by (metis bit_take_bit_iff)
qed

lemma FileMode_bits:
  "FileMode_from_bits_truncate mode = mode \<Longrightarrow> bit mode n \<Longrightarrow> n < 12"
  by (metis FileMode_from_bits_truncate_def all_bits_mask bit_and_iff bit_mask_iff)

lemma FileTypeAndMode_ty_new:
  assumes "FileMode_from_bits_truncate mode = mode"
  shows "FileTypeAndMode_ty (FileTypeAndMode_new ty mode) = Ok ty"
proof -
  have "drop_bit 12 (FileTypeAndMode_new ty mode) = file_type_code ty"
    by (auto simp: FileTypeAndMode_new_def word_eq_iff_bits bit_simps
        dest: file_type_code_bits FileMode_bits [OF assms])
  then show ?thesis by (simp add: FileTypeAndMode_ty_def)
qed

lemma FileTypeAndMode_mode_new:
  assumes "FileMode_from_bits_truncate mode = mode"
  shows "FileTypeAndMode_mode (FileTypeAndMode_new ty mode) = mode"
  by (auto simp: FileTypeAndMode_mode_def FileTypeAndMode_new_def FileMode_from_bits_truncate_def
      all_bits_mask word_eq_iff_bits bit_simps dest: FileMode_bits [OF assms])

text \<open>The classical reading of the nine permission bits: three classes of three bits.\<close>

fun class_shift :: "file_access_context \<Rightarrow> stat \<Rightarrow> nat" where
  "class_shift ctx st =
     (if st_uid st = filesystem_user_id ctx then 6
      else if st_gid st = filesystem_group_id ctx \<or> st_gid st \<in> set (supplementary_group_ids ctx) then 3
      else 0)"

fun permission_bit :: "permission \<Rightarrow> nat" where
  "permission_bit Read = 2"
| "permission_bit Write = 1"
| "permission_bit Execute = 0"

definition granted :: "file_access_context \<Rightarrow> stat \<Rightarrow> permission \<Rightarrow> bool" where
  "granted ctx st perm \<longleftrightarrow>
     (if filesystem_user_id ctx = SUPER_USER
      then perm = Execute \<longrightarrow> bit (st_mode st) 0 \<or> bit (st_mode st) 3 \<or> bit (st_mode st) 6
      else bit (st_mode st) (class_shift ctx st + permission_bit perm))"

lemma bit_mode: "n < 12 \<Longrightarrow> bit (FileTypeAndMode_mode tm) n \<longleftrightarrow> bit tm n"
  by (simp add: FileTypeAndMode_mode_def FileMode_from_bits_truncate_def all_bits_mask bit_simps)

lemma contains_mode_bit:
  "contains m OTHER_EXECUTE \<longleftrightarrow> bit m 0" "contains m OTHER_WRITE \<longleftrightarrow> bit m 1"
  "contains m OTHER_READ \<longleftrightarrow> bit m 2" "contains m GROUP_EXECUTE \<longleftrightarrow> bit m 3"
  "contains m GROUP_WRITE \<longleftrightarrow> bit m 4" "contains m GROUP_READ \<longleftrightarrow> bit m 5"
  "contains m OWNER_EXECUTE \<longleftrightarrow> bit m 6" "contains m OWNER_WRITE \<longleftrightarrow> bit m 7"
  "contains m OWNER_READ \<longleftrightarrow> bit m 8"
  unfolding mode_bit_defs by (rule contains_exp, simp)+

lemma intersects_mode_bit:
  "intersects m OTHER_EXECUTE \<longleftrightarrow> bit m 0" "intersects m GROUP_EXECUTE \<longleftrightarrow> bit m 3"
  "intersects m OWNER_EXECUTE \<longleftrightarrow> bit m 6"
  unfolding mode_bit_defs by (rule intersects_exp, simp)+

section \<open>Properties\<close>

text \<open>
  C37. The permission check grants exactly what the nine mode bits say: the owner's bits
  decide for the owner, else the group's bits for a member of the group, else the others'
  bits, one class only; the super user reads and writes everything and executes what
  anyone may execute. A refusal is \<^verbatim>\<open>Acces\<close>, and the check never panics.
\<close>

theorem check_permissions_granted:
  "check_permissions ctx st perm = (if granted ctx st perm then Ok () else Err Acces)"
proof (cases "filesystem_user_id ctx = SUPER_USER")
  case True
  then show ?thesis
    by (auto simp: check_permissions_def granted_def ensure_def intersects_or intersects_mode_bit
        bit_mode)
next
  case False
  then show ?thesis
    by (cases perm)
      (auto simp: check_permissions_def granted_def ensure_def contains_mode_bit bit_mode
        is_user_def is_in_group_def numeral_2_eq_2)
qed

text \<open>
  C38. Ownership changes only with authority. A successful \<^verbatim>\<open>chown\<close> was made by the super
  user or by the file's owner, who can only keep the file and only give it to a group they
  are in; a refusal is \<^verbatim>\<open>Perm\<close>. A successful \<^verbatim>\<open>chmod\<close> was made by the super user or the
  owner, changes the mode only, and never leaves the set-group-id bit on a file of a group
  the caller is not in.
\<close>

theorem ownership_authority:
  "(case chown uid gid ctx own of
      Ok own' \<Rightarrow> is_user ctx (own_uid own) \<and> own_mode own' = own_mode own \<and>
        own_uid own' = (if uid = UNCHANGED then own_uid own else uid) \<and>
        own_gid own' = (if gid = UNCHANGED then own_gid own else gid) \<and>
        (filesystem_user_id ctx = SUPER_USER \<or>
           own_uid own = filesystem_user_id ctx \<and> own_uid own' = filesystem_user_id ctx \<and>
           own_gid own' \<in> insert (filesystem_group_id ctx) (set (supplementary_group_ids ctx)))
    | Err e \<Rightarrow> e = Perm
    | Panic \<Rightarrow> False) \<and>
   (case chmod mode ctx own of
      Ok own' \<Rightarrow> is_user ctx (own_uid own) \<and>
        own_uid own' = own_uid own \<and> own_gid own' = own_gid own \<and>
        (if is_in_group ctx (own_gid own) then own_mode own' = mode
         else own_mode own' = mode AND NOT SET_GROUP_ID \<and> \<not> bit (own_mode own') 10)
    | Err e \<Rightarrow> e = Perm \<and> \<not> is_user ctx (own_uid own)
    | Panic \<Rightarrow> False)"
proof -
  have "\<not> bit (mode AND NOT SET_GROUP_ID) 10"
    by (simp add: SET_GROUP_ID_def bit_simps del: power_numeral)
  then have "case chmod mode ctx own of
      Ok own' \<Rightarrow> is_user ctx (own_uid own) \<and>
        own_uid own' = own_uid own \<and> own_gid own' = own_gid own \<and>
        (if is_in_group ctx (own_gid own) then own_mode own' = mode
         else own_mode own' = mode AND NOT SET_GROUP_ID \<and> \<not> bit (own_mode own') 10)
    | Err e \<Rightarrow> e = Perm \<and> \<not> is_user ctx (own_uid own)
    | Panic \<Rightarrow> False"
    by (auto simp: chmod_def ensure_def remove_flags_def is_in_group_def Let_def)
  moreover have "case chown uid gid ctx own of
      Ok own' \<Rightarrow> is_user ctx (own_uid own) \<and> own_mode own' = own_mode own \<and>
        own_uid own' = (if uid = UNCHANGED then own_uid own else uid) \<and>
        own_gid own' = (if gid = UNCHANGED then own_gid own else gid) \<and>
        (filesystem_user_id ctx = SUPER_USER \<or>
           own_uid own = filesystem_user_id ctx \<and> own_uid own' = filesystem_user_id ctx \<and>
           own_gid own' \<in> insert (filesystem_group_id ctx) (set (supplementary_group_ids ctx)))
    | Err e \<Rightarrow> e = Perm
    | Panic \<Rightarrow> False"
    by (auto simp: chown_def ensure_def is_user_def is_in_group_def Let_def)
  ultimately show ?thesis by blast
qed

end
