(* ===== verification/File_Lock.thy ===== *)
theory File_Lock
  imports Notify File_Access
begin

text \<open>
  Advisory file locks (\<^verbatim>\<open>tee/kernel/src/fs/fd.rs\<close>): a record shared by all open
  files of one inode, and a lock per open file description. The counter of the record is
  changed by single atomic operations, so the calls of several tasks interleave between
  them; \<open>flock_step\<close> has one step per atomic operation. A lock's own state is only read
  and written under its mutex, and is therefore updated together with the counter.
\<close>

section \<open>The record and the lock\<close>

record file_lock_record =
  counter :: int
  notify :: notify

definition FileLockRecord_new :: file_lock_record where
  "FileLockRecord_new = \<lparr>counter = 0, notify = Notify_new\<rparr>"

datatype file_lock_state = Unlocked | Shared | Exclusive

text \<open>The counter is an \<^verbatim>\<open>i64\<close>: adding to its maximum overflows.\<close>

definition i64_max :: int where
  "i64_max = 2 ^ 63 - 1"

text \<open>The two atomic acquisitions: \<^verbatim>\<open>fetch_update\<close> and \<^verbatim>\<open>compare_exchange\<close>. The
  closure of the first computes \<^verbatim>\<open>value + 1\<close> before it looks at the sign.\<close>

definition acquire_shared :: "file_lock_record \<Rightarrow> (file_lock_record option, 'e) outcome" where
  "acquire_shared r =
     (if counter r = i64_max then Panic
      else Ok (if 0 \<le> counter r then Some (r\<lparr>counter := counter r + 1\<rparr>) else None))"

definition acquire_exclusive :: "file_lock_record \<Rightarrow> file_lock_record option" where
  "acquire_exclusive r = (if counter r = 0 then Some (r\<lparr>counter := -1\<rparr>) else None)"

text \<open>The counter part of \<^verbatim>\<open>unlock_internal\<close>, and whether a notification follows.\<close>

definition release :: "file_lock_state \<Rightarrow> file_lock_record \<Rightarrow> bool \<times> file_lock_record" where
  "release st r =
     (case st of
        Unlocked \<Rightarrow> (False, r)
      | Shared \<Rightarrow> (counter r = 1, r\<lparr>counter := counter r - 1\<rparr>)
      | Exclusive \<Rightarrow> (True, r\<lparr>counter := 0\<rparr>))"

definition notify_record :: "file_lock_record \<Rightarrow> (file_lock_record, 'e) outcome" where
  "notify_record r = rbind (Notify_notify (notify r)) (\<lambda>(n, wks). Ok (r\<lparr>notify := n\<rparr>))"

definition unlock_internal ::
  "file_lock_state \<Rightarrow> file_lock_record \<Rightarrow> (file_lock_state \<times> file_lock_record, 'e) outcome" where
  "unlock_internal st r =
     (case release st r of (wake, r') \<Rightarrow>
        if wake then rmap (\<lambda>r. (Unlocked, r)) (notify_record r') else Ok (Unlocked, r'))"

definition unlock ::
  "file_lock_state \<Rightarrow> file_lock_record \<Rightarrow> (file_lock_state \<times> file_lock_record, 'e) outcome" where
  "unlock st r = unlock_internal st r"

definition file_lock_drop :: "file_lock_state \<Rightarrow> file_lock_record \<Rightarrow> (file_lock_record, 'e) outcome" where
  "file_lock_drop st r = rmap snd (unlock st r)"

text \<open>One round of the loop in \<^verbatim>\<open>lock_shared\<close> and \<^verbatim>\<open>lock_exclusive\<close>: the lock
  is taken, or the call returns \<open>Again\<close>, or it awaits the notification it subscribed to
  at the start of the round and then goes round again.\<close>

datatype lock_round = Acquired | Await wait

definition wait_handle :: "bool \<Rightarrow> file_lock_record \<Rightarrow> wait option" where
  "wait_handle non_blocking r = (if non_blocking then Some (Notify_wait (notify r)) else None)"

definition lock_shared ::
  "bool \<Rightarrow> file_lock_state \<Rightarrow> file_lock_record \<Rightarrow> (lock_round \<times> file_lock_state \<times> file_lock_record) result" where
  "lock_shared non_blocking st r =
     (let w = wait_handle non_blocking r in
      rbind (unlock_internal st r) (\<lambda>(st', r').
      rbind (acquire_shared r') (\<lambda>res.
        case res of
          Some r'' \<Rightarrow> Ok (Acquired, Shared, r'')
        | None \<Rightarrow> rmap (\<lambda>w. (Await w, st', r')) (ok_or w Again))))"

definition lock_exclusive ::
  "bool \<Rightarrow> file_lock_state \<Rightarrow> file_lock_record \<Rightarrow> (lock_round \<times> file_lock_state \<times> file_lock_record) result" where
  "lock_exclusive non_blocking st r =
     (let w = wait_handle non_blocking r in
      rbind (unlock_internal st r) (\<lambda>(st', r').
        case acquire_exclusive r' of
          Some r'' \<Rightarrow> Ok (Acquired, Exclusive, r'')
        | None \<Rightarrow> rmap (\<lambda>w. (Await w, st', r')) (ok_or w Again)))"

text \<open>The system call \<^verbatim>\<open>flock\<close>; \<open>file_lock\<close> is what looking up the descriptor and
  its lock returns.\<close>

definition FLockOp_SH :: u64 where "FLockOp_SH = 1"
definition FLockOp_EX :: u64 where "FLockOp_EX = 2"
definition FLockOp_NB :: u64 where "FLockOp_NB = 4"
definition FLockOp_UN :: u64 where "FLockOp_UN = 8"

definition flock ::
  "u64 \<Rightarrow> (file_lock_state \<times> file_lock_record) result \<Rightarrow>
   (lock_round \<times> file_lock_state \<times> file_lock_record) result" where
  "flock op file_lock =
     (let sh = contains op FLockOp_SH; ex = contains op FLockOp_EX; un = contains op FLockOp_UN;
          nb = contains op FLockOp_NB in
      ensure (of_bool sh + of_bool ex + of_bool un = (1::nat)) Inval
        (rbind file_lock (\<lambda>(st, r).
           if sh then lock_shared nb st r
           else if ex then lock_exclusive nb st r
           else rmap (\<lambda>(st', r'). (Acquired, st', r')) (unlock st r))))"

section \<open>Interleaved calls\<close>

datatype lock_kind = Sh | Ex

text \<open>Where the call a task makes on its lock stands: before the release, between the
  release and the notification it owes, before the acquisition, or awaiting.\<close>

datatype lock_pc =
    Idle
  | Start "(lock_kind \<times> wait option) option"
  | Notifying "(lock_kind \<times> wait option) option"
  | Try lock_kind "wait option"
  | Waiting lock_kind wait

record flock_sys =
  shared :: file_lock_record
  locks :: "(file_lock_state \<times> lock_pc) list"

definition resume :: "(lock_kind \<times> wait option) option \<Rightarrow> lock_pc" where
  "resume k = (case k of None \<Rightarrow> Idle | Some (kind, w) \<Rightarrow> Try kind w)"

definition state_of_kind :: "lock_kind \<Rightarrow> file_lock_state" where
  "state_of_kind k = (case k of Sh \<Rightarrow> Shared | Ex \<Rightarrow> Exclusive)"

definition acquire :: "lock_kind \<Rightarrow> file_lock_record \<Rightarrow> (file_lock_record option, unit) outcome" where
  "acquire k r = (case k of Sh \<Rightarrow> acquire_shared r | Ex \<Rightarrow> Ok (acquire_exclusive r))"

inductive flock_step :: "flock_sys \<Rightarrow> flock_sys \<Rightarrow> bool" where
  open_file: "flock_step s (s\<lparr>locks := locks s @ [(Unlocked, Idle)]\<rparr>)"
| call_lock: "i < length (locks s) \<Longrightarrow> locks s ! i = (st, Idle) \<Longrightarrow>
    flock_step s (s\<lparr>locks := (locks s)[i := (st, Start (Some (k, wait_handle nb (shared s))))]\<rparr>)"
| call_unlock: "i < length (locks s) \<Longrightarrow> locks s ! i = (st, Idle) \<Longrightarrow>
    flock_step s (s\<lparr>locks := (locks s)[i := (st, Start None)]\<rparr>)"
| release: "i < length (locks s) \<Longrightarrow> locks s ! i = (st, Start c) \<Longrightarrow>
    release st (shared s) = (wake, r) \<Longrightarrow>
    flock_step s \<lparr>shared = r,
      locks = (locks s)[i := (Unlocked, if wake then Notifying c else resume c)]\<rparr>"
| notify: "i < length (locks s) \<Longrightarrow> locks s ! i = (st, Notifying c) \<Longrightarrow>
    notify_record (shared s) = (Ok r :: (_, unit) outcome) \<Longrightarrow>
    flock_step s \<lparr>shared = r, locks = (locks s)[i := (st, resume c)]\<rparr>"
| acquired: "i < length (locks s) \<Longrightarrow> locks s ! i = (st, Try k w) \<Longrightarrow>
    acquire k (shared s) = Ok (Some r) \<Longrightarrow>
    flock_step s \<lparr>shared = r, locks = (locks s)[i := (state_of_kind k, Idle)]\<rparr>"
| refused: "i < length (locks s) \<Longrightarrow> locks s ! i = (st, Try k w) \<Longrightarrow>
    acquire k (shared s) = Ok None \<Longrightarrow>
    flock_step s (s\<lparr>locks := (locks s)[i := (st, case w of None \<Rightarrow> Idle | Some w \<Rightarrow> Waiting k w)]\<rparr>)"
| woken: "i < length (locks s) \<Longrightarrow> locks s ! i = (st, Waiting k w) \<Longrightarrow>
    generation (notify (shared s)) \<noteq> start_generation w \<Longrightarrow>
    flock_step s (s\<lparr>locks := (locks s)[i := (st, Start (Some (k, wait_handle True (shared s))))]\<rparr>)"

definition flock_init :: "flock_sys \<Rightarrow> bool" where
  "flock_init s = (s = \<lparr>shared = FileLockRecord_new, locks = []\<rparr>)"

definition holders :: "file_lock_state \<Rightarrow> flock_sys \<Rightarrow> nat" where
  "holders st s = length (filter (\<lambda>(st', _). st' = st) (locks s))"

text \<open>The counter counts the holders.\<close>

definition counter_inv :: "flock_sys \<Rightarrow> bool" where
  "counter_inv s =
     ((holders Exclusive s = 0 \<and> counter (shared s) = int (holders Shared s)) \<or>
      (holders Exclusive s = 1 \<and> holders Shared s = 0 \<and> counter (shared s) = -1))"

fun pc_wait :: "lock_pc \<Rightarrow> wait option" where
  "pc_wait Idle = None"
| "pc_wait (Start c) = Option.bind c snd"
| "pc_wait (Notifying c) = Option.bind c snd"
| "pc_wait (Try k w) = w"
| "pc_wait (Waiting k w) = Some w"

definition holds_state :: "lock_pc \<Rightarrow> bool" where
  "holds_state pc = (case pc of Idle \<Rightarrow> True | Start c \<Rightarrow> True | _ \<Rightarrow> False)"

definition pc_inv :: "flock_sys \<Rightarrow> bool" where
  "pc_inv s =
     (\<forall>(st, pc) \<in> set (locks s). (\<not> holds_state pc \<longrightarrow> st = Unlocked) \<and>
        (\<forall>w. pc_wait pc = Some w \<longrightarrow> start_generation w \<le> generation (notify (shared s))))"

definition notifier :: "flock_sys \<Rightarrow> bool" where
  "notifier s = (\<exists>(st, pc) \<in> set (locks s). \<exists>c. pc = Notifying c)"

definition blocked :: "lock_kind \<Rightarrow> file_lock_record \<Rightarrow> bool" where
  "blocked k r = (case k of Sh \<Rightarrow> counter r = -1 | Ex \<Rightarrow> counter r \<noteq> 0)"

text \<open>A task that waits and is not yet woken is waiting for a lock it could not take now,
  or a notification is on its way.\<close>

definition waiter_inv :: "flock_sys \<Rightarrow> bool" where
  "waiter_inv s =
     (\<forall>(st, pc) \<in> set (locks s). \<forall>k w. pc = Waiting k w \<longrightarrow>
        start_generation w \<noteq> generation (notify (shared s)) \<or> notifier s \<or> blocked k (shared s))"

definition flock_inv :: "flock_sys \<Rightarrow> bool" where
  "flock_inv s = (counter_inv s \<and> pc_inv s \<and> waiter_inv s)"

subsection \<open>Lists of locks\<close>

lemma length_filter_update:
  "i < length xs \<Longrightarrow>
   length (filter P (xs[i := y])) + (if P (xs ! i) then 1 else 0) =
   length (filter P xs) + (if P y then 1 else 0)"
proof (induction xs arbitrary: i)
  case (Cons a xs)
  show ?case
  proof (cases i)
    case (Suc j)
    with Cons.prems Cons.IH [of j] show ?thesis by simp
  qed simp
qed simp

lemma holders_update:
  assumes "i < length (locks s)" "locks s ! i = (st, pc)"
  shows "holders x \<lparr>shared = r, locks = (locks s)[i := (st', pc')]\<rparr> + (if st = x then 1 else 0) =
    holders x s + (if st' = x then 1 else 0)"
  using length_filter_update [OF assms(1), of "\<lambda>(st', _). st' = x" "(st', pc')"] assms(2)
  by (simp add: holders_def)

lemma update_keeps: "x \<in> set xs \<Longrightarrow> x \<noteq> xs ! i \<Longrightarrow> x \<in> set (xs[i := y])"
  by (metis in_set_conv_nth length_list_update nth_list_update_neq)

lemma notifier_update:
  assumes "notifier s" "\<And>c. pc \<noteq> Notifying c" "locks s ! i = (st, pc)"
  shows "notifier \<lparr>shared = r, locks = (locks s)[i := y]\<rparr>"
proof -
  from assms(1) obtain x c where "(x, Notifying c) \<in> set (locks s)" by (auto simp: notifier_def)
  moreover have "(x, Notifying c) \<noteq> locks s ! i" using assms(2,3) by auto
  ultimately have "(x, Notifying c) \<in> set ((locks s)[i := y])" by (rule update_keeps)
  then show ?thesis by (auto simp: notifier_def)
qed

text \<open>A step of one lock keeps the invariant when the counter follows its state and the
  others who wait are still blocked or about to be notified.\<close>

lemma flock_inv_update:
  assumes inv: "flock_inv s" and i: "i < length (locks s)" "locks s ! i = (st, pc)"
    and cnt: "counter_inv \<lparr>shared = r, locks = (locks s)[i := (st', pc')]\<rparr>"
    and st: "\<not> holds_state pc' \<Longrightarrow> st' = Unlocked"
    and gen: "generation (notify (shared s)) \<le> generation (notify r)"
    and w: "\<And>w. pc_wait pc' = Some w \<Longrightarrow> start_generation w \<le> generation (notify r)"
    and own: "\<And>k w. pc' = Waiting k w \<Longrightarrow> blocked k r"
    and others: "\<And>k w. generation (notify (shared s)) = generation (notify r) \<Longrightarrow>
      notifier s \<or> blocked k (shared s) \<Longrightarrow>
      notifier \<lparr>shared = r, locks = (locks s)[i := (st', pc')]\<rparr> \<or> blocked k r"
  shows "flock_inv \<lparr>shared = r, locks = (locks s)[i := (st', pc')]\<rparr>" (is "flock_inv ?t")
proof -
  have "pc_inv ?t"
    unfolding pc_inv_def using inv st gen w
    by (auto dest!: in_set_update simp: flock_inv_def pc_inv_def intro: order_trans)
  moreover have "notifier ?t" if t: "(x, Waiting k w) \<in> set ((locks s)[i := (st', pc')])"
    and eq: "start_generation w = generation (notify r)" and nb: "\<not> blocked k r" for x k w
  proof -
    from in_set_update [OF t] own nb have mem: "(x, Waiting k w) \<in> set (locks s)" by auto
    with inv eq have "generation (notify r) \<le> generation (notify (shared s))"
      by (fastforce simp: flock_inv_def pc_inv_def)
    with gen have same: "generation (notify (shared s)) = generation (notify r)" by simp
    moreover have "notifier s \<or> blocked k (shared s)"
      using inv mem eq same by (fastforce simp: flock_inv_def waiter_inv_def)
    ultimately show "notifier ?t" using others nb by blast
  qed
  then have "waiter_inv ?t" by (fastforce simp: waiter_inv_def)
  ultimately show ?thesis using cnt by (simp add: flock_inv_def)
qed

subsection \<open>Every step keeps the invariant\<close>

lemma notify_record_Ok:
  assumes "notify_record r = (Ok r' :: (_, 'e) outcome)"
  shows "counter r' = counter r" "generation (notify r) < generation (notify r')"
proof -
  from assms obtain n wks where
    n: "Notify_notify (notify r) = (Ok (n, wks) :: (_, 'e) outcome)" and r': "r' = r\<lparr>notify := n\<rparr>"
    by (auto simp: notify_record_def result_simps)
  from Notify_notify_Ok [OF n] r' show "counter r' = counter r"
    "generation (notify r) < generation (notify r')" by simp_all
qed

lemma counter_inv_same:
  assumes "counter_inv s" "i < length (locks s)" "locks s ! i = (st, pc)" "counter r = counter (shared s)"
  shows "counter_inv \<lparr>shared = r, locks = (locks s)[i := (st, pc')]\<rparr>"
  using assms holders_update [OF assms(2,3), of _ r st pc'] by (simp add: counter_inv_def)

lemma counter_inv_release:
  assumes "counter_inv s" "i < length (locks s)" "locks s ! i = (st, pc)"
    "release st (shared s) = (wake, r)"
  shows "counter_inv \<lparr>shared = r, locks = (locks s)[i := (Unlocked, pc')]\<rparr>"
    and "\<not> wake \<Longrightarrow> blocked k (shared s) \<Longrightarrow> blocked k r"
    and "notify r = notify (shared s)"
proof -
  note h = holders_update [OF assms(2,3), of _ r Unlocked pc']
  show "counter_inv \<lparr>shared = r, locks = (locks s)[i := (Unlocked, pc')]\<rparr>"
    using assms(1,4) h [of Shared] h [of Exclusive]
    by (cases st) (auto simp: counter_inv_def release_def)
  show "\<not> wake \<Longrightarrow> blocked k (shared s) \<Longrightarrow> blocked k r"
    using assms(1,4) h [of Shared]
    by (cases st; cases k) (auto simp: counter_inv_def release_def blocked_def)
  show "notify r = notify (shared s)"
    using assms(4) by (cases st) (auto simp: release_def)
qed

lemma counter_inv_acquired:
  assumes "counter_inv s" "i < length (locks s)" "locks s ! i = (Unlocked, pc)"
    "acquire k (shared s) = Ok (Some r)"
  shows "counter_inv \<lparr>shared = r, locks = (locks s)[i := (state_of_kind k, pc')]\<rparr>"
    and "blocked k' (shared s) \<Longrightarrow> blocked k' r"
    and "notify r = notify (shared s)"
proof -
  note h = holders_update [OF assms(2,3), of _ r "state_of_kind k" pc']
  note defs = acquire_def acquire_shared_def acquire_exclusive_def state_of_kind_def
  show "counter_inv \<lparr>shared = r, locks = (locks s)[i := (state_of_kind k, pc')]\<rparr>"
    using assms(1,4) h [of Shared] h [of Exclusive]
    by (cases k) (auto simp: counter_inv_def defs split: if_splits)
  show "blocked k' (shared s) \<Longrightarrow> blocked k' r"
    using assms(4) by (cases k; cases k') (auto simp: blocked_def defs split: if_splits)
  show "notify r = notify (shared s)"
    using assms(4) by (cases k) (auto simp: defs split: if_splits)
qed

lemma refused_blocked: "counter_inv s \<Longrightarrow> acquire k (shared s) = Ok None \<Longrightarrow> blocked k (shared s)"
  by (cases k) (auto simp: acquire_def acquire_shared_def acquire_exclusive_def blocked_def
      counter_inv_def split: if_splits)

lemma pc_invD:
  assumes "flock_inv s" "i < length (locks s)" "locks s ! i = (st, pc)"
  shows "\<not> holds_state pc \<Longrightarrow> st = Unlocked"
    and "pc_wait pc = Some w \<Longrightarrow> start_generation w \<le> generation (notify (shared s))"
  using assms nth_mem [OF assms(2)] by (auto simp: flock_inv_def pc_inv_def)

lemma resume_simps:
  "resume c \<noteq> Waiting k w" "holds_state (resume c) \<or> \<not> holds_state (resume c)"
  "pc_wait (resume c) = Option.bind c snd"
  by (auto simp: resume_def split: option.splits)

lemma update_shared: "s\<lparr>locks := ls\<rparr> = \<lparr>shared = shared s, locks = ls\<rparr>"
  by simp

lemma flock_step_inv: "flock_inv s \<Longrightarrow> flock_step s t \<Longrightarrow> flock_inv t"
proof (rotate_tac, induction rule: flock_step.induct)
  case (open_file s)
  then show ?case
    by (auto simp: flock_inv_def counter_inv_def holders_def pc_inv_def waiter_inv_def notifier_def)
next
  case (call_lock i s st k nb)
  note keep = notifier_update [OF _ _ call_lock.hyps(2), simplified]
  show ?case unfolding update_shared
    by (rule flock_inv_update [OF call_lock.prems call_lock.hyps])
      (use call_lock in \<open>auto simp: flock_inv_def holds_state_def wait_handle_def Notify_wait_def
        intro: keep intro!: counter_inv_same split: if_splits\<close>)
next
  case (call_unlock i s st)
  note keep = notifier_update [OF _ _ call_unlock.hyps(2), simplified]
  show ?case unfolding update_shared
    by (rule flock_inv_update [OF call_unlock.prems call_unlock.hyps])
      (use call_unlock in \<open>auto simp: flock_inv_def holds_state_def
        intro: keep intro!: counter_inv_same\<close>)
next
  case (release i s st c wake r)
  note keep = notifier_update [OF _ _ release.hyps(2), simplified]
  have cnt: "counter_inv s" using release.prems by (simp add: flock_inv_def)
  note rel = counter_inv_release [OF cnt release.hyps]
  have n: "notifier \<lparr>shared = r, locks = (locks s)[i := (Unlocked, Notifying c)]\<rparr>"
    using set_update_memI [OF release.hyps(1), of "(Unlocked, Notifying c)"]
    unfolding notifier_def by auto
  have w: "Option.bind c snd = Some w \<Longrightarrow> start_generation w \<le> generation (notify r)" for w
    using pc_invD(2) [OF release.prems release.hyps(1,2)] rel(3) by simp
  show ?case
  proof (rule flock_inv_update [OF release.prems release.hyps(1,2) rel(1)])
    fix k assume "notifier s \<or> blocked k (shared s)"
    then show "notifier \<lparr>shared = r, locks = (locks s)[i := (Unlocked, if wake then Notifying c
        else resume c)]\<rparr> \<or> blocked k r"
      using n keep rel(2) by (cases wake) auto
  qed (use rel(3) w in \<open>auto simp: resume_simps split: if_splits\<close>)
next
  case (notify i s st c r)
  note ok = notify_record_Ok [OF notify.hyps(3)]
  show ?case
    by (rule flock_inv_update [OF notify.prems notify.hyps(1,2)])
      (use notify ok pc_invD [OF notify.prems notify.hyps(1,2)] in
        \<open>auto simp: resume_simps flock_inv_def holds_state_def intro!: counter_inv_same\<close>)
next
  case (acquired i s st k w r)
  note keep = notifier_update [OF _ _ acquired.hyps(2), simplified]
  have cnt: "counter_inv s" using acquired.prems by (simp add: flock_inv_def)
  have st: "st = Unlocked"
    using pc_invD(1) [OF acquired.prems acquired.hyps(1,2)] by (simp add: holds_state_def)
  note acq = counter_inv_acquired [OF cnt acquired.hyps(1) acquired.hyps(2) [unfolded st] acquired.hyps(3)]
  show ?case
    by (rule flock_inv_update [OF acquired.prems acquired.hyps(1,2)])
      (use acq acquired in \<open>auto simp: holds_state_def intro: keep\<close>)
next
  case (refused i s st k w)
  note keep = notifier_update [OF _ _ refused.hyps(2), simplified]
  have cnt: "counter_inv s" using refused.prems by (simp add: flock_inv_def)
  show ?case unfolding update_shared
    by (rule flock_inv_update [OF refused.prems refused.hyps(1,2)])
      (use cnt refused refused_blocked [OF cnt refused.hyps(3)]
          pc_invD [OF refused.prems refused.hyps(1,2)] in
        \<open>auto simp: holds_state_def intro: keep intro!: counter_inv_same split: option.splits\<close>)
next
  case (woken i s st k w)
  note keep = notifier_update [OF _ _ woken.hyps(2), simplified]
  show ?case unfolding update_shared
    by (rule flock_inv_update [OF woken.prems woken.hyps(1,2)])
      (use woken in \<open>auto simp: flock_inv_def holds_state_def wait_handle_def Notify_wait_def
        intro: keep intro!: counter_inv_same split: if_splits\<close>)
qed

interpretation flk: step_system flock_init flock_step flock_inv
  by unfold_locales
    (simp add: flock_init_def flock_inv_def counter_inv_def holders_def pc_inv_def waiter_inv_def
      FileLockRecord_new_def, rule flock_step_inv)




section \<open>A concrete run\<close>

text \<open>Two open files: the first takes the lock, the second asks for it and waits, the first
  lets it go.\<close>

definition flock_at :: "int \<Rightarrow> u64 \<Rightarrow> (file_lock_state \<times> lock_pc) list \<Rightarrow> flock_sys" where
  "flock_at c g ls = \<lparr>shared = \<lparr>counter = c, notify = \<lparr>generation = g, wakers = []\<rparr>\<rparr>, locks = ls\<rparr>"

definition example_ticket :: wait where
  "example_ticket = \<lparr>start_generation = 0, registered_waker = None\<rparr>"

lemmas flock_example_simps = flock_at_def release_def resume_def acquire_def acquire_exclusive_def
  wait_handle_def Notify_wait_def state_of_kind_def notify_record_def Notify_notify_def wadd_def
  example_ticket_def

lemma flock_example_exclusive:
  "reachable flock_init flock_step (flock_at (-1) 0 [(Exclusive, Idle), (Unlocked, Idle)])"
proof -
  let ?s0 = "flock_at 0 0 []" and ?s1 = "flock_at 0 0 [(Unlocked, Idle)]"
  let ?s2 = "flock_at 0 0 [(Unlocked, Idle), (Unlocked, Idle)]"
  let ?s3 = "flock_at 0 0 [(Unlocked, Start (Some (Ex, None))), (Unlocked, Idle)]"
  let ?s4 = "flock_at 0 0 [(Unlocked, Try Ex None), (Unlocked, Idle)]"
  let ?s5 = "flock_at (-1) 0 [(Exclusive, Idle), (Unlocked, Idle)]"
  have s0: "flock_init ?s0"
    by (simp add: flock_init_def flock_at_def FileLockRecord_new_def Notify_new_def)
  have s1: "flock_step ?s0 ?s1" and s2: "flock_step ?s1 ?s2"
    using flock_step.open_file [of ?s0] flock_step.open_file [of ?s1] by (simp_all add: flock_at_def)
  have s3: "flock_step ?s2 ?s3"
    using flock_step.call_lock [of 0 ?s2 Unlocked Ex False] by (simp add: flock_example_simps)
  have s4: "flock_step ?s3 ?s4"
    using flock_step.release [of 0 ?s3 Unlocked "Some (Ex, None)" False "shared ?s3"]
    by (simp add: flock_example_simps)
  have s5: "flock_step ?s4 ?s5"
    using flock_step.acquired [of 0 ?s4 Unlocked Ex None "shared ?s5"]
    by (simp add: flock_example_simps)
  have r0: "reachable flock_init flock_step ?s0" using s0 by (rule reachable.start)
  note r2 = reachable.step [OF reachable.step [OF r0 s1] s2]
  show ?thesis by (rule reachable.step [OF reachable.step [OF reachable.step [OF r2 s3] s4] s5])
qed

lemma flock_example_woken:
  "reachable flock_init flock_step
     (flock_at 0 1 [(Unlocked, Idle), (Unlocked, Waiting Ex example_ticket)])"
proof -
  let ?w = example_ticket
  let ?s5 = "flock_at (-1) 0 [(Exclusive, Idle), (Unlocked, Idle)]"
  let ?s6 = "flock_at (-1) 0 [(Exclusive, Idle), (Unlocked, Start (Some (Ex, Some ?w)))]"
  let ?s7 = "flock_at (-1) 0 [(Exclusive, Idle), (Unlocked, Try Ex (Some ?w))]"
  let ?s8 = "flock_at (-1) 0 [(Exclusive, Idle), (Unlocked, Waiting Ex ?w)]"
  let ?s9 = "flock_at (-1) 0 [(Exclusive, Start None), (Unlocked, Waiting Ex ?w)]"
  let ?s10 = "flock_at 0 0 [(Unlocked, Notifying None), (Unlocked, Waiting Ex ?w)]"
  let ?s11 = "flock_at 0 1 [(Unlocked, Idle), (Unlocked, Waiting Ex ?w)]"
  have s6: "flock_step ?s5 ?s6"
    using flock_step.call_lock [of 1 ?s5 Unlocked Ex True] by (simp add: flock_example_simps)
  have s7: "flock_step ?s6 ?s7"
    using flock_step.release [of 1 ?s6 Unlocked "Some (Ex, Some ?w)" False "shared ?s6"]
    by (simp add: flock_example_simps)
  have s8: "flock_step ?s7 ?s8"
    using flock_step.refused [of 1 ?s7 Unlocked Ex "Some ?w"] by (simp add: flock_example_simps)
  have s9: "flock_step ?s8 ?s9"
    using flock_step.call_unlock [of 0 ?s8 Exclusive] by (simp add: flock_example_simps)
  have s10: "flock_step ?s9 ?s10"
    using flock_step.release [of 0 ?s9 Exclusive None True "shared ?s10"]
    by (simp add: flock_example_simps)
  have s11: "flock_step ?s10 ?s11"
    using flock_step.notify [of 0 ?s10 Unlocked None "shared ?s11"]
    by (simp add: flock_example_simps)
  note r8 = reachable.step [OF reachable.step [OF reachable.step [OF flock_example_exclusive s6] s7] s8]
  show ?thesis by (rule reachable.step [OF reachable.step [OF reachable.step [OF r8 s9] s10] s11])
qed

section \<open>Properties\<close>



text \<open>
  C34. No task that waits for a lock sleeps through its release: if the lock it wants could
  be acquired now and no release is still about to notify, the notification it subscribed
  to has already come, so its next poll returns.
\<close>

theorem flock_no_lost_wakeup:
  assumes "reachable flock_init flock_step s"
    and "i < length (locks s)" and "locks s ! i = (st, Waiting k w)"
    and "acquire k (shared s) = Ok (Some r)" and "\<not> notifier s"
  shows "generation (notify (shared s)) \<noteq> start_generation w"
proof -
  have inv: "flock_inv s" by (rule flk.reachable_inv [OF assms(1)])
  have "\<not> blocked k (shared s)"
    using assms(4) by (cases k)
      (auto simp: acquire_def acquire_shared_def acquire_exclusive_def blocked_def split: if_splits)
  with inv nth_mem [OF assms(2)] assms(3,5) show ?thesis
    by (fastforce simp: flock_inv_def waiter_inv_def)
qed

theorem flock_no_lost_wakeup_witness:
  "generation (notify (shared (flock_at 0 1 [(Unlocked, Idle), (Unlocked, Waiting Ex example_ticket)])))
     \<noteq> start_generation example_ticket"
  using flock_no_lost_wakeup [OF flock_example_woken, of 1 Unlocked Ex example_ticket
      "\<lparr>counter = -1, notify = \<lparr>generation = 1, wakers = []\<rparr>\<rparr>"]
  by (simp add: flock_at_def acquire_def acquire_exclusive_def notifier_def)


end
