(* ===== verification/Paths.thy ===== *)
theory Paths
  imports Prelude
begin

text \<open>
  Paths and their segments, \<^verbatim>\<open>tee/kernel/src/fs/path.rs\<close>. The iterator that
  \<^verbatim>\<open>Path::segments\<close> returns is modelled with its two captured variables (whether it is
  at the first segment, and the bytes left, if any) and run to its end.
\<close>

section \<open>Model\<close>

abbreviation PATH_MAX :: nat where
  "PATH_MAX \<equiv> 0x1000"

abbreviation slash :: u8 where
  "slash \<equiv> 47"

abbreviation dot :: u8 where
  "dot \<equiv> 46"

type_synonym path = bytes
type_synonym file_name = bytes

definition Path_new :: "bytes \<Rightarrow> path result" where
  "Path_new p = ensure (p \<noteq> []) NoEnt (ensure (length p < PATH_MAX) NameTooLong (Ok p))"

datatype path_segment = Root | Empty | Dot | DotDot | FileName file_name

definition FileName_new :: "bytes \<Rightarrow> file_name result" where
  "FileName_new bs = (if bs = [] \<or> bs = [dot] \<or> bs = [dot, dot] then Err Inval else Ok bs)"

definition segment_of :: "bytes \<Rightarrow> path_segment result" where
  "segment_of bs =
     (if bs = [] then Ok Empty
      else if bs = [dot] then Ok Dot
      else if bs = [dot, dot] then Ok DotDot
      else (case FileName_new bs of Ok name \<Rightarrow> Ok (FileName name) | _ \<Rightarrow> Panic))"

text \<open>
  One call of the iterator's closure with bytes left: the segment it yields and the bytes
  left after it.
\<close>

definition next_segment :: "bool \<Rightarrow> bytes \<Rightarrow> (path_segment \<times> bytes option) result" where
  "next_segment first bs =
     (if bs \<noteq> [] \<and> hd bs = slash then Ok (if first then Root else Empty, Some (tl bs))
      else
        let n = length (takeWhile (\<lambda>b. b \<noteq> slash) bs) in
        if n < length bs then rmap (\<lambda>s. (s, Some (drop (n + 1) bs))) (segment_of (take n bs))
        else rmap (\<lambda>s. (s, None)) (segment_of bs))"

lemma next_segment_decreases:
  "next_segment first bs = Ok (s, Some bs') \<Longrightarrow> length bs' < length bs"
  by (cases bs) (auto simp: next_segment_def Let_def result_simps split: if_splits)

function collect_segments :: "bool \<Rightarrow> bytes option \<Rightarrow> path_segment list result" where
  "collect_segments first None = Ok []"
| "collect_segments first (Some bs) =
     (case next_segment first bs of
        Ok (s, rest) \<Rightarrow> rmap (\<lambda>ss. s # ss) (collect_segments False rest)
      | Err e \<Rightarrow> Err e
      | Panic \<Rightarrow> Panic)"
  by pat_completeness auto
termination
proof (relation "measure (\<lambda>(first, bs). case bs of None \<Rightarrow> 0 | Some bs \<Rightarrow> Suc (length bs))")
  fix first bs and x :: "path_segment \<times> bytes option" and s rest
  assume "next_segment first bs = Ok x" "(s, rest) = x"
  then show "((False, rest), first, Some bs)
      \<in> measure (\<lambda>(first, bs). case bs of None \<Rightarrow> 0 | Some bs \<Rightarrow> Suc (length bs))"
    by (auto dest: next_segment_decreases split: option.splits)
qed simp

definition segments :: "path \<Rightarrow> path_segment list result" where
  "segments p = collect_segments True (Some p)"

definition is_absolute :: "path \<Rightarrow> bool" where
  "is_absolute p = (p \<noteq> [] \<and> hd p = slash)"

definition has_trailing_slash :: "path \<Rightarrow> bool" where
  "has_trailing_slash p = (p \<noteq> [] \<and> last p = slash)"

definition join_segment :: "path \<Rightarrow> file_name \<Rightarrow> path result" where
  "join_segment p name =
     (let bs = (if has_trailing_slash p then p else p @ [slash]) @ name
      in ensure (length bs < PATH_MAX) NameTooLong (Ok bs))"

section \<open>Reference definition of the segments\<close>

text \<open>Splitting at every slash, and what a piece between slashes means.\<close>

fun split_slash :: "bytes \<Rightarrow> bytes list" where
  "split_slash [] = [[]]"
| "split_slash (b # bs) =
     (if b = slash then [] # split_slash bs
      else (case split_slash bs of [] \<Rightarrow> [[b]] | s # ss \<Rightarrow> (b # s) # ss))"

definition piece :: "bytes \<Rightarrow> path_segment" where
  "piece bs =
     (if bs = [] then Empty else if bs = [dot] then Dot else if bs = [dot, dot] then DotDot
      else FileName bs)"

definition segments_spec :: "path \<Rightarrow> path_segment list" where
  "segments_spec p =
     (if is_absolute p then Root # map piece (split_slash (tl p)) else map piece (split_slash p))"

text \<open>Printing segments: a slash after the root, and between any two others.\<close>

fun segment_bytes :: "path_segment \<Rightarrow> bytes" where
  "segment_bytes Root = []"
| "segment_bytes Empty = []"
| "segment_bytes Dot = [dot]"
| "segment_bytes DotDot = [dot, dot]"
| "segment_bytes (FileName name) = name"

fun print_segments :: "path_segment list \<Rightarrow> bytes" where
  "print_segments [] = []"
| "print_segments [s] = segment_bytes s"
| "print_segments (s # ss) = segment_bytes s @ slash # print_segments ss"

section \<open>Lemmas\<close>

lemma split_slash_ne [simp]: "split_slash bs \<noteq> []"
  by (induction bs) (auto split: list.splits)

lemma split_slash_no_slash: "slash \<notin> set bs \<Longrightarrow> split_slash bs = [bs]"
  by (induction bs) auto

lemma split_slash_append:
  "split_slash (xs @ slash # ys) = split_slash xs @ split_slash ys"
proof (induction xs)
  case (Cons x xs)
  then show ?case by (cases "split_slash xs") auto
qed simp

lemma split_slash_pieces: "s \<in> set (split_slash bs) \<Longrightarrow> slash \<notin> set s"
proof (induction bs arbitrary: s)
  case (Cons b bs)
  then show ?case by (cases "split_slash bs") (auto split: if_splits)
qed simp

lemma segment_of_piece: "segment_of bs = Ok (piece bs)"
  by (simp add: segment_of_def piece_def FileName_new_def)

lemma segment_bytes_piece [simp]: "segment_bytes (piece bs) = bs"
  by (simp add: piece_def)

lemma piece_not_Root [simp]: "piece bs \<noteq> Root"
  by (simp add: piece_def)

lemma split_at_slash:
  fixes bs :: bytes
  defines "n \<equiv> length (takeWhile (\<lambda>b. b \<noteq> slash) bs)"
  shows "slash \<notin> set (take n bs)"
    and "n < length bs \<Longrightarrow> bs = take n bs @ slash # drop (n + 1) bs"
    and "\<not> n < length bs \<Longrightarrow> slash \<notin> set bs"
proof -
  have tw: "take n bs = takeWhile (\<lambda>b. b \<noteq> slash) bs"
    unfolding n_def by (metis append_eq_conv_conj takeWhile_dropWhile_id)
  show "slash \<notin> set (take n bs)" unfolding tw using set_takeWhileD by fastforce
  show "bs = take n bs @ slash # drop (n + 1) bs" if "n < length bs"
    using that nth_length_takeWhile [of "\<lambda>b. b \<noteq> slash" bs] id_take_nth_drop [of n bs]
    unfolding n_def by simp
  show "slash \<notin> set bs" if "\<not> n < length bs"
    using that tw \<open>slash \<notin> set (take n bs)\<close> by simp
qed

lemma next_segment_cases:
  assumes "\<not> (first \<and> is_absolute bs)"
  obtains "slash \<notin> set bs" "next_segment first bs = Ok (piece bs, None)"
  | s rest where "slash \<notin> set s" "bs = s @ slash # rest"
      "next_segment first bs = Ok (piece s, Some rest)"
proof (cases "bs \<noteq> [] \<and> hd bs = slash")
  case True
  then have "bs = slash # tl bs" by (cases bs) auto
  with assms True show ?thesis
    by (intro that(2) [of "[]" "tl bs"]) (auto simp: next_segment_def piece_def is_absolute_def)
next
  case False
  let ?n = "length (takeWhile (\<lambda>b. b \<noteq> slash) bs)"
  show ?thesis
  proof (cases "?n < length bs")
    case True
    with False show ?thesis
      by (intro that(2) [of "take ?n bs" "drop (?n + 1) bs"] split_at_slash)
        (auto simp: next_segment_def Let_def segment_of_piece)
  next
    case n: False
    with False show ?thesis
      by (intro that(1) split_at_slash) (auto simp: next_segment_def Let_def segment_of_piece)
  qed
qed

lemma collect_segments_rest:
  "\<not> (first \<and> is_absolute bs) \<Longrightarrow> collect_segments first (Some bs) = Ok (map piece (split_slash bs))"
proof (induction "length bs" arbitrary: first bs rule: less_induct)
  case less
  show ?case
  proof (rule next_segment_cases [OF less.prems])
    assume "slash \<notin> set bs" "next_segment first bs = Ok (piece bs, None)"
    then show ?thesis by (simp add: split_slash_no_slash)
  next
    fix s rest assume *: "slash \<notin> set s" "bs = s @ slash # rest"
      "next_segment first bs = Ok (piece s, Some rest)"
    then have "collect_segments False (Some rest) = Ok (map piece (split_slash rest))"
      by (intro less.hyps) auto
    with * show ?thesis by (simp add: split_slash_append split_slash_no_slash)
  qed
qed

lemma segments_eq_spec: "segments p = Ok (segments_spec p)"
proof (cases "is_absolute p")
  case True
  then have "next_segment True p = Ok (Root, Some (tl p))"
    by (simp add: is_absolute_def next_segment_def)
  with True show ?thesis
    by (simp add: segments_def segments_spec_def collect_segments.simps(2) [of True p]
        collect_segments_rest del: collect_segments.simps(2))
next
  case False
  then show ?thesis
    by (simp add: segments_def segments_spec_def collect_segments_rest del: collect_segments.simps)
qed

lemma print_split: "print_segments (map piece (split_slash bs)) = bs"
proof (induction bs)
  case Nil
  then show ?case by simp
next
  case (Cons b bs)
  then show ?case
    by (cases "split_slash bs"; cases "tl (split_slash bs)") auto
qed

lemma print_Cons: "ss \<noteq> [] \<Longrightarrow> print_segments (s # ss) = segment_bytes s @ slash # print_segments ss"
  by (cases ss) auto

lemma print_segments_spec: "print_segments (segments_spec p) = p"
proof (cases "is_absolute p")
  case True
  then have "p = slash # tl p" by (cases p) (auto simp: is_absolute_def)
  with True show ?thesis by (simp add: segments_spec_def print_split print_Cons)
next
  case False
  then show ?thesis by (simp add: segments_spec_def print_split)
qed

text \<open>A directory entry's name as the kernel builds them: not special and without a slash.\<close>

definition name_ok :: "file_name \<Rightarrow> bool" where
  "name_ok name \<longleftrightarrow> name \<noteq> [] \<and> name \<noteq> [dot] \<and> name \<noteq> [dot, dot] \<and> slash \<notin> set name"

lemma piece_name [simp]: "name_ok name \<Longrightarrow> piece name = FileName name"
  by (simp add: name_ok_def piece_def)

lemma segments_spec_names:
  "FileName name \<in> set (segments_spec p) \<Longrightarrow> name_ok name"
  by (auto simp: segments_spec_def piece_def name_ok_def dest: split_slash_pieces split: if_splits)

lemma segments_spec_Root:
  "i < length (segments_spec p) \<Longrightarrow> segments_spec p ! i = Root \<longleftrightarrow> i = 0 \<and> is_absolute p"
  by (auto simp: segments_spec_def nth_Cons split: nat.splits)

lemma split_slash_trailing:
  "has_trailing_slash p \<Longrightarrow> name_ok name \<Longrightarrow>
   split_slash (p @ name) = butlast (split_slash p) @ [name]"
proof -
  assume tr: "has_trailing_slash p" and ok: "name_ok name"
  then obtain q where p: "p = q @ [slash]"
    by (metis append_butlast_last_id has_trailing_slash_def)
  have "split_slash p = split_slash q @ [[]]"
    using split_slash_append [of q "[]"] by (simp add: p)
  moreover have "split_slash (p @ name) = split_slash q @ [name]"
    using split_slash_append [of q name] ok by (simp add: p split_slash_no_slash name_ok_def)
  ultimately show ?thesis by simp
qed

lemma is_absolute_append [simp]: "p \<noteq> [] \<Longrightarrow> is_absolute (p @ q) = is_absolute p"
  by (simp add: is_absolute_def)

lemma segments_spec_join:
  assumes "p \<noteq> []" "name_ok name"
  shows "segments_spec ((if has_trailing_slash p then p else p @ [slash]) @ name) =
    (if has_trailing_slash p then butlast (segments_spec p) else segments_spec p) @ [FileName name]"
proof (cases "has_trailing_slash p")
  case True
  show ?thesis
  proof (cases "is_absolute p \<and> tl p = []")
    case slash: True
    then have "p = [slash]" by (cases p) (auto simp: is_absolute_def)
    with assms(2) show ?thesis
      by (auto simp: segments_spec_def split_slash_no_slash name_ok_def piece_def
          is_absolute_def has_trailing_slash_def)
  next
    case False
    then have "has_trailing_slash (tl p)" if "is_absolute p"
      using that True by (cases p) (auto simp: has_trailing_slash_def)
    with True assms show ?thesis
      by (auto simp: segments_spec_def split_slash_trailing map_butlast)
  qed
next
  case False
  then have "tl p \<noteq> []" if "is_absolute p"
    using that by (cases p) (auto simp: has_trailing_slash_def is_absolute_def)
  with False assms show ?thesis
    by (auto simp: segments_spec_def split_slash_append split_slash_no_slash name_ok_def piece_def)
qed

section \<open>Properties\<close>

text \<open>
  C36. The segment iterator returns, never panics, and yields what splitting at the slashes
  gives: a root segment first exactly when the path is absolute, then one segment per
  piece. Nothing of the path is lost, since printing the segments gives the path back, and
  every file name among them is a proper name without a slash.
\<close>

theorem segments_correct:
  "segments p = Ok (segments_spec p) \<and> print_segments (segments_spec p) = p \<and>
   {name. FileName name \<in> set (segments_spec p)} \<subseteq> {name. name_ok name} \<and>
   {i. i < length (segments_spec p) \<and> segments_spec p ! i = Root} =
     (if is_absolute p then {0} else {})"
proof -
  have "{i. i < length (segments_spec p) \<and> segments_spec p ! i = Root} =
     (if is_absolute p then {0} else {})"
    using segments_spec_Root [of _ p] by (auto simp: segments_spec_def)
  then show ?thesis
    by (auto simp: segments_eq_spec print_segments_spec dest: segments_spec_names)
qed

text \<open>
  Joining a name to a path gives the path's segments followed by that name (a trailing
  slash of the path is absorbed), or \<^verbatim>\<open>NameTooLong\<close> when the result would not be
  shorter than \<^verbatim>\<open>PATH_MAX\<close>.
\<close>

theorem join_segment_segments:
  assumes "p \<noteq> []" "name_ok name"
  shows "join_segment p name =
      (if length p + length name + (if has_trailing_slash p then 0 else 1) < PATH_MAX
       then Ok ((if has_trailing_slash p then p else p @ [slash]) @ name) else Err NameTooLong) \<and>
    segments ((if has_trailing_slash p then p else p @ [slash]) @ name) =
      rmap (\<lambda>ss. (if has_trailing_slash p then butlast ss else ss) @ [FileName name]) (segments p)"
  using segments_spec_join [OF assms]
  by (simp add: join_segment_def ensure_def segments_eq_spec Let_def)

theorem join_segment_segments_witness:
  "join_segment [slash, 97] [98] = Ok [slash, 97, slash, 98] \<and>
   segments [slash, 97, slash, 98] = Ok [Root, FileName [97], FileName [98]]"
proof -
  have ok: "[slash, 97] \<noteq> ([] :: bytes)" "name_ok [98]" by (simp_all add: name_ok_def)
  have "segments [slash, 97] = Ok [Root, FileName [97]]"
    by (simp add: segments_eq_spec segments_spec_def is_absolute_def piece_def)
  then show ?thesis
    using join_segment_segments [OF ok] by (simp add: has_trailing_slash_def)
qed

end
