(* ===== verification/Fd_Table.thy ===== *)
theory Fd_Table
  imports Ordered_Map File_Lock Paths
begin

text \<open>
  The file descriptor table (\<^verbatim>\<open>FileDescriptorTable\<close> in
  \<^verbatim>\<open>tee/kernel/src/fs/fd.rs\<close>) and the system calls that only move descriptors around
  (\<^verbatim>\<open>dup\<close>, \<^verbatim>\<open>dup2\<close>, \<^verbatim>\<open>dup3\<close>, \<^verbatim>\<open>fcntl\<close>, \<^verbatim>\<open>pipe2\<close>,
  \<^verbatim>\<open>close\<close> in \<^verbatim>\<open>user/process/syscall.rs\<close>). An open file description is a value
  of a type variable: the table only stores and hands out references to it. Descriptor
  numbers are the integers an \<^verbatim>\<open>i32\<close> holds. The global inode counter is the first
  component of the state.
\<close>

section \<open>Resource limits\<close>

record rlimit =
  rlim_cur :: u32
  rlim_max :: u32

record limits =
  stack :: rlimit
  no_file :: rlimit

definition Limits_default :: limits where
  "Limits_default =
     \<lparr>stack = \<lparr>rlim_cur = 0x800000, rlim_max = 0x800000\<rparr>,
      no_file = \<lparr>rlim_cur = 1024, rlim_max = 65536\<rparr>\<rparr>"

datatype resource = Stack | NoFile

definition limits_index :: "limits \<Rightarrow> resource \<Rightarrow> rlimit" where
  "limits_index l r = (case r of Stack \<Rightarrow> stack l | NoFile \<Rightarrow> no_file l)"

definition limits_update :: "resource \<Rightarrow> rlimit \<Rightarrow> limits \<Rightarrow> limits" where
  "limits_update r v l = (case r of Stack \<Rightarrow> l\<lparr>stack := v\<rparr> | NoFile \<Rightarrow> l\<lparr>no_file := v\<rparr>)"

definition current_limit :: "resource \<Rightarrow> limits \<Rightarrow> u32" where
  "current_limit r l = rlim_cur (limits_index l r)"

section \<open>Directory entries\<close>

datatype dir_entry_name = FileName file_name | Dot | DotDot

record dir_entry =
  de_ino :: u64
  de_ty :: file_type
  de_name :: dir_entry_name

fun name_bytes :: "dir_entry_name \<Rightarrow> bytes" where
  "name_bytes (FileName n) = n"
| "name_bytes Dot = [46]"
| "name_bytes DotDot = [46, 46]"

definition next_multiple_of :: "nat \<Rightarrow> nat \<Rightarrow> nat" where
  "next_multiple_of a b = (if a mod b = 0 then a else a + (b - a mod b))"

definition dir_entry_len :: "dir_entry \<Rightarrow> nat" where
  "dir_entry_len e = next_multiple_of (19 + length (name_bytes (de_name e)) + 1) 8"

section \<open>The table\<close>

definition new_ino :: "u64 \<Rightarrow> u64 \<times> u64" where
  "new_ino c = (c, c + 1)"

record 'fd fd_entry =
  ino :: u64
  fd :: 'fd
  flags :: u64
  lock_record :: "file_lock_record option"

type_synonym 'fd fd_table = "(int, 'fd fd_entry) btree"

type_synonym 'fd fd_state = "u64 \<times> 'fd fd_table"

definition FdFlags_CLOEXEC :: u64 where
  "FdFlags_CLOEXEC = 1"

definition entry_new :: "'fd \<Rightarrow> u64 \<Rightarrow> u64 \<Rightarrow> 'fd fd_entry \<times> u64" where
  "entry_new f fl c = (case new_ino c of (i, c') \<Rightarrow>
     (\<lparr>ino = i, fd = f, flags = fl, lock_record = None\<rparr>, c'))"

text \<open>
  \<open>fd_iter.zip(counter_iter.by_ref()).find(..)\<close>: the descriptor iterator is advanced
  first, so that when it ends the counter has not moved. The result is the counter that
  was found and the counter to continue from.
\<close>

fun zip_find :: "int list \<Rightarrow> int \<Rightarrow> int \<Rightarrow> int option \<times> int" where
  "zip_find [] n lim = (None, n)"
| "zip_find (f # fds) n lim =
     (if n < lim then (if n < f then (Some n, n + 1) else zip_find fds (n + 1) lim)
      else (None, n))"

definition find_free_fd_num :: "'fd fd_table \<Rightarrow> int \<Rightarrow> u32 \<Rightarrow> int result" where
  "find_free_fd_num t min_fd limit =
     ensure (min_fd < sint limit) Inval
       (let m = max 0 min_fd; fd_iter = dropWhile (\<lambda>i. i < m) (map fst t) in
        case zip_find fd_iter m (sint limit) of
          (Some c, _) \<Rightarrow> Ok c
        | (None, n) \<Rightarrow> ok_or (if n < sint limit then Some n else None) Mfile)"

definition insert_after ::
  "int \<Rightarrow> 'fd \<Rightarrow> u64 \<Rightarrow> u32 \<Rightarrow> 'fd fd_state \<Rightarrow> (int \<times> 'fd fd_state) result" where
  "insert_after min_fd f fl limit s = (case s of (c, t) \<Rightarrow>
     rbind (find_free_fd_num t min_fd limit) (\<lambda>n.
       case entry_new f fl c of (e, c') \<Rightarrow> Ok (n, (c', bt_insert n e t))))"

definition insert_fd :: "'fd \<Rightarrow> u64 \<Rightarrow> u32 \<Rightarrow> 'fd fd_state \<Rightarrow> (int \<times> 'fd fd_state) result" where
  "insert_fd f fl limit s = insert_after 0 f fl limit s"

definition replace :: "int \<Rightarrow> 'fd \<Rightarrow> u64 \<Rightarrow> u32 \<Rightarrow> 'fd fd_state \<Rightarrow> 'fd fd_state result" where
  "replace n f fl limit s = (case s of (c, t) \<Rightarrow>
     ensure (n < sint limit) BadF
       (case entry_new f fl c of (e, c') \<Rightarrow> Ok (c', bt_insert n e t)))"

definition get_with_flags :: "int \<Rightarrow> 'fd fd_table \<Rightarrow> ('fd \<times> u64) result" where
  "get_with_flags n t = ok_or (map_option (\<lambda>e. (fd e, flags e)) (bt_get n t)) BadF"

definition get :: "int \<Rightarrow> 'fd fd_table \<Rightarrow> 'fd result" where
  "get n t = rmap fst (get_with_flags n t)"

definition set_flags :: "int \<Rightarrow> u64 \<Rightarrow> 'fd fd_table \<Rightarrow> 'fd fd_table result" where
  "set_flags n fl t = rmap (\<lambda>e. bt_insert n (e\<lparr>flags := fl\<rparr>) t) (ok_or (bt_get n t) BadF)"

definition close :: "int \<Rightarrow> 'fd fd_table \<Rightarrow> 'fd fd_table result" where
  "close n t = rmap (\<lambda>_. bt_remove n t) (ok_or (bt_get n t) BadF)"

fun copy_entries :: "'fd fd_table \<Rightarrow> u64 \<Rightarrow> u64 \<times> 'fd fd_table" where
  "copy_entries [] c = (c, [])"
| "copy_entries ((n, e) # t) c =
     (case entry_new (fd e) (flags e) c of (e', c') \<Rightarrow>
        case copy_entries t c' of (c'', t') \<Rightarrow> (c'', (n, e') # t'))"

definition prepare_for_execve :: "'fd fd_state \<Rightarrow> u64 \<times> 'fd fd_table" where
  "prepare_for_execve s = (case s of (c, t) \<Rightarrow>
     copy_entries (filter (\<lambda>(n, e). \<not> contains (flags e) FdFlags_CLOEXEC) t) c)"

definition clone_table :: "'fd fd_state \<Rightarrow> u64 \<times> 'fd fd_table" where
  "clone_table s = (case s of (c, t) \<Rightarrow> copy_entries t c)"

text \<open>Decimal digits, as \<^verbatim>\<open>format!("{num}")\<close> prints them.\<close>

fun show_nat :: "nat \<Rightarrow> bytes" where
  "show_nat n = (if n < 10 then [of_nat (48 + n)] else show_nat (n div 10) @ [of_nat (48 + n mod 10)])"

definition show_i32 :: "int \<Rightarrow> bytes" where
  "show_i32 i = (if i < 0 then 45 # show_nat (nat (- i)) else show_nat (nat i))"

fun list_entries :: "'fd fd_table \<Rightarrow> (dir_entry list, 'e) outcome" where
  "list_entries [] = Ok []"
| "list_entries ((n, e) # t) =
     rbind (case FileName_new (show_i32 n) of Ok name \<Rightarrow> Ok name | _ \<Rightarrow> Panic) (\<lambda>name.
     rbind (list_entries t) (\<lambda>es.
       Ok (\<lparr>de_ino = ino e, de_ty = Link, de_name = FileName name\<rparr> # es)))"

text \<open>The table of the first process; the three streams are what \<^verbatim>\<open>std\<close> makes.\<close>

definition with_standard_io :: "'fd \<Rightarrow> 'fd \<Rightarrow> 'fd \<Rightarrow> u64 \<Rightarrow> 'fd fd_state result" where
  "with_standard_io std_in std_out std_err c =
     rbind (case insert_fd std_in 0 3 (c, []) of Ok x \<Rightarrow> Ok x | _ \<Rightarrow> Panic) (\<lambda>(n0, s0).
     rassert (n0 = 0)
     (rbind (case insert_fd std_out 0 3 s0 of Ok x \<Rightarrow> Ok x | _ \<Rightarrow> Panic) (\<lambda>(n1, s1).
     rassert (n1 = 1)
     (rbind (case insert_fd std_err 0 3 s1 of Ok x \<Rightarrow> Ok x | _ \<Rightarrow> Panic) (\<lambda>(n2, s2).
     rassert (n2 = 2) (Ok s2))))))"

section \<open>System calls on descriptors\<close>


definition dup2 :: "int \<Rightarrow> int \<Rightarrow> u32 \<Rightarrow> 'fd fd_state \<Rightarrow> (u64 \<times> 'fd fd_state) result" where
  "dup2 oldfd newfd limit s =
     ensure (0 \<le> newfd) BadF
       (rbind (get oldfd (snd s)) (\<lambda>f.
          if oldfd \<noteq> newfd
          then rmap (\<lambda>s'. (word_of_int newfd, s')) (replace newfd f 0 limit s)
          else Ok (word_of_int newfd, s)))"

definition Dup3Flags_CLOEXEC :: u64 where
  "Dup3Flags_CLOEXEC = 2 ^ 19"

definition FdFlags_from_Dup3Flags :: "u64 \<Rightarrow> u64" where
  "FdFlags_from_Dup3Flags v = (if contains v Dup3Flags_CLOEXEC then FdFlags_CLOEXEC else 0)"

definition dup3 :: "int \<Rightarrow> int \<Rightarrow> u64 \<Rightarrow> u32 \<Rightarrow> 'fd fd_state \<Rightarrow> (u64 \<times> 'fd fd_state) result" where
  "dup3 oldfd newfd fl limit s =
     ensure (oldfd \<noteq> newfd) Inval
       (rbind (get oldfd (snd s)) (\<lambda>f.
        rmap (\<lambda>s'. (word_of_int newfd, s')) (replace newfd f (FdFlags_from_Dup3Flags fl) limit s)))"




section \<open>Free descriptor numbers\<close>

definition free_num :: "'fd fd_table \<Rightarrow> int \<Rightarrow> u32 \<Rightarrow> int \<Rightarrow> bool" where
  "free_num t min_fd limit n = (max 0 min_fd \<le> n \<and> n < sint limit \<and> bt_get n t = None)"

lemma zip_find_spec:
  assumes "sorted_wrt (<) fds" "\<forall>f \<in> set fds. n \<le> f"
  shows "case zip_find fds n lim of
      (Some c, _) \<Rightarrow> n \<le> c \<and> c < lim \<and> c \<notin> set fds \<and> {n..<c} \<subseteq> set fds
    | (None, c) \<Rightarrow> n \<le> c \<and> {n..<c} \<subseteq> set fds \<and> (c \<notin> set fds \<or> lim \<le> c)"
  using assms
proof (induction fds n lim rule: zip_find.induct)
  case (2 f fds n lim)
  show ?case
  proof (cases "n < lim \<and> \<not> n < f")
    case True
    with 2 have f: "f = n" "\<forall>x \<in> set fds. n + 1 \<le> x" by force+
    have ext: "{n..<c} \<subseteq> insert n (set fds)" if "{n + 1..<c} \<subseteq> set fds" for c
    proof
      fix x assume "x \<in> {n..<c}"
      then have "x = n \<or> x \<in> {n + 1..<c}" by auto
      with that show "x \<in> insert n (set fds)" by auto
    qed
    from 2 True f have "case zip_find fds (n + 1) lim of
      (Some c, _) \<Rightarrow> n + 1 \<le> c \<and> c < lim \<and> c \<notin> set fds \<and> {n + 1..<c} \<subseteq> set fds
    | (None, c) \<Rightarrow> n + 1 \<le> c \<and> {n + 1..<c} \<subseteq> set fds \<and> (c \<notin> set fds \<or> lim \<le> c)"
      by simp
    with True f(1) ext show ?thesis
      by (auto split: prod.splits option.splits)
  next
    case False
    moreover have "n \<notin> set (f # fds)" if "n < f"
      using that 2 by (auto dest: order.strict_trans)
    ultimately show ?thesis by auto
  qed
qed simp

lemma dropWhile_ge:
  assumes "sorted_wrt (<) (xs :: int list)"
  shows "sorted_wrt (<) (dropWhile (\<lambda>i. i < m) xs)"
    and "set (dropWhile (\<lambda>i. i < m) xs) = {x \<in> set xs. m \<le> x}"
  using assms by (induction xs) (auto dest: order.strict_trans1)

lemma find_free_fd_num_cases:
  assumes wf: "bt_wf t"
  obtains "sint limit \<le> min_fd" "find_free_fd_num t min_fd limit = Err Inval"
  | n where "min_fd < sint limit" "find_free_fd_num t min_fd limit = Ok n"
      "free_num t min_fd limit n" "\<And>m. free_num t min_fd limit m \<Longrightarrow> n \<le> m"
  | "min_fd < sint limit" "find_free_fd_num t min_fd limit = Err Mfile"
      "\<And>m. \<not> free_num t min_fd limit m"
proof (cases "min_fd < sint limit")
  case True
  define m where "m = max 0 min_fd"
  define fds where "fds = dropWhile (\<lambda>i. i < m) (map fst t)"
  have fds: "sorted_wrt (<) fds" "set fds = {x \<in> set (map fst t). m \<le> x}"
    using dropWhile_ge [of "map fst t" m] wf by (simp_all add: fds_def bt_wf_def)
  have mem: "x \<in> set fds \<longleftrightarrow> m \<le> x \<and> bt_get x t \<noteq> None" for x
    using fds(2) bt.keys_get [of x t] by auto
  have free: "free_num t min_fd limit x \<longleftrightarrow> m \<le> x \<and> x < sint limit \<and> x \<notin> set fds" for x
    using mem by (auto simp: free_num_def m_def)
  have *: "find_free_fd_num t min_fd limit = (case zip_find fds m (sint limit) of
      (Some c, _) \<Rightarrow> Ok c
    | (None, n) \<Rightarrow> ok_or (if n < sint limit then Some n else None) Mfile)"
    using True by (simp add: find_free_fd_num_def m_def fds_def Let_def)
  obtain r c where rc: "zip_find fds m (sint limit) = (r, c)" by force
  have least: "n \<le> x" if "{m..<n} \<subseteq> set fds" "free_num t min_fd limit x" for n x
    using that free [of x] by (force simp: subset_iff)
  note spec = zip_find_spec [OF fds(1), of m "sint limit"]
  show ?thesis
  proof (cases r)
    case (Some n)
    have n: "m \<le> n" "n < sint limit" "n \<notin> set fds" "{m..<n} \<subseteq> set fds"
      using spec mem rc Some by auto
    show ?thesis
      by (rule that(2) [of n]) (use True * rc Some n free least in auto)
  next
    case None
    have c: "m \<le> c" "{m..<c} \<subseteq> set fds" "c \<notin> set fds \<or> sint limit \<le> c"
      using spec mem rc None by auto
    show ?thesis
    proof (cases "c < sint limit")
      case lt: True
      show ?thesis by (rule that(2) [of c]) (use True * rc None c lt free least in auto)
    next
      case False
      have "\<not> free_num t min_fd limit x" for x
        using False c(2) free [of x] by (force simp: subset_iff)
      with that(3) True * rc None False show ?thesis by simp
    qed
  qed
next
  case False
  with that(1) show ?thesis by (simp add: find_free_fd_num_def)
qed

section \<open>Copies of a table\<close>

abbreviation contents :: "'fd fd_table \<Rightarrow> int \<Rightarrow> ('fd \<times> u64) option" where
  "contents t n \<equiv> map_option (\<lambda>e. (fd e, flags e)) (bt_get n t)"

lemma copy_entries_keys: "map fst (snd (copy_entries t c)) = map fst t"
  by (induction t c rule: copy_entries.induct) (auto split: prod.splits)

lemma copy_entries_wf: "bt_wf t \<Longrightarrow> bt_wf (snd (copy_entries t c))"
  by (simp add: bt_wf_def copy_entries_keys)

lemma copy_entries_contents: "contents (snd (copy_entries t c)) n = contents t n"
  by (induction t c rule: copy_entries.induct)
    (auto simp: entry_new_def new_ino_def split: prod.splits)

lemma get_with_flags_eq: "get_with_flags n t = ok_or (contents t n) BadF"
  by (simp add: get_with_flags_def)

lemma get_eq_Ok: "get n t = Ok f \<longleftrightarrow> (\<exists>e. bt_get n t = Some e \<and> fd e = f)"
  by (auto simp: get_def get_with_flags_def result_simps)

lemma list_entries_ok:
  "list_entries t = (Ok (map (\<lambda>(n, e). \<lparr>de_ino = ino e, de_ty = Link, de_name = FileName (show_i32 n)\<rparr>) t)
     :: (_, 'e) outcome)"
proof -
  have dig: "\<forall>b \<in> set (show_nat n). b \<noteq> dot" "show_nat n \<noteq> []" for n
  proof (induction n rule: show_nat.induct)
    case (1 n)
    have "(of_nat (48 + k) :: u8) \<noteq> dot" if "k < 10" for k
    proof -
      have "k \<in> {0, 1, 2, 3, 4, 5, 6, 7, 8, 9}" using that by auto
      then show ?thesis by auto
    qed
    from this [of n] this [of "n mod 10"] 1 show "\<forall>b \<in> set (show_nat n). b \<noteq> dot" "show_nat n \<noteq> []"
      by (subst show_nat.simps; auto simp del: show_nat.simps of_nat_add)+
  qed
  have "show_i32 n \<noteq> [] \<and> show_i32 n \<noteq> [dot] \<and> show_i32 n \<noteq> [dot, dot]" for n
    using dig [of "nat n"] dig [of "nat (- n)"]
    by (auto simp del: show_nat.simps simp: show_i32_def)
  then show ?thesis
    by (induction t rule: list_entries.induct) (simp_all add: FileName_new_def)
qed

section \<open>Well-formed tables\<close>

definition table_ok :: "u32 \<Rightarrow> 'fd fd_state \<Rightarrow> bool" where
  "table_ok limit s = (bt_wf (snd s) \<and> (\<forall>n. bt_get n (snd s) \<noteq> None \<longrightarrow> 0 \<le> n \<and> n < sint limit))"

lemma entry_new_simps [simp]:
  "fd (fst (entry_new f fl c)) = f" "flags (fst (entry_new f fl c)) = fl"
  by (simp_all add: entry_new_def new_ino_def)

lemma insert_after_Ok:
  assumes "bt_wf (snd s)" "insert_after m f fl limit s = Ok (n, s')"
  shows "free_num (snd s) m limit n" "snd s' = bt_insert n (fst (entry_new f fl (fst s))) (snd s)"
proof -
  obtain c t where s: "s = (c, t)" by force
  with assms(2) have ok: "find_free_fd_num t m limit = Ok n"
    and s': "snd s' = bt_insert n (fst (entry_new f fl (fst s))) (snd s)"
    by (auto simp: insert_after_def result_simps case_prod_beta)
  show "free_num (snd s) m limit n"
  proof -
    have "bt_wf t" using assms(1) s by simp
    then show ?thesis
      by (cases rule: find_free_fd_num_cases [of t limit m]) (use ok s in auto)
  qed
  show "snd s' = bt_insert n (fst (entry_new f fl (fst s))) (snd s)" by (rule s')
qed



lemma replace_Ok:
  "replace n f fl limit s = Ok s' \<longleftrightarrow>
     n < sint limit \<and> s' = (snd (entry_new f fl (fst s)), bt_insert n (fst (entry_new f fl (fst s))) (snd s))"
  by (cases s) (auto simp: replace_def result_simps case_prod_beta)








section \<open>Properties\<close>

text \<open>
  C30. A new descriptor gets the least free number. The search fails with \<open>Inval\<close> exactly
  when the minimum reaches the limit, with \<open>Mfile\<close> exactly when every number from the
  minimum to the limit is in use, and otherwise returns the least number that is not.
\<close>

theorem find_free_fd_num_least:
  assumes "bt_wf t"
  shows "(find_free_fd_num t min_fd limit = Err e \<longleftrightarrow>
           (if sint limit \<le> min_fd then e = Inval else e = Mfile \<and> (\<forall>n. \<not> free_num t min_fd limit n))) \<and>
         (find_free_fd_num t min_fd limit = Ok n \<longleftrightarrow>
           min_fd < sint limit \<and> free_num t min_fd limit n \<and>
           (\<forall>m. free_num t min_fd limit m \<longrightarrow> n \<le> m)) \<and>
         find_free_fd_num t min_fd limit \<noteq> Panic"
  using assms
proof (cases rule: find_free_fd_num_cases [of t limit min_fd])
  case 1
  then show ?thesis by auto
next
  case (2 k)
  then show ?thesis by (auto intro: order.antisym)
next
  case 3
  then show ?thesis by auto
qed

theorem find_free_fd_num_least_witness:
  "find_free_fd_num [(0, \<lparr>ino = 1, fd = (), flags = 0, lock_record = None\<rparr>),
      (2, \<lparr>ino = 2, fd = (), flags = 0, lock_record = None\<rparr>)] 0 1024 \<noteq> Panic"
  using find_free_fd_num_least [of "[(0, \<lparr>ino = 1, fd = (), flags = 0, lock_record = None\<rparr>),
      (2, \<lparr>ino = 2, fd = (), flags = 0, lock_record = None\<rparr>)]" 0 1024]
  by (simp add: bt_wf_def)

text \<open>
  Inserting a description stores it under a number that was unused, leaves every other
  number as it was, and closing that number brings the old table back.
\<close>

theorem insert_close_roundtrip:
  assumes "bt_wf (snd s)" and "insert_after min_fd f fl limit s = Ok (n, s')"
  shows "get n (snd s) = Err BadF \<and> get_with_flags n (snd s') = Ok (f, fl) \<and>
    (\<forall>m. m \<noteq> n \<longrightarrow> get_with_flags m (snd s') = get_with_flags m (snd s)) \<and>
    close n (snd s') = Ok (snd s)"
proof -
  note ok = insert_after_Ok [OF assms]
  then have "bt_remove n (snd s') = snd s"
    using bt.del_put [OF assms(1)] by (simp add: free_num_def)
  then show ?thesis
    using ok by (simp add: get_def get_with_flags_def close_def bt_get_insert free_num_def)
qed

theorem insert_close_roundtrip_witness:
  "close 0 (snd (7, [(0, \<lparr>ino = 6, fd = (), flags = 1, lock_record = None\<rparr>)])) = Ok []"
  using insert_close_roundtrip [of "(6, [])" 0 "()" 1 1024 0
      "(7, [(0, \<lparr>ino = 6, fd = (), flags = 1, lock_record = None\<rparr>)])"]
  by (simp add: insert_after_def find_free_fd_num_def entry_new_def new_ino_def)

text \<open>
  \<^verbatim>\<open>execve\<close> keeps exactly the descriptors without the close-on-exec flag, under
  their numbers and with their flags, and \<^verbatim>\<open>fork\<close>'s copy keeps all of them; both
  leave the new table well-formed.
\<close>

theorem execve_keeps_open_descriptors:
  assumes "table_ok limit (c, t)"
  shows "table_ok limit (prepare_for_execve (c, t)) \<and> table_ok limit (clone_table (c, t)) \<and>
    get_with_flags n (snd (clone_table (c, t))) = get_with_flags n t \<and>
    get_with_flags n (snd (prepare_for_execve (c, t))) =
      (case get_with_flags n t of
         Ok (f, fl) \<Rightarrow> if contains fl FdFlags_CLOEXEC then Err BadF else Ok (f, fl)
       | r \<Rightarrow> r)"
proof -
  let ?P = "\<lambda>(n, e). \<not> contains (flags e) FdFlags_CLOEXEC"
  have wf: "bt_wf t" using assms by (simp add: table_ok_def)
  have filt: "bt_get m (filter ?P t) = (case bt_get m t of None \<Rightarrow> None | Some e \<Rightarrow>
      if contains (flags e) FdFlags_CLOEXEC then None else Some e)" for m
    using bt_get_filter [OF wf, of m ?P] by (simp split: option.splits)
  have dom: "bt_get m (snd (copy_entries u k)) \<noteq> None \<longleftrightarrow> bt_get m u \<noteq> None" for m u k
    using copy_entries_contents [where t = u and c = k and n = m] 
    by (cases "bt_get m (snd (copy_entries u k))"; cases "bt_get m u") simp_all
  have "table_ok limit (copy_entries u k)" if "bt_wf u" "\<And>m. bt_get m u \<noteq> None \<Longrightarrow> bt_get m t \<noteq> None" for u k
    using assms that copy_entries_wf [of u k] dom [of _ u k] by (simp add: table_ok_def)
  moreover have "bt_get m t \<noteq> None" if "bt_get m (filter ?P t) \<noteq> None" for m
    using that unfolding filt by (cases "bt_get m t") simp_all
  ultimately have ok: "table_ok limit (copy_entries t c)" "table_ok limit (copy_entries (filter ?P t) c)"
    using wf bt_wf_filter [OF wf, of ?P] by blast+
  have "contents (filter ?P t) n =
      (case contents t n of None \<Rightarrow> None | Some x \<Rightarrow> if contains (snd x) FdFlags_CLOEXEC then None else Some x)"
    unfolding filt by (cases "bt_get n t") simp_all
  with ok show ?thesis
    unfolding prepare_for_execve_def clone_table_def get_with_flags_eq prod.case copy_entries_contents
    by (cases "contents t n") auto
qed

theorem execve_keeps_open_descriptors_witness:
  "get_with_flags 3 (snd (prepare_for_execve
     (9, [(3, \<lparr>ino = 1, fd = (), flags = 1, lock_record = None\<rparr>)]))) = Err BadF"
proof -
  have "table_ok 1024 (9, [(3, \<lparr>ino = 1, fd = (), flags = 1, lock_record = None\<rparr>)])"
    by (simp add: table_ok_def bt_wf_def)
  note execve_keeps_open_descriptors [OF this, of 3, THEN conjunct2, THEN conjunct2, THEN conjunct2]
  then show ?thesis
    by (simp add: contains_def FdFlags_CLOEXEC_def get_with_flags_def [of _ "[_]"])
qed



text \<open>
  C32. \<^verbatim>\<open>dup3\<close> accepts a negative target: unlike \<^verbatim>\<open>dup2\<close>, which answers
  \<open>BadF\<close>, it stores the description under the negative number, where the table is no
  longer well-formed.
\<close>

theorem dup3_negative_target:
  assumes "get oldfd (snd s) = Ok f" and "newfd < 0" and "0 < sint limit" and "oldfd \<noteq> newfd"
  shows "dup2 oldfd newfd limit s = Err BadF \<and>
    (\<exists>s'. dup3 oldfd newfd fl limit s = Ok (word_of_int newfd, s') \<and>
       get newfd (snd s') = Ok f \<and> \<not> table_ok limit s')"
proof -
  let ?fl = "FdFlags_from_Dup3Flags fl"
  let ?s = "(snd (entry_new f ?fl (fst s)), bt_insert newfd (fst (entry_new f ?fl (fst s))) (snd s))"
  have "replace newfd f ?fl limit s = Ok ?s"
    using assms(2,3) by (simp add: replace_Ok)
  moreover have "get newfd (snd ?s) = Ok f" "\<not> table_ok limit ?s"
    using assms(2) by (auto simp: get_eq_Ok table_ok_def bt_get_insert)
  ultimately show ?thesis
    using assms by (simp add: dup2_def dup3_def)
qed

theorem dup3_negative_target_witness:
  "\<exists>s'. dup3 0 (- 5) 0 1024 (2, [(0, \<lparr>ino = 1, fd = (), flags = 0, lock_record = None\<rparr>)]) =
     Ok (word_of_int (- 5), s') \<and> get (- 5) (snd s') = Ok ()"
  using dup3_negative_target [of 0 "(2, [(0, \<lparr>ino = 1, fd = (), flags = 0, lock_record = None\<rparr>)])"
      "()" "- 5" 1024 0]
  by (auto simp: get_eq_Ok [of 0 "[_]"])

end
