(* ===== verification/Channels.thy ===== *)
theory Channels
  imports Notify
begin

text \<open>
  The channels of the kernel's runtime: \<^verbatim>\<open>rt/oneshot.rs\<close>, \<^verbatim>\<open>rt/mpsc.rs\<close> and
  \<^verbatim>\<open>rt/mpmc.rs\<close>. Each operation is one critical section of the channel's lock and
  returns the wakers it woke. The reference counts the code reads are kept in the state:
  \<^verbatim>\<open>Weak::upgrade\<close> succeeds while a receiver lives, and \<^verbatim>\<open>Arc::weak_count\<close> is
  the number of live senders.
\<close>

section \<open>Oneshot channels\<close>

datatype 'a oneshot = Empty | Waiting waker | Sent 'a | Closed

definition can_send :: "'a oneshot \<Rightarrow> bool" where
  "can_send st = (case st of Closed \<Rightarrow> False | _ \<Rightarrow> True)"

text \<open>\<open>oneshot_fill\<close> is \<^verbatim>\<open>Sender::send\<close> up to the return; the sender it consumes is
  dropped afterwards.\<close>

definition oneshot_fill :: "'a \<Rightarrow> 'a oneshot \<Rightarrow> ('a oneshot \<times> waker list, 'a) outcome" where
  "oneshot_fill v st =
     (case st of
        Closed \<Rightarrow> Err v
      | Waiting w \<Rightarrow> Ok (Sent v, [w])
      | _ \<Rightarrow> Ok (Sent v, []))"

definition oneshot_sender_drop :: "'a oneshot \<Rightarrow> 'a oneshot \<times> waker list" where
  "oneshot_sender_drop st =
     (case st of
        Sent v \<Rightarrow> (Sent v, [])
      | Waiting w \<Rightarrow> (Closed, [w])
      | _ \<Rightarrow> (Closed, []))"

datatype 'a oneshot_poll = Got 'a | RecvError | Parked

definition oneshot_poll :: "waker \<Rightarrow> 'a oneshot \<Rightarrow> 'a oneshot_poll \<times> 'a oneshot" where
  "oneshot_poll wk st =
     (case st of
        Sent v \<Rightarrow> (Got v, Closed)
      | Closed \<Rightarrow> (RecvError, Closed)
      | _ \<Rightarrow> (Parked, Waiting wk))"

definition oneshot_receiver_drop :: "'a oneshot \<Rightarrow> 'a oneshot" where
  "oneshot_receiver_drop st = Closed"

text \<open>The life of a channel: where the sender and the receiver stand, and which receiver
  task has been woken.\<close>

datatype 'a sender = Sender | Filled 'a | Sender_gone "'a option"

datatype 'a receiver = Receiver | Received 'a | Failed | Receiver_gone

record 'a oneshot_sys =
  chan :: "'a oneshot"
  sender :: "'a sender"
  receiver :: "'a receiver"
  parked :: "waker option"
  woken :: "waker list"

inductive oneshot_step :: "'a oneshot_sys \<Rightarrow> 'a oneshot_sys \<Rightarrow> bool" where
  send: "sender s = Sender \<Longrightarrow> oneshot_fill v (chan s) = Ok (st, wks) \<Longrightarrow>
    oneshot_step s (s\<lparr>chan := st, sender := Filled v, woken := woken s @ wks\<rparr>)"
| send_fail: "sender s = Sender \<Longrightarrow> oneshot_fill v (chan s) = Err v \<Longrightarrow>
    oneshot_step s (s\<lparr>chan := fst (oneshot_sender_drop (chan s)), sender := Sender_gone None\<rparr>)"
| sent_drop: "sender s = Filled v \<Longrightarrow> oneshot_sender_drop (chan s) = (st, wks) \<Longrightarrow>
    oneshot_step s (s\<lparr>chan := st, sender := Sender_gone (Some v), woken := woken s @ wks\<rparr>)"
| sender_drop: "sender s = Sender \<Longrightarrow> oneshot_sender_drop (chan s) = (st, wks) \<Longrightarrow>
    oneshot_step s (s\<lparr>chan := st, sender := Sender_gone None, woken := woken s @ wks\<rparr>)"
| recv_got: "receiver s = Receiver \<Longrightarrow> oneshot_poll wk (chan s) = (Got v, st) \<Longrightarrow>
    oneshot_step s (s\<lparr>chan := oneshot_receiver_drop st, receiver := Received v\<rparr>)"
| recv_fail: "receiver s = Receiver \<Longrightarrow> oneshot_poll wk (chan s) = (RecvError, st) \<Longrightarrow>
    oneshot_step s (s\<lparr>chan := oneshot_receiver_drop st, receiver := Failed\<rparr>)"
| recv_park: "receiver s = Receiver \<Longrightarrow> oneshot_poll wk (chan s) = (Parked, st) \<Longrightarrow>
    oneshot_step s (s\<lparr>chan := st, parked := Some wk, woken := []\<rparr>)"
| receiver_drop: "receiver s = Receiver \<Longrightarrow>
    oneshot_step s (s\<lparr>chan := oneshot_receiver_drop (chan s), receiver := Receiver_gone\<rparr>)"

definition oneshot_init :: "'a oneshot_sys \<Rightarrow> bool" where
  "oneshot_init s = (s = \<lparr>chan = Empty, sender = Sender, receiver = Receiver, parked = None, woken = []\<rparr>)"

definition sent_value :: "'a sender \<Rightarrow> 'a option" where
  "sent_value x = (case x of Sender \<Rightarrow> None | Filled v \<Rightarrow> Some v | Sender_gone v \<Rightarrow> v)"

definition oneshot_inv :: "'a oneshot_sys \<Rightarrow> bool" where
  "oneshot_inv s =
     ((\<forall>v. chan s = Sent v \<longrightarrow> sent_value (sender s) = Some v \<and> receiver s = Receiver) \<and>
      (chan s = Closed \<longrightarrow> receiver s \<noteq> Receiver \<or> sender s = Sender_gone None) \<and>
      (\<forall>w. chan s = Waiting w \<longrightarrow> sender s = Sender \<and> receiver s = Receiver) \<and>
      (chan s = Empty \<longrightarrow> sender s = Sender \<and> receiver s = Receiver) \<and>
      (\<forall>v. receiver s = Received v \<longrightarrow> sent_value (sender s) = Some v) \<and>
      (receiver s = Failed \<longrightarrow> sender s = Sender_gone None) \<and>
      (\<forall>w. receiver s = Receiver \<and> parked s = Some w \<longrightarrow> chan s = Waiting w \<or> w \<in> set (woken s)) \<and>
      (parked s = None \<longrightarrow> (\<forall>w. chan s \<noteq> Waiting w)))"

lemmas oneshot_defs = oneshot_fill_def oneshot_sender_drop_def oneshot_poll_def
  oneshot_receiver_drop_def sent_value_def

lemma oneshot_step_inv: "oneshot_inv s \<Longrightarrow> oneshot_step s t \<Longrightarrow> oneshot_inv t"
  by (rotate_tac, induction rule: oneshot_step.induct)
    (auto simp: oneshot_inv_def oneshot_defs split: oneshot.splits sender.splits)

interpretation one: step_system oneshot_init oneshot_step oneshot_inv
  by unfold_locales (simp add: oneshot_init_def oneshot_inv_def, rule oneshot_step_inv)

text \<open>
  C39. A oneshot channel delivers the value that was sent and nothing else: a receiver
  that got a value got the one the sender sent, one that failed had its sender dropped
  without sending; once the sender is done a poll returns at once, and a receiver that
  had parked before has been woken.
\<close>

theorem oneshot_delivery:
  assumes "reachable oneshot_init oneshot_step s"
  shows "(\<forall>v. receiver s = Received v \<longrightarrow> sent_value (sender s) = Some v) \<and>
    (receiver s = Failed \<longrightarrow> sender s = Sender_gone None) \<and>
    (sender s \<noteq> Sender \<and> receiver s = Receiver \<longrightarrow>
       fst (oneshot_poll wk (chan s)) =
         (case sent_value (sender s) of None \<Rightarrow> RecvError | Some v \<Rightarrow> Got v) \<and>
       (\<forall>w. parked s = Some w \<longrightarrow> w \<in> set (woken s)))"
proof -
  have "oneshot_inv s" by (rule one.reachable_inv [OF assms])
  then show ?thesis
    by (cases "chan s") (auto simp: oneshot_inv_def oneshot_defs)
qed

text \<open>A receiver parks as task 3, then the value 5 is sent.\<close>

definition oneshot_example :: "nat oneshot_sys" where
  "oneshot_example = \<lparr>chan = Sent 5, sender = Filled 5, receiver = Receiver, parked = Some 3,
     woken = [3]\<rparr>"

lemma oneshot_example_reachable: "reachable oneshot_init oneshot_step oneshot_example"
proof -
  let ?s0 = "\<lparr>chan = Empty, sender = Sender, receiver = Receiver, parked = None, woken = []\<rparr>"
  let ?s1 = "?s0\<lparr>chan := Waiting 3, parked := Some 3\<rparr>"
  have "reachable oneshot_init oneshot_step ?s0"
    by (rule reachable.start) (simp add: oneshot_init_def)
  moreover have "oneshot_step ?s0 ?s1"
    using oneshot_step.recv_park [of ?s0 3 "Waiting 3"] by (simp add: oneshot_poll_def)
  moreover have "oneshot_step ?s1 oneshot_example"
    using oneshot_step.send [of ?s1 5 "Sent 5" "[3]"]
    by (simp add: oneshot_fill_def oneshot_example_def)
  ultimately show ?thesis by (blast intro: reachable.step)
qed

theorem oneshot_delivery_witness:
  "fst (oneshot_poll 3 (chan oneshot_example)) = Got 5 \<and> 3 \<in> set (woken oneshot_example)"
  using oneshot_delivery [OF oneshot_example_reachable, of 3]
  by (simp add: oneshot_example_def sent_value_def)

section \<open>Channels with one receiver\<close>

record 'a mpsc =
  mpsc_receiver :: bool
  mpsc_senders :: nat
  mpsc_waker :: "waker option"
  mpsc_values :: "'a list"

text \<open>\<open>mpsc_new\<close> makes the receiver and its first sender.\<close>

definition mpsc_Receiver_new :: "'a mpsc" where
  "mpsc_Receiver_new =
     \<lparr>mpsc_receiver = True, mpsc_senders = 0, mpsc_waker = None, mpsc_values = []\<rparr>"

definition mpsc_sender :: "'a mpsc \<Rightarrow> 'a mpsc" where
  "mpsc_sender ch = ch\<lparr>mpsc_senders := mpsc_senders ch + 1\<rparr>"

definition mpsc_new :: "'a mpsc" where
  "mpsc_new = mpsc_sender mpsc_Receiver_new"

definition mpsc_send :: "'a \<Rightarrow> 'a mpsc \<Rightarrow> ('a mpsc \<times> waker option, 'a) outcome" where
  "mpsc_send v ch =
     (if \<not> mpsc_receiver ch then Err v
      else Ok (ch\<lparr>mpsc_values := mpsc_values ch @ [v], mpsc_waker := None\<rparr>, mpsc_waker ch))"

definition mpsc_sender_clone :: "'a mpsc \<Rightarrow> 'a mpsc" where
  "mpsc_sender_clone ch = ch\<lparr>mpsc_senders := mpsc_senders ch + 1\<rparr>"

definition mpsc_sender_drop :: "'a mpsc \<Rightarrow> 'a mpsc \<times> waker option" where
  "mpsc_sender_drop ch =
     (let ch' = ch\<lparr>mpsc_senders := mpsc_senders ch - 1\<rparr>
      in if \<not> mpsc_receiver ch then (ch', None)
         else (ch'\<lparr>mpsc_waker := None\<rparr>, mpsc_waker ch))"

datatype 'a recv_poll = Value 'a | ReceiveError | Park

definition mpsc_poll :: "waker \<Rightarrow> 'a mpsc \<Rightarrow> 'a recv_poll \<times> 'a mpsc" where
  "mpsc_poll wk ch =
     (case mpsc_values ch of
        v # vs \<Rightarrow> (Value v, ch\<lparr>mpsc_values := vs\<rparr>)
      | [] \<Rightarrow> if mpsc_senders ch = 0 then (ReceiveError, ch)
             else (Park, ch\<lparr>mpsc_waker := Some wk\<rparr>))"

definition mpsc_receiver_drop :: "'a mpsc \<Rightarrow> 'a mpsc" where
  "mpsc_receiver_drop ch = ch\<lparr>mpsc_receiver := False, mpsc_values := [], mpsc_waker := None\<rparr>"

subsection \<open>Order of the values and wake-ups\<close>

definition mpsc_push :: "'a \<Rightarrow> 'a mpsc \<Rightarrow> 'a mpsc option" where
  "mpsc_push v ch = (case mpsc_send v ch of Ok (ch', _) \<Rightarrow> Some ch' | _ \<Rightarrow> None)"

definition mpsc_pop :: "waker \<Rightarrow> 'a mpsc \<Rightarrow> 'a option \<times> 'a mpsc" where
  "mpsc_pop wk ch = (case mpsc_poll wk ch of (Value v, ch') \<Rightarrow> (Some v, ch') | (_, ch') \<Rightarrow> (None, ch'))"

definition mpsc_rel :: "'a mpsc \<Rightarrow> 'a list \<Rightarrow> bool" where
  "mpsc_rel ch vs = (mpsc_values ch = vs)"

interpretation mpsc: fifo_channel "\<lambda>_. True" mpsc_rel mpsc_push "mpsc_pop wk" for wk
  by unfold_locales
    (auto simp: mpsc_rel_def mpsc_push_def mpsc_pop_def mpsc_send_def mpsc_poll_def split: if_splits)

inductive mpsc_step :: "'a mpsc \<Rightarrow> 'a mpsc \<Rightarrow> bool" where
  send: "0 < mpsc_senders ch \<Longrightarrow> mpsc_send v ch = Ok (ch', wk) \<Longrightarrow> mpsc_step ch ch'"
| clone: "0 < mpsc_senders ch \<Longrightarrow> mpsc_step ch (mpsc_sender_clone ch)"
| sender: "mpsc_receiver ch \<Longrightarrow> mpsc_step ch (mpsc_sender ch)"
| drop: "0 < mpsc_senders ch \<Longrightarrow> mpsc_sender_drop ch = (ch', wk) \<Longrightarrow> mpsc_step ch ch'"
| poll: "mpsc_receiver ch \<Longrightarrow> mpsc_poll wk ch = (r, ch') \<Longrightarrow> mpsc_step ch ch'"
| receiver_drop: "mpsc_receiver ch \<Longrightarrow> mpsc_step ch (mpsc_receiver_drop ch)"

definition mpsc_inv :: "'a mpsc \<Rightarrow> bool" where
  "mpsc_inv ch = (mpsc_waker ch \<noteq> None \<longrightarrow> mpsc_values ch = [] \<and> 0 < mpsc_senders ch \<and> mpsc_receiver ch)"

lemmas mpsc_defs = mpsc_send_def mpsc_sender_clone_def mpsc_sender_def mpsc_sender_drop_def
  mpsc_poll_def mpsc_receiver_drop_def

lemma mpsc_step_inv: "mpsc_inv s \<Longrightarrow> mpsc_step s t \<Longrightarrow> mpsc_inv t"
  by (rotate_tac, induction rule: mpsc_step.induct)
    (auto simp: mpsc_inv_def mpsc_defs Let_def split: if_splits list.splits)

interpretation mpsc_sys: step_system "\<lambda>ch. ch = mpsc_new" mpsc_step mpsc_inv
  by unfold_locales
    (simp add: mpsc_new_def mpsc_sender_def mpsc_Receiver_new_def mpsc_inv_def, rule mpsc_step_inv)

text \<open>
  C40. The values of a channel with one receiver arrive in the order they were sent and
  each once: under every interleaving of sends and polls the received values followed by
  the queued ones are the accepted ones.
\<close>

theorem mpsc_in_order:
  "case fifo_run mpsc_push (mpsc_pop wk) ops mpsc_new of
     (sent, received, ch) \<Rightarrow> sent = received @ mpsc_values ch"
proof -
  obtain sent received ch where
    run: "fifo_run mpsc_push (mpsc_pop wk) ops mpsc_new = (sent, received, ch)"
    by (cases "fifo_run mpsc_push (mpsc_pop wk) ops mpsc_new") auto
  have "mpsc_rel mpsc_new []"
    by (simp add: mpsc_rel_def mpsc_new_def mpsc_sender_def mpsc_Receiver_new_def)
  from mpsc.run_in_order [OF this sends_ok_True run] run show ?thesis
    by (simp add: mpsc_rel_def)
qed

text \<open>
  A receiver never sleeps on a channel that has something for it: in every reachable
  state with a waker stored, no value is queued and a sender is alive; the next
  \<^verbatim>\<open>send\<close> and the drop of the last sender both wake it.
\<close>

theorem mpsc_wakes_receiver:
  assumes "reachable (\<lambda>ch. ch = mpsc_new) mpsc_step ch" and "mpsc_waker ch = Some wk"
  shows "mpsc_values ch = [] \<and> 0 < mpsc_senders ch \<and>
    (\<exists>ch'. mpsc_send v ch = Ok (ch', Some wk) \<and> fst (mpsc_poll wk' ch') = Value v) \<and>
    snd (mpsc_sender_drop ch) = Some wk \<and>
    (mpsc_senders ch = 1 \<longrightarrow> fst (mpsc_poll wk' (fst (mpsc_sender_drop ch))) = ReceiveError)"
proof -
  have "mpsc_inv ch" by (rule mpsc_sys.reachable_inv [OF assms(1)])
  with assms(2) show ?thesis by (auto simp: mpsc_inv_def mpsc_defs)
qed

definition mpsc_example :: "nat mpsc" where
  "mpsc_example = snd (mpsc_poll 4 mpsc_new)"

lemma mpsc_example_reachable: "reachable (\<lambda>ch. ch = mpsc_new) mpsc_step mpsc_example"
proof (rule reachable.step [OF reachable.start])
  show "mpsc_step mpsc_new mpsc_example"
    unfolding mpsc_example_def
    by (rule mpsc_step.poll [of _ 4 "fst (mpsc_poll 4 mpsc_new)"])
      (simp_all add: mpsc_new_def mpsc_sender_def mpsc_Receiver_new_def)
qed simp

theorem mpsc_wakes_receiver_witness:
  "\<exists>ch'. mpsc_send 9 mpsc_example = Ok (ch', Some 4) \<and> fst (mpsc_poll 4 ch') = Value 9"
  using mpsc_wakes_receiver [OF mpsc_example_reachable, of 4 9 4]
  by (simp add: mpsc_example_def mpsc_new_def mpsc_sender_def mpsc_Receiver_new_def mpsc_poll_def)

section \<open>Channels with several receivers\<close>

record 'a mpmc =
  mpmc_receivers :: nat
  mpmc_senders :: nat
  mpmc_wakers :: "waker list"
  mpmc_values :: "'a list"

definition mpmc_Receiver_new :: "'a mpmc" where
  "mpmc_Receiver_new =
     \<lparr>mpmc_receivers = 1, mpmc_senders = 0, mpmc_wakers = [], mpmc_values = []\<rparr>"

definition mpmc_sender :: "'a mpmc \<Rightarrow> 'a mpmc" where
  "mpmc_sender ch = ch\<lparr>mpmc_senders := mpmc_senders ch + 1\<rparr>"

definition mpmc_new :: "'a mpmc" where
  "mpmc_new = mpmc_sender mpmc_Receiver_new"

definition mpmc_send :: "'a \<Rightarrow> 'a mpmc \<Rightarrow> ('a mpmc \<times> waker list, 'a) outcome" where
  "mpmc_send v ch =
     (if mpmc_receivers ch = 0 then Err v
      else Ok (ch\<lparr>mpmc_values := mpmc_values ch @ [v], mpmc_wakers := []\<rparr>, mpmc_wakers ch))"

definition mpmc_sender_clone :: "'a mpmc \<Rightarrow> 'a mpmc" where
  "mpmc_sender_clone ch = ch\<lparr>mpmc_senders := mpmc_senders ch + 1\<rparr>"

definition mpmc_receiver_clone :: "'a mpmc \<Rightarrow> 'a mpmc" where
  "mpmc_receiver_clone ch = ch\<lparr>mpmc_receivers := mpmc_receivers ch + 1\<rparr>"

definition mpmc_try_recv :: "'a mpmc \<Rightarrow> 'a option \<times> 'a mpmc" where
  "mpmc_try_recv ch =
     (case mpmc_values ch of [] \<Rightarrow> (None, ch) | v # vs \<Rightarrow> (Some v, ch\<lparr>mpmc_values := vs\<rparr>))"

definition mpmc_poll :: "waker \<Rightarrow> 'a mpmc \<Rightarrow> 'a option \<times> 'a mpmc" where
  "mpmc_poll wk ch =
     (case mpmc_values ch of
        v # vs \<Rightarrow> (Some v, ch\<lparr>mpmc_values := vs\<rparr>)
      | [] \<Rightarrow> (None, ch\<lparr>mpmc_wakers := mpmc_wakers ch @ [wk]\<rparr>))"

text \<open>Neither half has a drop handler of its own; the last receiver frees the queue.\<close>

definition mpmc_receiver_drop :: "'a mpmc \<Rightarrow> 'a mpmc" where
  "mpmc_receiver_drop ch =
     (if mpmc_receivers ch = 1 then ch\<lparr>mpmc_receivers := 0, mpmc_wakers := [], mpmc_values := []\<rparr>
      else ch\<lparr>mpmc_receivers := mpmc_receivers ch - 1\<rparr>)"

definition mpmc_sender_drop :: "'a mpmc \<Rightarrow> 'a mpmc" where
  "mpmc_sender_drop ch = ch\<lparr>mpmc_senders := mpmc_senders ch - 1\<rparr>"

inductive mpmc_step :: "'a mpmc \<Rightarrow> 'a mpmc \<Rightarrow> bool" where
  send: "0 < mpmc_senders ch \<Longrightarrow> mpmc_send v ch = Ok (ch', wks) \<Longrightarrow> mpmc_step ch ch'"
| sender_clone: "0 < mpmc_senders ch \<Longrightarrow> mpmc_step ch (mpmc_sender_clone ch)"
| receiver_clone: "0 < mpmc_receivers ch \<Longrightarrow> mpmc_step ch (mpmc_receiver_clone ch)"
| sender: "0 < mpmc_receivers ch \<Longrightarrow> mpmc_step ch (mpmc_sender ch)"
| try_recv: "0 < mpmc_receivers ch \<Longrightarrow> mpmc_try_recv ch = (r, ch') \<Longrightarrow> mpmc_step ch ch'"
| poll: "0 < mpmc_receivers ch \<Longrightarrow> mpmc_poll wk ch = (r, ch') \<Longrightarrow> mpmc_step ch ch'"
| receiver_drop: "0 < mpmc_receivers ch \<Longrightarrow> mpmc_step ch (mpmc_receiver_drop ch)"
| sender_drop: "0 < mpmc_senders ch \<Longrightarrow> mpmc_step ch (mpmc_sender_drop ch)"

definition mpmc_inv :: "'a mpmc \<Rightarrow> bool" where
  "mpmc_inv ch = (mpmc_wakers ch \<noteq> [] \<longrightarrow> mpmc_values ch = [])"

lemmas mpmc_defs = mpmc_send_def mpmc_sender_clone_def mpmc_receiver_clone_def mpmc_sender_def
  mpmc_try_recv_def mpmc_poll_def mpmc_receiver_drop_def mpmc_sender_drop_def

lemma mpmc_step_inv: "mpmc_inv s \<Longrightarrow> mpmc_step s t \<Longrightarrow> mpmc_inv t"
  by (rotate_tac, induction rule: mpmc_step.induct)
    (auto simp: mpmc_inv_def mpmc_defs split: if_splits list.splits)

interpretation mpmc_sys: step_system "\<lambda>ch. ch = mpmc_new" mpmc_step mpmc_inv
  by unfold_locales
    (simp add: mpmc_new_def mpmc_sender_def mpmc_Receiver_new_def mpmc_inv_def, rule mpmc_step_inv)

definition mpmc_push :: "'a \<Rightarrow> 'a mpmc \<Rightarrow> 'a mpmc option" where
  "mpmc_push v ch = (case mpmc_send v ch of Ok (ch', _) \<Rightarrow> Some ch' | _ \<Rightarrow> None)"

definition mpmc_rel :: "'a mpmc \<Rightarrow> 'a list \<Rightarrow> bool" where
  "mpmc_rel ch vs = (mpmc_values ch = vs)"

interpretation mpmc: fifo_channel "\<lambda>_. True" mpmc_rel mpmc_push "mpmc_poll wk" for wk
  by unfold_locales
    (auto simp: mpmc_rel_def mpmc_push_def mpmc_defs split: if_splits)

text \<open>
  A channel with several receivers hands its values out in the order they were sent,
  each to one receiver, and in every reachable state no receiver sleeps while a value is
  queued: the next \<^verbatim>\<open>send\<close> wakes all sleeping receivers.
\<close>

theorem mpmc_wakes_receivers:
  assumes "reachable (\<lambda>ch. ch = mpmc_new) mpmc_step ch"
  shows "(mpmc_wakers ch \<noteq> [] \<longrightarrow> mpmc_values ch = []) \<and>
    (0 < mpmc_receivers ch \<longrightarrow>
       (\<exists>ch'. mpmc_send v ch = Ok (ch', mpmc_wakers ch) \<and> mpmc_wakers ch' = [] \<and>
          mpmc_values ch' = mpmc_values ch @ [v])) \<and>
    (case fifo_run mpmc_push (mpmc_poll wk) ops ch of
       (sent, received, t) \<Rightarrow> mpmc_values ch @ sent = received @ mpmc_values t)"
proof -
  have "mpmc_inv ch" by (rule mpmc_sys.reachable_inv [OF assms])
  moreover obtain sent received t where
    run: "fifo_run mpmc_push (mpmc_poll wk) ops ch = (sent, received, t)"
    by (cases "fifo_run mpmc_push (mpmc_poll wk) ops ch") auto
  moreover have "mpmc_values ch @ sent = received @ mpmc_values t"
    using mpmc.run_in_order [OF _ sends_ok_True run, of "mpmc_values ch"]
    by (simp add: mpmc_rel_def)
  ultimately show ?thesis by (auto simp: mpmc_inv_def mpmc_send_def)
qed

theorem mpmc_wakes_receivers_witness:
  "\<exists>ch'. mpmc_send (3::nat) mpmc_new = Ok (ch', []) \<and> mpmc_values ch' = [3]"
  using mpmc_wakes_receivers [OF reachable.start [of "\<lambda>ch. ch = mpmc_new", OF refl], of "3::nat" 0 "[]"]
  by (auto simp: mpmc_new_def mpmc_sender_def mpmc_Receiver_new_def)

end
