(* ===== verification/Pcid.thy ===== *)
theory Pcid
  imports Interfaces
begin

text \<open>
  The allocation of process context identifiers
  (\<^verbatim>\<open>PcidAllocations\<close> in \<^verbatim>\<open>tee/kernel/src/memory/pagetable.rs\<close>): a
  round-robin search over 4096 identifiers, of which the first belongs to the kernel.
\<close>

section \<open>The allocator\<close>

record pcid_allocations =
  last_idx :: nat
  in_use :: "bool list"

definition PcidAllocations_new :: pcid_allocations where
  "PcidAllocations_new = \<lparr>last_idx = 0, in_use = (replicate 4096 False)[0 := True]\<rparr>"

text \<open>The search loop, with its counter. It ends because the counter is bounded.\<close>

function search :: "bool list \<Rightarrow> nat \<Rightarrow> nat \<Rightarrow> nat result" where
  "search used idx counter =
     (if length used \<le> idx then Panic
      else if used ! idx then
        (if counter + 1 < length used then search used ((idx + 1) mod length used) (counter + 1) else Panic)
      else Ok idx)"
  by auto
termination by (relation "measure (\<lambda>(used, idx, counter). length used - counter)") auto

declare search.simps [simp del]

definition allocate :: "pcid_allocations \<Rightarrow> (nat \<times> pcid_allocations) result" where
  "allocate a =
     rbind (search (in_use a) (last_idx a) 0) (\<lambda>i.
     rassert (i < 4096)
       (Ok (i, \<lparr>last_idx = (i + 1) mod length (in_use a), in_use = (in_use a)[i := True]\<rparr>)))"

definition deallocate :: "nat \<Rightarrow> pcid_allocations \<Rightarrow> pcid_allocations result" where
  "deallocate pcid a = rassert (pcid < length (in_use a)) (Ok (a\<lparr>in_use := (in_use a)[pcid := False]\<rparr>))"

section \<open>The search\<close>

lemma search_Ok:
  assumes "idx < length used" "j < length used" "\<not> used ! ((idx + j) mod length used)"
    and "counter + j < length used"
  shows "\<exists>k \<le> j. search used idx counter = Ok ((idx + k) mod length used) \<and>
    \<not> used ! ((idx + k) mod length used)"
  using assms
proof (induction j arbitrary: idx counter)
  case 0
  then show ?case by (simp add: search.simps)
next
  case (Suc j)
  show ?case
  proof (cases "used ! idx")
    case False
    with Suc.prems show ?thesis by (intro exI [of _ 0]) (simp add: search.simps)
  next
    case True
    let ?i = "(idx + 1) mod length used"
    have step: "search used idx counter = search used ?i (counter + 1)"
      using True Suc.prems by (simp add: search.simps [of used idx])
    have shift: "(?i + k) mod length used = (idx + Suc k) mod length used" for k
      by (simp add: mod_add_left_eq)
    have "?i < length used" using Suc.prems(1) by (intro mod_less_divisor) auto
    from Suc.IH [OF this, of "counter + 1"] Suc.prems shift obtain k where
      "k \<le> j" "search used ?i (counter + 1) = Ok ((idx + Suc k) mod length used)"
      "\<not> used ! ((idx + Suc k) mod length used)" by auto
    with step show ?thesis by (intro exI [of _ "Suc k"]) simp
  qed
qed

lemma search_full:
  assumes "idx < length used" "\<forall>i < length used. used ! i"
  shows "search used idx counter = Panic"
  using assms
proof (induction used idx counter rule: search.induct)
  case (1 used idx counter)
  moreover from 1(2) have "(idx + 1) mod length used < length used" by (intro mod_less_divisor) auto
  ultimately show ?case by (auto simp: search.simps [of used idx counter])
qed

section \<open>Properties\<close>

definition pcids_ok :: "pcid_allocations \<Rightarrow> bool" where
  "pcids_ok a \<longleftrightarrow> length (in_use a) = 4096 \<and> last_idx a < 4096 \<and> in_use a ! 0"

text \<open>
  The search for a process context identifier always ends. It finds a free one whenever
  there is one, wherever it starts, never the kernel's, and marks it and nothing else; it
  panics only when all 4096 are taken. Giving one back makes it free again.
\<close>

theorem pcid_allocation:
  assumes "pcids_ok a"
  shows "(case allocate a of
      Ok (p, b) \<Rightarrow> p < 4096 \<and> p \<noteq> 0 \<and> \<not> in_use a ! p \<and> in_use b = (in_use a)[p := True] \<and> pcids_ok b \<and>
        (\<exists>c. deallocate p b = Ok c \<and> in_use c = in_use a \<and> pcids_ok c)
    | Err e \<Rightarrow> False
    | Panic \<Rightarrow> \<forall>i < 4096. in_use a ! i)"
proof (cases "\<forall>i < 4096. in_use a ! i")
  case True
  then have "allocate a = Panic"
    using search_full [of "last_idx a" "in_use a" 0] assms by (simp add: allocate_def pcids_ok_def)
  with True show ?thesis by simp
next
  case False
  then obtain i where i: "i < 4096" "\<not> in_use a ! i" by blast
  let ?j = "(i + 4096 - last_idx a) mod 4096"
  have l: "length (in_use a) = 4096" "last_idx a < 4096" "in_use a ! 0" using assms by (auto simp: pcids_ok_def)
  have "(last_idx a + ?j) mod 4096 = i" using i(1) l(2) by (simp add: mod_add_right_eq)
  with search_Ok [of "last_idx a" "in_use a" ?j 0] i l
  obtain p where p: "search (in_use a) (last_idx a) 0 = Ok p" "\<not> in_use a ! p" "p < 4096"
    by (metis add_0 mod_less_divisor zero_less_numeral)
  have "p \<noteq> 0" using p(2) l(3) by metis
  moreover have "(in_use a)[p := True, p := False] = in_use a"
    using p(2) by (metis list_update_id list_update_overwrite)
  ultimately show ?thesis
    using p l by (simp add: allocate_def deallocate_def pcids_ok_def)
qed

theorem pcid_allocation_witness:
  "case allocate PcidAllocations_new of
      Ok (p, b) \<Rightarrow> p < 4096 \<and> p \<noteq> 0 \<and> \<not> in_use PcidAllocations_new ! p \<and>
        in_use b = (in_use PcidAllocations_new)[p := True] \<and> pcids_ok b \<and>
        (\<exists>c. deallocate p b = Ok c \<and> in_use c = in_use PcidAllocations_new \<and> pcids_ok c)
    | Err e \<Rightarrow> False
    | Panic \<Rightarrow> \<forall>i < 4096. in_use PcidAllocations_new ! i"
proof -
  have "pcids_ok PcidAllocations_new"
    unfolding pcids_ok_def PcidAllocations_new_def by simp
  then show ?thesis by (rule pcid_allocation)
qed

end
