(* ===== verification/Kernel_Page.thy ===== *)
theory Kernel_Page
  imports Interfaces "HOL-Library.Multiset"
begin

text \<open>
  Reference-counted pages with copy on write
  (\<^verbatim>\<open>tee/kernel/src/memory/page/kernel.rs\<close>). Memory is an explicit heap: page contents
  and reference counts under addresses. An allocation takes an address that was never used;
  \<open>oom\<close> says which of the coming allocations fail. The zero page lives at address 0. An
  access to an address that is not allocated, undefined behaviour in the source, is
  \<open>Panic\<close> here, so that excluding \<open>Panic\<close> excludes it.
\<close>

abbreviation PAGE :: nat where
  "PAGE \<equiv> 4096"

type_synonym addr = nat

record heap =
  pages :: "addr \<rightharpoonup> bytes"
  counts :: "addr \<rightharpoonup> nat"
  next_addr :: addr
  oom :: "bool list"

record kernel_page =
  content :: addr
  reference_count :: "addr option"

definition zero_bytes :: bytes where
  "zero_bytes = replicate PAGE 0"

definition heap_new :: "bool list \<Rightarrow> heap" where
  "heap_new fails = \<lparr>pages = [0 \<mapsto> zero_bytes], counts = Map.empty, next_addr = 1, oom = fails\<rparr>"

section \<open>Allocation\<close>

definition may_alloc :: "(heap, unit) stateful" where
  "may_alloc h = (case oom h of [] \<Rightarrow> (Ok (), h)
     | f # fs \<Rightarrow> (if f then Err NoMem else Ok (), h\<lparr>oom := fs\<rparr>))"

definition alloc_page :: "bytes \<Rightarrow> (heap, addr) stateful" where
  "alloc_page bs = sbind may_alloc (\<lambda>_ h.
     (Ok (next_addr h), h\<lparr>pages := (pages h)(next_addr h \<mapsto> bs), next_addr := next_addr h + 1\<rparr>))"

definition alloc_count :: "nat \<Rightarrow> (heap, addr) stateful" where
  "alloc_count n = sbind may_alloc (\<lambda>_ h.
     (Ok (next_addr h), h\<lparr>counts := (counts h)(next_addr h \<mapsto> n), next_addr := next_addr h + 1\<rparr>))"

definition load_page :: "addr \<Rightarrow> (heap, bytes) stateful" where
  "load_page a h = (unwrap (pages h a), h)"

definition load_count :: "addr \<Rightarrow> (heap, nat) stateful" where
  "load_count a h = (unwrap (counts h a), h)"

definition store_page :: "addr \<Rightarrow> bytes \<Rightarrow> (heap, unit) stateful" where
  "store_page a bs h =
     (if pages h a = None then (Panic, h) else (Ok (), h\<lparr>pages := (pages h)(a \<mapsto> bs)\<rparr>))"

definition store_count :: "addr \<Rightarrow> nat \<Rightarrow> (heap, unit) stateful" where
  "store_count a n h =
     (if counts h a = None then (Panic, h) else (Ok (), h\<lparr>counts := (counts h)(a \<mapsto> n)\<rparr>))"

definition dealloc_page :: "addr \<Rightarrow> (heap, unit) stateful" where
  "dealloc_page a h =
     (if pages h a = None then (Panic, h) else (Ok (), h\<lparr>pages := (pages h)(a := None)\<rparr>))"

definition dealloc_count :: "addr \<Rightarrow> (heap, unit) stateful" where
  "dealloc_count a h =
     (if counts h a = None then (Panic, h) else (Ok (), h\<lparr>counts := (counts h)(a := None)\<rparr>))"

section \<open>Pages\<close>

definition zeroed :: kernel_page where
  "zeroed = \<lparr>content = 0, reference_count = None\<rparr>"

definition is_zero_page :: "kernel_page \<Rightarrow> bool" where
  "is_zero_page p = (if reference_count p \<noteq> None then False else content p = 0)"

text \<open>\<open>clone\<close> returns the page it was called on, which may have gained a reference count,
  and the copy.\<close>

definition clone :: "kernel_page \<Rightarrow> (heap, kernel_page \<times> kernel_page) stateful" where
  "clone p =
     (if is_zero_page p then sret (p, p)
      else
        sbind (case reference_count p of Some r \<Rightarrow> sret r | None \<Rightarrow> alloc_count 1) (\<lambda>r.
        sbind (load_count r) (\<lambda>n.
        sbind (store_count r (n + 1)) (\<lambda>_.
          let p' = p\<lparr>reference_count := Some r\<rparr> in sret (p', p')))))"

definition mutable :: "bool \<Rightarrow> kernel_page \<Rightarrow> bool" where
  "mutable shared p = (if is_zero_page p then False else reference_count p = None \<or> shared)"

definition drop_page :: "kernel_page \<Rightarrow> (heap, unit) stateful" where
  "drop_page p =
     (if is_zero_page p then sret ()
      else case reference_count p of
        Some r \<Rightarrow>
          sbind (load_count r) (\<lambda>rc.
          sbind (store_count r (rc - 1)) (\<lambda>_.
            if rc \<noteq> 1 then sret ()
            else sbind (dealloc_count r) (\<lambda>_. dealloc_page (content p))))
      | None \<Rightarrow> dealloc_page (content p))"

text \<open>The slow path of \<open>make_mut\<close>: copy the page and drop the old handle.\<close>

definition copy_page :: "kernel_page \<Rightarrow> (heap, kernel_page) stateful" where
  "copy_page p =
     sbind (load_page (content p)) (\<lambda>bs.
     sbind (alloc_page bs) (\<lambda>a.
     sbind (drop_page p) (\<lambda>_. sret \<lparr>content = a, reference_count = None\<rparr>)))"

definition make_mut :: "bool \<Rightarrow> kernel_page \<Rightarrow> (heap, kernel_page) stateful" where
  "make_mut shared p =
     (if \<not> is_zero_page p then
        if shared then sret p
        else case reference_count p of
          None \<Rightarrow> sret p
        | Some r \<Rightarrow>
            sbind (load_count r) (\<lambda>rc.
              if rc = 1
              then sbind (dealloc_count r) (\<lambda>_. sret (p\<lparr>reference_count := None\<rparr>))
              else copy_page p)
      else copy_page p)"

text \<open>Ranges are half-open here: \<open>a..\<close> is \<open>(a, PAGE)\<close> and \<open>a..=b\<close> is \<open>(a, b + 1)\<close>.
  \<open>index\<close> returns where the slice starts and how long it is.\<close>

definition index :: "nat \<times> nat \<Rightarrow> (nat \<times> nat) result" where
  "index r = (case r of (s, e) \<Rightarrow>
     rassert (s \<le> PAGE) (rassert (e \<le> PAGE) (Ok (s, e - s))))"

definition slice :: "bytes \<Rightarrow> nat \<Rightarrow> nat \<Rightarrow> bytes" where
  "slice bs s n = take n (drop s bs)"

definition zero_range :: "nat \<times> nat \<Rightarrow> bool \<Rightarrow> kernel_page \<Rightarrow> (heap, kernel_page) stateful" where
  "zero_range r shared p =
     (if snd r - fst r = 0 then sret p
      else if is_zero_page p then sret p
      else
        sbind (make_mut shared p) (\<lambda>p'.
        sbind (slift (index r)) (\<lambda>(s, n).
        sbind (load_page (content p')) (\<lambda>bs.
        sbind (store_page (content p') (overlay bs s (replicate n 0))) (\<lambda>_. sret p')))))"

text \<open>A copy into the slice of a page that was made mutable, as the users of a page do it.\<close>

definition write_slice :: "kernel_page \<Rightarrow> nat \<Rightarrow> bytes \<Rightarrow> (heap, unit) stateful" where
  "write_slice p s src =
     sbind (load_page (content p)) (\<lambda>bs. store_page (content p) (overlay bs s src))"

section \<open>The invariant of the heap and its handles\<close>

text \<open>
  \<open>M\<close> is the multiset of the live handles. Handles to one page share one reference count,
  which is the number of these handles; a handle without a count is the only one of its
  page, unless it is the zero page. What is allocated is what is referenced.
\<close>

definition refs_ok :: "kernel_page multiset \<Rightarrow> bool" where
  "refs_ok M \<longleftrightarrow>
     (\<forall>p q. p \<in># M \<longrightarrow> q \<in># M \<longrightarrow> content p = content q \<longrightarrow> p = q) \<and>
     (\<forall>p q r. p \<in># M \<longrightarrow> q \<in># M \<longrightarrow> reference_count p = Some r \<longrightarrow> reference_count q = Some r \<longrightarrow> p = q) \<and>
     (\<forall>p. p \<in># M \<longrightarrow> content p = 0 \<longrightarrow> reference_count p = None) \<and>
     (\<forall>p. p \<in># M \<longrightarrow> content p \<noteq> 0 \<longrightarrow> reference_count p = None \<longrightarrow> count M p = 1)"

definition heap_ok :: "heap \<Rightarrow> bool" where
  "heap_ok h \<longleftrightarrow>
     pages h 0 = Some zero_bytes \<and>
     (\<forall>a bs. pages h a = Some bs \<longrightarrow> length bs = PAGE \<and> a < next_addr h) \<and>
     (\<forall>r n. counts h r = Some n \<longrightarrow> r < next_addr h)"

definition alloc_ok :: "heap \<Rightarrow> kernel_page multiset \<Rightarrow> bool" where
  "alloc_ok h M \<longleftrightarrow>
     (\<forall>a. pages h a \<noteq> None \<longleftrightarrow> a = 0 \<or> (\<exists>p. p \<in># M \<and> content p = a)) \<and>
     (\<forall>p r. p \<in># M \<longrightarrow> reference_count p = Some r \<longrightarrow> counts h r = Some (count M p)) \<and>
     (\<forall>r. counts h r \<noteq> None \<longrightarrow> (\<exists>p. p \<in># M \<and> reference_count p = Some r))"

definition kp_inv :: "heap \<Rightarrow> kernel_page multiset \<Rightarrow> bool" where
  "kp_inv h M \<longleftrightarrow> refs_ok M \<and> heap_ok h \<and> alloc_ok h M"

lemma refs_okI:
  assumes "\<And>p q. p \<in># M \<Longrightarrow> q \<in># M \<Longrightarrow> content p = content q \<Longrightarrow> p = q"
    and "\<And>p q r. p \<in># M \<Longrightarrow> q \<in># M \<Longrightarrow> reference_count p = Some r \<Longrightarrow> reference_count q = Some r \<Longrightarrow> p = q"
    and "\<And>p. p \<in># M \<Longrightarrow> content p = 0 \<Longrightarrow> reference_count p = None"
    and "\<And>p. p \<in># M \<Longrightarrow> content p \<noteq> 0 \<Longrightarrow> reference_count p = None \<Longrightarrow> count M p = 1"
  shows "refs_ok M"
  unfolding refs_ok_def using assms by blast

lemma refs_okD:
  assumes "refs_ok M" "p \<in># M"
  shows "q \<in># M \<Longrightarrow> content p = content q \<Longrightarrow> p = q"
    and "q \<in># M \<Longrightarrow> reference_count p = Some r \<Longrightarrow> reference_count q = Some r \<Longrightarrow> p = q"
    and "content p = 0 \<Longrightarrow> reference_count p = None"
    and "content p \<noteq> 0 \<Longrightarrow> reference_count p = None \<Longrightarrow> count M p = 1"
  using assms unfolding refs_ok_def by blast+

lemma alloc_okD:
  assumes "alloc_ok h M"
  shows "pages h a \<noteq> None \<longleftrightarrow> a = 0 \<or> (\<exists>p. p \<in># M \<and> content p = a)"
    and "p \<in># M \<Longrightarrow> reference_count p = Some r \<Longrightarrow> counts h r = Some (count M p)"
    and "counts h r \<noteq> None \<Longrightarrow> \<exists>p. p \<in># M \<and> reference_count p = Some r"
  using assms unfolding alloc_ok_def by blast+

text \<open>The bytes a handle shows.\<close>

definition view :: "heap \<Rightarrow> kernel_page \<Rightarrow> bytes" where
  "view h p = (case pages h (content p) of None \<Rightarrow> [] | Some bs \<Rightarrow> bs)"

lemma length_zero_bytes [simp]: "length zero_bytes = PAGE"
  by (simp add: zero_bytes_def)

lemma kp_inv_new: "kp_inv (heap_new fails) {#}"
  by (simp add: kp_inv_def refs_ok_def heap_ok_def alloc_ok_def heap_new_def)

lemma kp_inv_page:
  assumes "kp_inv h M" "p \<in># M"
  shows "pages h (content p) = Some (view h p)" "length (view h p) = PAGE"
proof -
  have "pages h (content p) \<noteq> None" using assms unfolding kp_inv_def alloc_ok_def by blast
  then show "pages h (content p) = Some (view h p)" by (auto simp: view_def)
  then show "length (view h p) = PAGE" using assms(1) unfolding kp_inv_def heap_ok_def by blast
qed

lemma kp_inv_same: "kp_inv h M \<Longrightarrow> p \<in># M \<Longrightarrow> q \<in># M \<Longrightarrow> content p = content q \<Longrightarrow> p = q"
  unfolding kp_inv_def refs_ok_def by blast

lemma kp_inv_count:
  "kp_inv h M \<Longrightarrow> p \<in># M \<Longrightarrow> reference_count p = Some r \<Longrightarrow> counts h r = Some (count M p)"
  unfolding kp_inv_def alloc_ok_def by blast

lemma kp_inv_unique:
  "kp_inv h (add_mset p M) \<Longrightarrow> content p \<noteq> 0 \<Longrightarrow> reference_count p = None \<Longrightarrow>
   p \<notin># M \<and> (\<forall>q. q \<in># M \<longrightarrow> content q \<noteq> content p)"
proof -
  assume inv: "kp_inv h (add_mset p M)" and c: "content p \<noteq> 0" "reference_count p = None"
  have "count (add_mset p M) p = 1"
    using refs_okD(4) [of "add_mset p M" p] inv c unfolding kp_inv_def by simp
  then have "p \<notin># M" by (simp add: count_eq_zero_iff)
  moreover have "content q \<noteq> content p" if "q \<in># M" for q
    using kp_inv_same [OF inv, of p q] that \<open>p \<notin># M\<close> by auto
  ultimately show ?thesis by blast
qed

lemma is_zero_page_iff: "kp_inv h M \<Longrightarrow> p \<in># M \<Longrightarrow> is_zero_page p \<longleftrightarrow> content p = 0"
  using refs_okD(3) [of M p] unfolding kp_inv_def is_zero_page_def by (cases "reference_count p") auto

lemma kp_inv_oom [simp]: "kp_inv (h\<lparr>oom := fs\<rparr>) M \<longleftrightarrow> kp_inv h M"
  by (simp add: kp_inv_def heap_ok_def alloc_ok_def)

lemma view_oom [simp]: "view (h\<lparr>oom := fs\<rparr>) p = view h p"
  by (simp add: view_def)

lemma kp_inv_zeroed: "kp_inv h M \<Longrightarrow> kp_inv h (add_mset zeroed M)"
  unfolding kp_inv_def
proof (elim conjE, intro conjI)
  assume r: "refs_ok M" and a: "alloc_ok h M"
  have z: "q = zeroed" if "q \<in># M" "content q = 0" for q
    using refs_okD(3) [OF r that] that by (simp add: zeroed_def)
  show "refs_ok (add_mset zeroed M)"
    by (rule refs_okI) (use r z refs_okD [OF r] in \<open>auto simp: zeroed_def\<close>)
  show "alloc_ok h (add_mset zeroed M)"
    using a by (auto simp: alloc_ok_def zeroed_def)
qed

lemma may_alloc_cases:
  obtains fs where "may_alloc h = (Ok (), h\<lparr>oom := fs\<rparr>)"
  | fs where "may_alloc h = (Err NoMem, h\<lparr>oom := fs\<rparr>)"
proof (cases "oom h")
  case Nil
  have "h = h\<lparr>oom := []\<rparr>" using Nil by simp
  with Nil that(1) [of "[]"] show ?thesis by (simp add: may_alloc_def)
next
  case (Cons f fs)
  with that show ?thesis by (cases f) (simp_all add: may_alloc_def)
qed

lemma alloc_page_cases:
  obtains fs where "alloc_page bs h = (Ok (next_addr h),
      h\<lparr>oom := fs, pages := (pages h)(next_addr h \<mapsto> bs), next_addr := next_addr h + 1\<rparr>)"
  | fs where "alloc_page bs h = (Err NoMem, h\<lparr>oom := fs\<rparr>)"
  by (rule may_alloc_cases [of h]) (auto simp: alloc_page_def sbind_eqs that)

lemma alloc_count_cases:
  obtains fs where "alloc_count n h = (Ok (next_addr h),
      h\<lparr>oom := fs, counts := (counts h)(next_addr h \<mapsto> n), next_addr := next_addr h + 1\<rparr>)"
  | fs where "alloc_count n h = (Err NoMem, h\<lparr>oom := fs\<rparr>)"
  by (rule may_alloc_cases [of h]) (auto simp: alloc_count_def sbind_eqs that)

subsection \<open>Dropping a handle\<close>

text \<open>A handle that is not the last one of its page goes away.\<close>

lemma refs_ok_remove: "refs_ok (add_mset p M) \<Longrightarrow> refs_ok M"
proof -
  assume r: "refs_ok (add_mset p M)"
  have "count M q = 1" if "q \<in># M" "content q \<noteq> 0" "reference_count q = None" for q
  proof -
    have "count (add_mset p M) q = 1" using refs_okD(4) [OF r, of q] that by simp
    moreover have "count M q \<noteq> 0" using that(1) by (metis not_in_iff)
    ultimately show ?thesis
      by (metis One_nat_def count_add_mset nat.inject)
  qed
  note single = this
  show ?thesis
  proof (rule refs_okI)
    fix x y assume "x \<in># M" "y \<in># M" "content x = content y"
    then show "x = y" using refs_okD(1) [OF r, of x y] by simp
  next
    fix x y n assume "x \<in># M" "y \<in># M" "reference_count x = Some n" "reference_count y = Some n"
    then show "x = y" using refs_okD(2) [OF r, of x y n] by simp
  next
    fix x assume "x \<in># M" "content x = 0"
    then show "reference_count x = None" using refs_okD(3) [OF r, of x] by simp
  qed (rule single)
qed

lemma alloc_ok_remove:
  assumes a: "alloc_ok h (add_mset p M)" and c: "content p = 0 \<or> p \<in># M"
    and n: "\<And>r. reference_count p = Some r \<Longrightarrow> counts h' r = Some (count M p)"
    and same: "pages h' = pages h" "\<And>r. reference_count p \<noteq> Some r \<Longrightarrow> counts h' r = counts h r"
    and refs: "refs_ok (add_mset p M)"
  shows "alloc_ok h' M"
  unfolding alloc_ok_def
proof (intro conjI allI impI)
  fix x
  show "pages h' x \<noteq> None \<longleftrightarrow> x = 0 \<or> (\<exists>p. p \<in># M \<and> content p = x)"
    using alloc_okD(1) [OF a, of x] c same(1) by auto
next
  fix q r assume q: "q \<in># M" "reference_count q = Some r"
  show "counts h' r = Some (count M q)"
  proof (cases "reference_count p = Some r")
    case True
    then have "p = q" using refs_okD(2) [OF refs, of p q r] q by simp
    with n True show ?thesis by simp
  next
    case False
    then have "p \<noteq> q" using q by auto
    then have "counts h r = Some (count M q)" using alloc_okD(2) [OF a, of q r] q by simp
    with same(2) [OF False] show ?thesis by simp
  qed
next
  fix r assume "counts h' r \<noteq> None"
  show "\<exists>q. q \<in># M \<and> reference_count q = Some r"
  proof (cases "reference_count p = Some r")
    case True
    then have "content p \<noteq> 0" using refs_okD(3) [OF refs, of p] by auto
    with c True show ?thesis by auto
  next
    case False
    with same(2) [OF False] \<open>counts h' r \<noteq> None\<close> alloc_okD(3) [OF a, of r] show ?thesis by auto
  qed
qed

lemma kp_inv_drop_zero: "kp_inv h (add_mset p M) \<Longrightarrow> content p = 0 \<Longrightarrow> kp_inv h M"
proof -
  assume inv: "kp_inv h (add_mset p M)" and c: "content p = 0"
  then have n: "reference_count p = None" using refs_okD(3) [of "add_mset p M" p] by (simp add: kp_inv_def)
  have "alloc_ok h M"
    by (rule alloc_ok_remove [of h p M h]) (use inv c n in \<open>auto simp: kp_inv_def\<close>)
  with inv refs_ok_remove show ?thesis unfolding kp_inv_def by blast
qed

text \<open>The last handle of a page goes away with it.\<close>

lemma alloc_ok_free:
  assumes a: "alloc_ok h (add_mset p M)" and c: "content p \<noteq> 0" "p \<notin># M"
    and refs: "refs_ok (add_mset p M)"
    and h': "pages h' = (pages h)(content p := None)"
      "counts h' = (case reference_count p of None \<Rightarrow> counts h | Some r \<Rightarrow> (counts h)(r := None))"
  shows "alloc_ok h' M"
  unfolding alloc_ok_def
proof (intro conjI allI impI)
  have other: "content q \<noteq> content p" "reference_count p = Some r \<Longrightarrow> reference_count q \<noteq> Some r"
    if "q \<in># M" for q r
    using that c(2) refs_okD(1) [OF refs, of p q] refs_okD(2) [OF refs, of p q r] by auto
  fix x
  show "pages h' x \<noteq> None \<longleftrightarrow> x = 0 \<or> (\<exists>p. p \<in># M \<and> content p = x)"
    using alloc_okD(1) [OF a, of x] c other(1) h'(1) by auto
  show "counts h' x \<noteq> None \<Longrightarrow> \<exists>q. q \<in># M \<and> reference_count q = Some x"
    using alloc_okD(3) [OF a, of x] h'(2) by (auto split: option.splits if_splits)
  fix q assume q: "q \<in># M" "reference_count q = Some x"
  then have "counts h x = Some (count M q)" "reference_count p \<noteq> Some x"
    using alloc_okD(2) [OF a, of q x] other(2) [OF q(1), of x] q c(2) by auto
  then show "counts h' x = Some (count M q)"
    using h'(2) by (auto split: option.splits)
qed

lemma drop_page_spec:
  assumes inv: "kp_inv h (add_mset p M)"
  shows "\<exists>h'. drop_page p h = (Ok (), h') \<and> kp_inv h' M \<and> (\<forall>q. q \<in># M \<longrightarrow> view h' q = view h q) \<and>
    next_addr h' = next_addr h"
proof (cases "content p = 0")
  case True
  then show ?thesis
    using kp_inv_drop_zero [OF inv] is_zero_page_iff [OF inv] by (simp add: drop_page_def)
next
  case nz: False
  have z: "\<not> is_zero_page p" using nz is_zero_page_iff [OF inv] by simp
  have r: "refs_ok (add_mset p M)" and hp: "heap_ok h" and a: "alloc_ok h (add_mset p M)"
    using inv by (auto simp: kp_inv_def)
  have pg: "pages h (content p) \<noteq> None" using kp_inv_page [OF inv, of p] by simp
  show ?thesis
  proof (cases "p \<in># M")
    case True
    then obtain n where rc: "reference_count p = Some n"
      using kp_inv_unique [OF inv nz] by (cases "reference_count p") auto
    have cnt: "counts h n = Some (count M p + 1)" using kp_inv_count [OF inv _ rc] by simp
    let ?h = "h\<lparr>counts := (counts h)(n \<mapsto> count M p)\<rparr>"
    have "drop_page p h = (Ok (), ?h)"
      using z rc cnt True by (simp add: drop_page_def sbind_def load_count_def store_count_def)
    moreover have "alloc_ok ?h M"
      by (rule alloc_ok_remove [OF a]) (use True rc r in auto)
    moreover have "heap_ok ?h" using hp cnt by (auto simp: heap_ok_def)
    ultimately show ?thesis using refs_ok_remove [OF r] by (simp add: kp_inv_def view_def)
  next
    case False
    let ?h = "h\<lparr>pages := (pages h)(content p := None),
      counts := (case reference_count p of None \<Rightarrow> counts h | Some r \<Rightarrow> (counts h)(r := None))\<rparr>"
    have "count M p = 0" using False by (simp add: count_eq_zero_iff)
    then have "counts h n = Some 1" if "reference_count p = Some n" for n
      using kp_inv_count [OF inv _ that] by simp
    then have "drop_page p h = (Ok (), ?h)"
      using z pg by (cases "reference_count p") (simp_all add: drop_page_def sbind_def
          load_count_def store_count_def dealloc_count_def dealloc_page_def)
    moreover have "alloc_ok ?h M"
      by (rule alloc_ok_free [OF a nz False r]) simp_all
    moreover have "heap_ok ?h" using hp nz by (auto simp: heap_ok_def split: option.splits if_splits)
    moreover have "view ?h q = view h q" if "q \<in># M" for q
      using kp_inv_same [OF inv, of p q] that False by (auto simp: view_def)
    ultimately show ?thesis using refs_ok_remove [OF r] by (simp add: kp_inv_def)
  qed
qed

subsection \<open>New pages and writes\<close>

lemma kp_inv_fresh:
  assumes "kp_inv h M"
  shows "pages h (next_addr h) = None" "counts h (next_addr h) = None" "0 < next_addr h"
    "q \<in># M \<Longrightarrow> content q < next_addr h" "q \<in># M \<Longrightarrow> reference_count q = Some r \<Longrightarrow> r < next_addr h"
proof -
  have hp: "heap_ok h" using assms by (simp add: kp_inv_def)
  show "pages h (next_addr h) = None" "counts h (next_addr h) = None" "0 < next_addr h"
    using hp unfolding heap_ok_def by (cases "pages h (next_addr h)"; cases "counts h (next_addr h)"; auto)+
  show "q \<in># M \<Longrightarrow> content q < next_addr h"
    using kp_inv_page [OF assms, of q] hp unfolding heap_ok_def by blast
  show "q \<in># M \<Longrightarrow> reference_count q = Some r \<Longrightarrow> r < next_addr h"
    using kp_inv_count [OF assms, of q r] hp unfolding heap_ok_def by blast
qed

lemma refs_ok_add_single:
  assumes r: "refs_ok M" and c: "content p \<noteq> 0" "\<And>q. q \<in># M \<Longrightarrow> content q \<noteq> content p"
    "reference_count p = None"
  shows "refs_ok (add_mset p M)"
proof -
  have p: "p \<notin># M" using c(2) by blast
  show ?thesis
  proof (rule refs_okI)
    fix x y assume "x \<in># add_mset p M" "y \<in># add_mset p M" "content x = content y"
    then show "x = y" using c(2) [of x] c(2) [of y] refs_okD(1) [OF r, of x y] by auto
  next
    fix x y n
    assume "x \<in># add_mset p M" "y \<in># add_mset p M" "reference_count x = Some n" "reference_count y = Some n"
    then show "x = y" using c(3) refs_okD(2) [OF r, of x y n] by auto
  next
    fix x assume "x \<in># add_mset p M" "content x = 0"
    then show "reference_count x = None" using c(3) refs_okD(3) [OF r, of x] by auto
  next
    fix x assume "x \<in># add_mset p M" "content x \<noteq> 0" "reference_count x = None"
    then show "count (add_mset p M) x = 1"
      using p refs_okD(4) [OF r, of x] by (auto simp: count_eq_zero_iff)
  qed
qed

lemma kp_inv_alloc:
  assumes inv: "kp_inv h M" and bs: "length bs = PAGE"
    and h'_def: "h' = h\<lparr>oom := fs, pages := (pages h)(next_addr h \<mapsto> bs), next_addr := next_addr h + 1\<rparr>"
    and p_def: "p = \<lparr>content = next_addr h, reference_count = None\<rparr>"
  shows "kp_inv h' (add_mset p M)" "view h' p = bs" "q \<in># M \<Longrightarrow> view h' q = view h q"
proof -
  note fresh = kp_inv_fresh [OF inv]
  have parts: "refs_ok M" "heap_ok h" "alloc_ok h M" using inv by (auto simp: kp_inv_def)
  have "refs_ok (add_mset p M)"
    by (rule refs_ok_add_single [OF parts(1)]) (use fresh(3,4) in \<open>force simp: p_def\<close>)+
  moreover have "heap_ok h'"
    using parts(2) fresh(3) bs unfolding heap_ok_def h'_def by (auto intro: less_SucI)
  moreover have "alloc_ok h' (add_mset p M)"
    unfolding alloc_ok_def
  proof (intro conjI allI impI)
    fix a
    show "pages h' a \<noteq> None \<longleftrightarrow> a = 0 \<or> (\<exists>x. x \<in># add_mset p M \<and> content x = a)"
      using alloc_okD(1) [OF parts(3), of a] by (auto simp: h'_def p_def)
    show "counts h' a \<noteq> None \<Longrightarrow> \<exists>x. x \<in># add_mset p M \<and> reference_count x = Some a"
      using alloc_okD(3) [OF parts(3), of a] by (auto simp: h'_def)
    fix x assume "x \<in># add_mset p M" "reference_count x = Some a"
    then show "counts h' a = Some (count (add_mset p M) x)"
      using alloc_okD(2) [OF parts(3), of x a] by (auto simp: h'_def p_def)
  qed
  ultimately show "kp_inv h' (add_mset p M)" by (simp add: kp_inv_def)
  show "view h' p = bs" by (simp add: view_def h'_def p_def)
  show "q \<in># M \<Longrightarrow> view h' q = view h q" using fresh(4) [of q] by (auto simp: view_def h'_def)
qed

lemma kp_inv_store:
  assumes inv: "kp_inv h M" and p: "p \<in># M" "content p \<noteq> 0" and bs: "length bs = PAGE"
  shows "store_page (content p) bs h = (Ok (), h\<lparr>pages := (pages h)(content p \<mapsto> bs)\<rparr>)"
    and "kp_inv (h\<lparr>pages := (pages h)(content p \<mapsto> bs)\<rparr>) M"
proof -
  let ?h = "h\<lparr>pages := (pages h)(content p \<mapsto> bs)\<rparr>"
  note pg = kp_inv_page [OF inv p(1)]
  show "store_page (content p) bs h = (Ok (), ?h)" using pg by (simp add: store_page_def)
  have parts: "refs_ok M" "heap_ok h" "alloc_ok h M" using inv by (auto simp: kp_inv_def)
  have "heap_ok ?h" using parts(2) p bs pg unfolding heap_ok_def by auto
  moreover have "pages ?h a \<noteq> None \<longleftrightarrow> pages h a \<noteq> None" for a using pg by auto
  then have "alloc_ok ?h M" using parts(3) unfolding alloc_ok_def by simp
  ultimately show "kp_inv ?h M" using parts(1) by (simp add: kp_inv_def)
qed

subsection \<open>Making a page mutable\<close>

lemma copy_page_cases:
  assumes inv: "kp_inv h (add_mset p M)"
  obtains h' p' where "copy_page p h = (Ok p', h')" "kp_inv h' (add_mset p' M)" "content p' \<noteq> 0"
    "reference_count p' = None" "view h' p' = view h p" "\<And>q. q \<in># M \<Longrightarrow> view h' q = view h q"
  | fs where "copy_page p h = (Err NoMem, h\<lparr>oom := fs\<rparr>)"
proof (rule alloc_page_cases [of "view h p" h])
  have pg: "pages h (content p) = Some (view h p)" "length (view h p) = PAGE"
    using kp_inv_page [OF inv, of p] by simp_all
  fix fs
  let ?h1 = "h\<lparr>oom := fs, pages := (pages h)(next_addr h \<mapsto> view h p), next_addr := next_addr h + 1\<rparr>"
  let ?p = "\<lparr>content = next_addr h, reference_count = None\<rparr>"
  assume al: "alloc_page (view h p) h = (Ok (next_addr h), ?h1)"
  note a = kp_inv_alloc [OF inv pg(2) refl refl, where fs = fs]
  then have "kp_inv ?h1 (add_mset p (add_mset ?p M))" by (simp add: add_mset_commute)
  from drop_page_spec [OF this] obtain h' where
    d: "drop_page p ?h1 = (Ok (), h')" "kp_inv h' (add_mset ?p M)"
      "\<forall>q. q \<in># add_mset ?p M \<longrightarrow> view h' q = view ?h1 q" by blast
  have c: "copy_page p h = (Ok ?p, h')"
    using pg al d(1) by (simp add: copy_page_def sbind_def load_page_def)
  have "content ?p \<noteq> 0" using kp_inv_fresh(3) [OF inv] by simp
  moreover have "view h' ?p = view h p" "\<And>q. q \<in># M \<Longrightarrow> view h' q = view h q"
    using d(3) a(2,3) by simp_all
  ultimately show ?thesis using c d(2) by (intro that(1) [of ?p h']) simp_all
next
  fix fs assume "alloc_page (view h p) h = (Err NoMem, h\<lparr>oom := fs\<rparr>)"
  with kp_inv_page [OF inv, of p] that(2) show ?thesis
    by (simp add: copy_page_def sbind_def load_page_def)
qed

text \<open>The last handle of a counted page takes the page over.\<close>

lemma kp_inv_take_over:
  assumes inv: "kp_inv h (add_mset p M)" and rc: "reference_count p = Some r" and p: "p \<notin># M"
  shows "kp_inv (h\<lparr>counts := (counts h)(r := None)\<rparr>) (add_mset (p\<lparr>reference_count := None\<rparr>) M)"
    (is "kp_inv ?h (add_mset ?p M)")
proof -
  have parts: "refs_ok (add_mset p M)" "heap_ok h" "alloc_ok h (add_mset p M)"
    using inv by (auto simp: kp_inv_def)
  have other: "content q \<noteq> content p" "reference_count q \<noteq> Some r" "q \<noteq> ?p" if "q \<in># M" for q
    using that p rc refs_okD(1) [OF parts(1), of p q] refs_okD(2) [OF parts(1), of p q r] by auto
  have nz: "content p \<noteq> 0" using refs_okD(3) [OF parts(1), of p] rc by auto
  have "refs_ok (add_mset ?p M)"
    by (rule refs_ok_add_single [OF refs_ok_remove [OF parts(1)]]) (use nz other(1) in auto)
  moreover have "heap_ok ?h" using parts(2) unfolding heap_ok_def by auto
  moreover have "alloc_ok ?h (add_mset ?p M)"
    unfolding alloc_ok_def
  proof (intro conjI allI impI)
    fix a
    show "pages ?h a \<noteq> None \<longleftrightarrow> a = 0 \<or> (\<exists>x. x \<in># add_mset ?p M \<and> content x = a)"
      using alloc_okD(1) [OF parts(3), of a] by auto
    show "counts ?h a \<noteq> None \<Longrightarrow> \<exists>x. x \<in># add_mset ?p M \<and> reference_count x = Some a"
      using alloc_okD(3) [OF parts(3), of a] rc by (auto split: if_splits)
    fix x assume x: "x \<in># add_mset ?p M" "reference_count x = Some a"
    then have "x \<in># M" by auto
    then show "counts ?h a = Some (count (add_mset ?p M) x)"
      using alloc_okD(2) [OF parts(3), of x a] x(2) other [of x] p by auto
  qed
  ultimately show ?thesis by (simp add: kp_inv_def)
qed

lemma make_mut_cases:
  assumes inv: "kp_inv h (add_mset p M)"
  obtains h' p' where "make_mut shared p h = (Ok p', h')" "kp_inv h' (add_mset p' M)" "content p' \<noteq> 0"
    "view h' p' = view h p" "\<And>q. q \<in># M \<Longrightarrow> view h' q = view h q"
    "shared \<Longrightarrow> content p \<noteq> 0 \<Longrightarrow> p' = p \<and> h' = h" "\<not> shared \<or> content p = 0 \<Longrightarrow> reference_count p' = None"
  | fs where "make_mut shared p h = (Err NoMem, h\<lparr>oom := fs\<rparr>)"
proof -
  note ok = that(1) and err = that(2)
  have z: "is_zero_page p \<longleftrightarrow> content p = 0" using is_zero_page_iff [OF inv] by simp
  have copy: thesis if m: "make_mut shared p h = copy_page p h" "\<not> shared \<or> content p = 0"
  proof (rule copy_page_cases [OF inv])
    fix h' p'
    assume "copy_page p h = (Ok p', h')" "kp_inv h' (add_mset p' M)" "content p' \<noteq> 0"
      "reference_count p' = None" "view h' p' = view h p" "\<And>q. q \<in># M \<Longrightarrow> view h' q = view h q"
    with m show thesis by (intro ok [of p' h']) auto
  next
    fix fs assume "copy_page p h = (Err NoMem, h\<lparr>oom := fs\<rparr>)"
    with m err show thesis by simp
  qed
  have keep: thesis if "make_mut shared p h = (Ok p, h)" "content p \<noteq> 0"
      "\<not> shared \<Longrightarrow> reference_count p = None"
    by (rule ok [OF that(1) inv]) (use that in auto)
  show thesis
  proof (cases "reference_count p")
    case None
    with keep copy z show thesis by (cases "content p = 0") (simp_all add: make_mut_def)
  next
    case (Some r)
    then have nz: "content p \<noteq> 0" using z by (simp add: is_zero_page_def)
    have cnt: "counts h r = Some (count M p + 1)" using kp_inv_count [OF inv _ Some] by simp
    show thesis
    proof (cases "shared \<or> count M p \<noteq> 0")
      case True
      with keep copy nz z Some cnt show thesis
        by (cases shared) (simp_all add: make_mut_def sbind_def load_count_def count_eq_zero_iff)
    next
      case False
      let ?h = "h\<lparr>counts := (counts h)(r := None)\<rparr>" and ?p = "p\<lparr>reference_count := None\<rparr>"
      have m: "make_mut shared p h = (Ok ?p, ?h)"
        using False nz z Some cnt
        by (simp add: make_mut_def sbind_def load_count_def dealloc_count_def)
      have "p \<notin># M" using False by (simp add: count_eq_zero_iff)
      from kp_inv_take_over [OF inv Some this] False nz show thesis
        by (intro ok [OF m]) (auto simp: view_def)
    qed
  qed
qed

subsection \<open>Cloning a handle\<close>

text \<open>A page without a count gets one, of two handles.\<close>

lemma kp_inv_clone_new:
  assumes inv: "kp_inv h (add_mset p M)" and rc: "reference_count p = None" and nz: "content p \<noteq> 0"
    and a: "a = next_addr h" and p': "p' = p\<lparr>reference_count := Some a\<rparr>"
    and h': "h' = h\<lparr>oom := fs, counts := (counts h)(a \<mapsto> 2), next_addr := a + 1\<rparr>"
  shows "kp_inv h' (add_mset p' (add_mset p' M))"
proof -
  have parts: "refs_ok (add_mset p M)" "heap_ok h" "alloc_ok h (add_mset p M)"
    using inv by (auto simp: kp_inv_def)
  note fresh = kp_inv_fresh [OF inv]
  have M: "refs_ok M" using refs_ok_remove [OF parts(1)] .
  have other: "content q \<noteq> content p" "reference_count q \<noteq> Some a" "q \<noteq> p'" "q \<noteq> p" if "q \<in># M" for q
    using that kp_inv_unique [OF inv nz rc] fresh(5) [of q a] a p' by auto
  have p'0: "count M p' = 0" using other(3) [of p'] by (auto simp: count_eq_zero_iff)
  let ?M = "add_mset p' (add_mset p' M)"
  have "refs_ok ?M"
  proof (rule refs_okI)
    fix x y assume "x \<in># ?M" "y \<in># ?M" "content x = content y"
    then show "x = y" using other(1) [of x] other(1) [of y] p' refs_okD(1) [OF M, of x y] by auto
  next
    fix x y n assume "x \<in># ?M" "y \<in># ?M" "reference_count x = Some n" "reference_count y = Some n"
    then show "x = y" using other(2) [of x] other(2) [of y] p' refs_okD(2) [OF M, of x y n] by auto
  next
    fix x assume "x \<in># ?M" "content x = 0"
    then show "reference_count x = None" using nz p' refs_okD(3) [OF M, of x] by auto
  next
    fix x assume "x \<in># ?M" "content x \<noteq> 0" "reference_count x = None"
    then show "count ?M x = 1" using p' refs_okD(4) [OF M, of x] by auto
  qed
  moreover have "heap_ok h'"
    using parts(2) unfolding heap_ok_def h' a by (auto intro: less_SucI)
  moreover have "alloc_ok h' ?M"
    unfolding alloc_ok_def
  proof (intro conjI allI impI)
    fix c
    show "pages h' c \<noteq> None \<longleftrightarrow> c = 0 \<or> (\<exists>x. x \<in># ?M \<and> content x = c)"
      using alloc_okD(1) [OF parts(3), of c] p' by (auto simp: h')
    show "counts h' c \<noteq> None \<Longrightarrow> \<exists>x. x \<in># ?M \<and> reference_count x = Some c"
      using alloc_okD(3) [OF parts(3), of c] rc p' by (auto simp: h' split: if_splits)
    fix x assume x: "x \<in># ?M" "reference_count x = Some c"
    show "counts h' c = Some (count ?M x)"
      using alloc_okD(2) [OF parts(3), of x c] x other(2-4) [of x] p' p'0 by (auto simp: h')
  qed
  ultimately show ?thesis by (simp add: kp_inv_def)
qed

text \<open>A counted page has one more handle.\<close>

lemma kp_inv_clone_more:
  assumes inv: "kp_inv h (add_mset p M)" and rc: "reference_count p = Some r"
  shows "kp_inv (h\<lparr>counts := (counts h)(r \<mapsto> count M p + 2)\<rparr>) (add_mset p (add_mset p M))"
    (is "kp_inv ?h ?M")
proof -
  have parts: "refs_ok (add_mset p M)" "heap_ok h" "alloc_ok h (add_mset p M)"
    using inv by (auto simp: kp_inv_def)
  have cnt: "counts h r = Some (count M p + 1)" using kp_inv_count [OF inv _ rc] by simp
  have set: "set_mset ?M = set_mset (add_mset p M)" by simp
  have "refs_ok ?M"
  proof (rule refs_okI, unfold set)
    fix x y assume "x \<in># add_mset p M" "y \<in># add_mset p M" "content x = content y"
    then show "x = y" by (rule refs_okD(1) [OF parts(1)])
  next
    fix x y n
    assume "x \<in># add_mset p M" "y \<in># add_mset p M" "reference_count x = Some n" "reference_count y = Some n"
    then show "x = y" by (rule refs_okD(2) [OF parts(1)])
  next
    fix x assume "x \<in># add_mset p M" "content x = 0"
    then show "reference_count x = None" by (rule refs_okD(3) [OF parts(1)])
  next
    fix x assume x: "x \<in># add_mset p M" "content x \<noteq> 0" "reference_count x = None"
    then have "x \<noteq> p" using rc by auto
    then show "count ?M x = 1" using refs_okD(4) [OF parts(1) x] by simp
  qed
  moreover have "heap_ok ?h" using parts(2) cnt unfolding heap_ok_def by auto
  moreover have "alloc_ok ?h ?M"
    unfolding alloc_ok_def
  proof (intro conjI allI impI)
    fix c
    show "pages ?h c \<noteq> None \<longleftrightarrow> c = 0 \<or> (\<exists>x. x \<in># ?M \<and> content x = c)"
      using alloc_okD(1) [OF parts(3), of c] by auto
    show "counts ?h c \<noteq> None \<Longrightarrow> \<exists>x. x \<in># ?M \<and> reference_count x = Some c"
      using alloc_okD(3) [OF parts(3), of c] rc by (auto split: if_splits)
    fix x assume x: "x \<in># ?M" "reference_count x = Some c"
    then have "c = r \<longleftrightarrow> x = p" using refs_okD(2) [OF parts(1), of x p r] rc by auto
    then show "counts ?h c = Some (count ?M x)"
      using alloc_okD(2) [OF parts(3), of x c] x by auto
  qed
  ultimately show ?thesis by (simp add: kp_inv_def)
qed

lemma clone_cases:
  assumes inv: "kp_inv h (add_mset p M)"
  obtains h' p' where "clone p h = (Ok (p', p'), h')" "kp_inv h' (add_mset p' (add_mset p' M))"
    "content p' = content p" "pages h' = pages h"
  | fs where "clone p h = (Err NoMem, h\<lparr>oom := fs\<rparr>)"
proof -
  note ok = that(1) and err = that(2)
  have z: "is_zero_page p \<longleftrightarrow> content p = 0" using is_zero_page_iff [OF inv] by simp
  show thesis
  proof (cases "content p = 0")
    case True
    then have p: "p = zeroed" using z by (simp add: is_zero_page_def zeroed_def split: if_splits)
    have "clone p h = (Ok (p, p), h)" using z True by (simp add: clone_def)
    with kp_inv_zeroed [OF inv] p ok [of p h] show thesis by simp
  next
    case nz: False
    show thesis
    proof (cases "reference_count p")
      case (Some r)
      let ?h = "h\<lparr>counts := (counts h)(r \<mapsto> count M p + 2)\<rparr>"
      have cnt: "counts h r = Some (count M p + 1)" using kp_inv_count [OF inv _ Some] by simp
      have "p\<lparr>reference_count := Some r\<rparr> = p" using Some by simp
      then have "clone p h = (Ok (p, p), ?h)"
        using z nz Some cnt
        by (simp add: clone_def sbind_def load_count_def store_count_def Let_def)
      with kp_inv_clone_more [OF inv Some] ok [of p ?h] show thesis by simp
    next
      case None
      let ?p = "p\<lparr>reference_count := Some (next_addr h)\<rparr>"
      show thesis
      proof (rule alloc_count_cases [of 1 h])
        fix fs
        let ?h = "h\<lparr>oom := fs, counts := (counts h)(next_addr h \<mapsto> 2), next_addr := next_addr h + 1\<rparr>"
        assume "alloc_count 1 h = (Ok (next_addr h), h\<lparr>oom := fs,
          counts := (counts h)(next_addr h \<mapsto> 1), next_addr := next_addr h + 1\<rparr>)"
        then have "clone p h = (Ok (?p, ?p), ?h)"
          using z nz None
          by (simp add: clone_def sbind_def load_count_def store_count_def Let_def numeral_2_eq_2)
        with kp_inv_clone_new [OF inv None nz refl refl refl] ok [of ?p ?h] show thesis by simp
      next
        fix fs assume "alloc_count 1 h = (Err NoMem, h\<lparr>oom := fs\<rparr>)"
        with err z nz None show thesis by (simp add: clone_def sbind_def)
      qed
    qed
  qed
qed

subsection \<open>Zeroing a range and writing to a page\<close>

lemma zero_range_cases:
  assumes inv: "kp_inv h (add_mset p M)" and r: "e \<le> PAGE"
  obtains h' p' where "zero_range (s, e) shared p h = (Ok p', h')" "kp_inv h' (add_mset p' M)"
    "view h' p' = (if s < e then overlay (view h p) s (replicate (e - s) 0) else view h p)"
    "\<And>q. q \<in># M \<Longrightarrow> content q \<noteq> content p' \<Longrightarrow> view h' q = view h q"
    "content p \<noteq> 0 \<Longrightarrow> shared \<Longrightarrow> p' = p"
    "content p = 0 \<Longrightarrow> p' = p"
    "content p \<noteq> 0 \<Longrightarrow> content p' \<noteq> 0"
    "\<And>q. \<not> shared \<Longrightarrow> q \<in># M \<Longrightarrow> view h' q = view h q"
  | fs where "zero_range (s, e) shared p h = (Err NoMem, h\<lparr>oom := fs\<rparr>)"
proof -
  note ok = that(1) and err = that(2)
  have z: "is_zero_page p \<longleftrightarrow> content p = 0" using is_zero_page_iff [OF inv] by simp
  have zb: "view h p = zero_bytes" if "content p = 0"
    using that inv by (simp add: view_def kp_inv_def heap_ok_def)
  have zo: "overlay zero_bytes s (replicate (e - s) 0) = zero_bytes" if "s < e"
    using that r by (simp add: overlay_def zero_bytes_def flip: replicate_add)
  show thesis
  proof (cases "s < e \<and> content p \<noteq> 0")
    case False
    then have "zero_range (s, e) shared p h = (Ok p, h)" using z by (auto simp: zero_range_def)
    then show thesis by (rule ok) (use inv False zb zo in auto)
  next
    case True
    show thesis
    proof (rule make_mut_cases [OF inv, of shared])
      fix h1 p'
      assume m: "make_mut shared p h = (Ok p', h1)" "kp_inv h1 (add_mset p' M)" "content p' \<noteq> 0"
        "view h1 p' = view h p" "\<And>q. q \<in># M \<Longrightarrow> view h1 q = view h q"
        "shared \<Longrightarrow> content p \<noteq> 0 \<Longrightarrow> p' = p \<and> h1 = h"
        "\<not> shared \<or> content p = 0 \<Longrightarrow> reference_count p' = None"
      let ?bs = "overlay (view h p) s (replicate (e - s) 0)"
      let ?h = "h1\<lparr>pages := (pages h1)(content p' \<mapsto> ?bs)\<rparr>"
      have pg: "pages h1 (content p') = Some (view h p)" "length ?bs = PAGE"
        using kp_inv_page [OF m(2), of p'] m(4) True r by simp_all
      note st = kp_inv_store [OF m(2) _ m(3) pg(2), simplified]
      have "zero_range (s, e) shared p h = (Ok p', ?h)"
        using True z r m(1) pg st(1) by (simp add: zero_range_def sbind_def index_def load_page_def)
      moreover have "content q \<noteq> content p'" if "\<not> shared" "q \<in># M" for q
        using kp_inv_unique [OF m(2,3)] m(7) that by auto
      ultimately show thesis
        by (intro ok [of p' ?h]) (use st(2) m(1-6) True in \<open>auto simp: view_def\<close>)
    next
      fix fs assume "make_mut shared p h = (Err NoMem, h\<lparr>oom := fs\<rparr>)"
      with err True z show thesis by (simp add: zero_range_def sbind_def)
    qed
  qed
qed

lemma write_slice_spec:
  assumes inv: "kp_inv h M" and p: "p \<in># M" "content p \<noteq> 0" and r: "s + length src \<le> PAGE"
  obtains h' where "write_slice p s src h = (Ok (), h')" "kp_inv h' M"
    "view h' p = overlay (view h p) s src" "next_addr h' = next_addr h"
    "\<And>q. content q \<noteq> content p \<Longrightarrow> view h' q = view h q"
proof -
  let ?bs = "overlay (view h p) s src"
  note pg = kp_inv_page [OF inv p(1)]
  have "length ?bs = PAGE" using pg(2) r by simp
  note st = kp_inv_store [OF inv p this]
  have "write_slice p s src h = (Ok (), h\<lparr>pages := (pages h)(content p \<mapsto> ?bs)\<rparr>)"
    using pg st(1) by (simp add: write_slice_def sbind_def load_page_def)
  then show thesis by (rule that) (use st(2) in \<open>auto simp: view_def\<close>)
qed

section \<open>The life of all pages\<close>

record page_sys =
  sys_heap :: heap
  handles :: "kernel_page multiset"

text \<open>Any sequence of operations on any of the live handles; a failing operation leaves its
  handle as it was. A page is only written to by who made it mutable.\<close>

inductive page_step :: "page_sys \<Rightarrow> page_sys \<Rightarrow> bool" where
  zeroed: "page_step s (s\<lparr>handles := add_mset zeroed (handles s)\<rparr>)"
| clone: "handles s = add_mset p M \<Longrightarrow> clone p (sys_heap s) = (Ok (p', q), h) \<Longrightarrow>
    page_step s \<lparr>sys_heap = h, handles = add_mset p' (add_mset q M)\<rparr>"
| clone_err: "p \<in># handles s \<Longrightarrow> clone p (sys_heap s) = (Err e, h) \<Longrightarrow> page_step s (s\<lparr>sys_heap := h\<rparr>)"
| make_mut: "handles s = add_mset p M \<Longrightarrow> make_mut shared p (sys_heap s) = (Ok p', h) \<Longrightarrow>
    page_step s \<lparr>sys_heap = h, handles = add_mset p' M\<rparr>"
| make_mut_err: "p \<in># handles s \<Longrightarrow> make_mut shared p (sys_heap s) = (Err e, h) \<Longrightarrow>
    page_step s (s\<lparr>sys_heap := h\<rparr>)"
| zero_range: "handles s = add_mset p M \<Longrightarrow> b \<le> PAGE \<Longrightarrow>
    zero_range (a, b) shared p (sys_heap s) = (Ok p', h) \<Longrightarrow>
    page_step s \<lparr>sys_heap = h, handles = add_mset p' M\<rparr>"
| store: "p \<in># handles s \<Longrightarrow> mutable shared p \<Longrightarrow> a + length src \<le> PAGE \<Longrightarrow>
    write_slice p a src (sys_heap s) = (Ok (), h) \<Longrightarrow> page_step s (s\<lparr>sys_heap := h\<rparr>)"
| drop: "handles s = add_mset p M \<Longrightarrow> drop_page p (sys_heap s) = (Ok (), h) \<Longrightarrow>
    page_step s \<lparr>sys_heap = h, handles = M\<rparr>"

definition page_init :: "page_sys \<Rightarrow> bool" where
  "page_init s \<longleftrightarrow> handles s = {#} \<and> sys_heap s = heap_new (oom (sys_heap s))"

definition page_inv :: "page_sys \<Rightarrow> bool" where
  "page_inv s = kp_inv (sys_heap s) (handles s)"

lemma mutable_content: "kp_inv h M \<Longrightarrow> p \<in># M \<Longrightarrow> mutable shared p \<Longrightarrow> content p \<noteq> 0"
  using is_zero_page_iff [of h M p] by (auto simp: mutable_def)

lemma page_step_inv: "page_inv s \<Longrightarrow> page_step s t \<Longrightarrow> page_inv t"
proof (rotate_tac, induction rule: page_step.induct)
  case (zeroed s)
  then show ?case by (simp add: page_inv_def kp_inv_zeroed)
next
  case (clone s p M p' q h)
  then have "kp_inv (sys_heap s) (add_mset p M)" by (simp add: page_inv_def)
  then show ?case by (rule clone_cases) (use clone in \<open>simp_all add: page_inv_def\<close>)
next
  case (clone_err p s e h)
  then obtain M where M: "handles s = add_mset p M" by (meson mset_add)
  with clone_err have "kp_inv (sys_heap s) (add_mset p M)" by (simp add: page_inv_def)
  then show ?case by (rule clone_cases) (use clone_err M in \<open>auto simp: page_inv_def\<close>)
next
  case (make_mut s p M shared p' h)
  then have "kp_inv (sys_heap s) (add_mset p M)" by (simp add: page_inv_def)
  then show ?case by (rule make_mut_cases [where shared = shared]) (use make_mut in \<open>simp_all add: page_inv_def\<close>)
next
  case (make_mut_err p s shared e h)
  then obtain M where M: "handles s = add_mset p M" by (meson mset_add)
  with make_mut_err have "kp_inv (sys_heap s) (add_mset p M)" by (simp add: page_inv_def)
  then show ?case by (rule make_mut_cases [where shared = shared]) (use make_mut_err M in \<open>auto simp: page_inv_def\<close>)
next
  case (zero_range s p M b a shared p' h)
  then have "kp_inv (sys_heap s) (add_mset p M)" by (simp add: page_inv_def)
  from this zero_range(2) show ?case
    by (rule zero_range_cases [where shared = shared and s = a]) (use zero_range in \<open>simp_all add: page_inv_def\<close>)
next
  case (store p s shared a src h)
  then have inv: "kp_inv (sys_heap s) (handles s)" by (simp add: page_inv_def)
  from inv store(1) mutable_content [OF inv store(1,2)] store(3) show ?case
    by (rule write_slice_spec) (use store in \<open>simp_all add: page_inv_def\<close>)
next
  case (drop s p M h)
  then have "kp_inv (sys_heap s) (add_mset p M)" by (simp add: page_inv_def)
  from drop_page_spec [OF this] drop show ?case by (auto simp: page_inv_def)
qed

interpretation kp: step_system page_init page_step page_inv
proof
  fix s assume "page_init s"
  then show "page_inv s" unfolding page_init_def page_inv_def by (metis kp_inv_new)
qed (rule page_step_inv)

text \<open>Two handles of the zero page, and what making one of them mutable leaves.\<close>

definition page_example :: page_sys where
  "page_example = \<lparr>sys_heap = heap_new [], handles = {#zeroed, zeroed#}\<rparr>"

definition page_example_heap :: heap where
  "page_example_heap = \<lparr>pages = [0 \<mapsto> zero_bytes, 1 \<mapsto> zero_bytes], counts = Map.empty,
     next_addr = 2, oom = []\<rparr>"

lemma page_example_reachable: "reachable page_init page_step page_example"
proof -
  let ?s = "\<lambda>M. \<lparr>sys_heap = heap_new [], handles = M\<rparr>"
  have r0: "reachable page_init page_step (?s {#})"
    by (rule reachable.start) (simp add: page_init_def heap_new_def)
  have s: "page_step (?s M) (?s (add_mset zeroed M))" for M
    using page_step.zeroed [of "?s M"] by simp
  show ?thesis
    unfolding page_example_def by (rule reachable.step [OF reachable.step [OF r0 s] s])
qed

lemma page_example_make_mut:
  "make_mut False zeroed (sys_heap page_example) =
     (Ok \<lparr>content = 1, reference_count = None\<rparr>, page_example_heap)"
  by (simp add: page_example_def page_example_heap_def heap_new_def zeroed_def make_mut_def is_zero_page_def
      copy_page_def sbind_def load_page_def alloc_page_def may_alloc_def drop_page_def numeral_2_eq_2
      fun_upd_twist)

section \<open>Properties\<close>

text \<open>
  C22. Pages are memory-safe. After any sequence of operations, what is allocated is exactly
  the zero page and the pages with a live handle (nothing is freed early, nothing leaks);
  a reference count is exactly the number of handles of its page; and on every live handle
  \<^verbatim>\<open>clone\<close>, \<^verbatim>\<open>make_mut\<close> and \<^verbatim>\<open>drop\<close> touch only allocated memory.
\<close>

theorem page_memory_safe:
  assumes "reachable page_init page_step s" and "p \<in># handles s"
  shows "dom (pages (sys_heap s)) = insert 0 (content ` set_mset (handles s)) \<and>
    (\<forall>r. reference_count p = Some r \<longrightarrow> counts (sys_heap s) r = Some (count (handles s) p)) \<and>
    (content p \<noteq> 0 \<and> reference_count p = None \<longrightarrow> count (handles s) p = 1) \<and>
    fst (clone p (sys_heap s)) \<noteq> Panic \<and> fst (make_mut shared p (sys_heap s)) \<noteq> Panic \<and>
    fst (drop_page p (sys_heap s)) = Ok ()"
proof -
  have inv: "kp_inv (sys_heap s) (handles s)"
    using kp.reachable_inv [OF assms(1)] by (simp add: page_inv_def)
  obtain M where M: "handles s = add_mset p M" using assms(2) by (meson mset_add)
  have parts: "refs_ok (handles s)" "alloc_ok (sys_heap s) (handles s)" using inv by (auto simp: kp_inv_def)
  have "dom (pages (sys_heap s)) = insert 0 (content ` set_mset (handles s))"
    using alloc_okD(1) [OF parts(2)] by (auto simp: dom_def)
  moreover have "fst (clone p (sys_heap s)) \<noteq> Panic"
    by (rule clone_cases [OF inv [unfolded M]]) simp_all
  moreover have "fst (make_mut shared p (sys_heap s)) \<noteq> Panic"
    by (rule make_mut_cases [OF inv [unfolded M], of shared]) simp_all
  moreover have "fst (drop_page p (sys_heap s)) = Ok ()"
    using drop_page_spec [OF inv [unfolded M]] by auto
  ultimately show ?thesis
    using refs_okD(4) [OF parts(1) assms(2)] alloc_okD(2) [OF parts(2) assms(2)] by blast
qed

theorem page_memory_safe_witness:
  "fst (drop_page zeroed (sys_heap page_example)) = Ok () \<and>
   fst (make_mut True zeroed (sys_heap page_example)) \<noteq> Panic"
  using page_memory_safe [OF page_example_reachable, of zeroed True]
  by (simp add: page_example_def)

text \<open>
  C23. Copy on write isolates. A page made mutable for its owner alone shows what it showed
  before, has no other handle, and whatever is written to it is seen by no other handle.
\<close>

theorem make_mut_isolates:
  assumes "reachable page_init page_step s" and "handles s = add_mset p M"
    and "make_mut False p (sys_heap s) = (Ok p', h)" and "q \<in># M"
    and "a + length src \<le> PAGE"
  shows "view h p' = view (sys_heap s) p \<and> mutable False p' \<and> content q \<noteq> content p' \<and>
    view h q = view (sys_heap s) q \<and>
    (\<exists>h'. write_slice p' a src h = (Ok (), h') \<and>
       view h' p' = overlay (view h p') a src \<and> view h' q = view (sys_heap s) q)"
proof -
  have inv: "kp_inv (sys_heap s) (add_mset p M)"
    using kp.reachable_inv [OF assms(1)] assms(2) by (simp add: page_inv_def)
  have m: "kp_inv h (add_mset p' M)" "content p' \<noteq> 0" "view h p' = view (sys_heap s) p"
    "view h q = view (sys_heap s) q" "reference_count p' = None"
    by (rule make_mut_cases [OF inv, of False]; use assms(3,4) in simp)+
  have q: "content q \<noteq> content p'" using kp_inv_unique [OF m(1,2,5)] assms(4) by blast
  have mut: "mutable False p'" using m(2,5) by (simp add: mutable_def is_zero_page_def)
  obtain h' where "write_slice p' a src h = (Ok (), h')" "view h' p' = overlay (view h p') a src"
    "\<And>x. content x \<noteq> content p' \<Longrightarrow> view h' x = view h x"
    using write_slice_spec [OF m(1) _ m(2) assms(5)] by (metis union_single_eq_member)
  with q m mut show ?thesis by auto
qed

theorem make_mut_isolates_witness:
  "\<exists>h'. write_slice \<lparr>content = 1, reference_count = None\<rparr> 0 [7] page_example_heap = (Ok (), h') \<and>
     view h' zeroed = view (sys_heap page_example) zeroed"
  using make_mut_isolates [OF page_example_reachable _ page_example_make_mut, of "{#zeroed#}" zeroed 0 "[7]"]
  by (auto simp: page_example_def)

end
