(* ===== verification/Page_Table.thy ===== *)
theory Page_Table
  imports Interfaces
begin

text \<open>
  The concurrent page tables (\<^verbatim>\<open>tee/kernel/src/memory/pagetable.rs\<close>): the encoding of
  page table entries and the protocol by which cores share the entry of a table.
\<close>

section \<open>Entries\<close>

definition PRESENT_BIT :: nat where "PRESENT_BIT = 0"
definition WRITE_BIT :: nat where "WRITE_BIT = 1"
definition USER_BIT :: nat where "USER_BIT = 2"
definition DIRTY_BIT :: nat where "DIRTY_BIT = 6"
definition HUGE_BIT :: nat where "HUGE_BIT = 7"
definition GLOBAL_BIT :: nat where "GLOBAL_BIT = 8"
definition INITIALIZING_BIT :: nat where "INITIALIZING_BIT = 9"
definition COW_BIT :: nat where "COW_BIT = 10"
definition DISABLE_EXECUTE_BIT :: nat where "DISABLE_EXECUTE_BIT = 63"

lemmas entry_bits = PRESENT_BIT_def WRITE_BIT_def USER_BIT_def DIRTY_BIT_def HUGE_BIT_def
  GLOBAL_BIT_def INITIALIZING_BIT_def COW_BIT_def DISABLE_EXECUTE_BIT_def

text \<open>The bits of \<^verbatim>\<open>PageTableFlags\<close>.\<close>

definition WRITABLE :: u8 where "WRITABLE = 2 ^ 0"
definition EXECUTABLE :: u8 where "EXECUTABLE = 2 ^ 1"
definition USER :: u8 where "USER = 2 ^ 2"
definition GLOBAL :: u8 where "GLOBAL = 2 ^ 3"
definition COW :: u8 where "COW = 2 ^ 4"
definition DIRTY :: u8 where "DIRTY = 2 ^ 5"

lemmas flag_defs = WRITABLE_def EXECUTABLE_def USER_def GLOBAL_def COW_def DIRTY_def

text \<open>\<^verbatim>\<open>contains\<close> and \<^verbatim>\<open>set\<close> of a flag set, \<^verbatim>\<open>set_bit\<close> of an integer.\<close>

definition has_flags :: "'a::len word \<Rightarrow> 'a word \<Rightarrow> bool" where
  "has_flags s f = (s AND f = f)"

definition put_flags :: "'a::len word \<Rightarrow> bool \<Rightarrow> 'a word \<Rightarrow> 'a word" where
  "put_flags f b s = (if b then s OR f else s AND NOT f)"

definition put_bit :: "nat \<Rightarrow> bool \<Rightarrow> 'a::len word \<Rightarrow> 'a word" where
  "put_bit n b w = (if b then set_bit n w else unset_bit n w)"

text \<open>An entry is made from the address of a frame.\<close>

definition entry_new :: "u64 \<Rightarrow> u8 \<Rightarrow> u64 result" where
  "entry_new frame fl =
     (let e = put_bit PRESENT_BIT True frame;
          e = put_bit WRITE_BIT (has_flags fl WRITABLE) e;
          e = put_bit USER_BIT (has_flags fl USER) e;
          e = put_bit GLOBAL_BIT (has_flags fl GLOBAL) e;
          e = put_bit DISABLE_EXECUTE_BIT (\<not> has_flags fl EXECUTABLE) e;
          e = put_bit COW_BIT (has_flags fl COW) e;
          e = put_bit DIRTY_BIT (has_flags fl DIRTY) e in
      rassert (has_flags fl COW \<longrightarrow> \<not> has_flags fl WRITABLE) (Ok e))"

text \<open>\<^verbatim>\<open>PhysAddr::new_truncate\<close> keeps 52 bits; the frame starts at a multiple of 4096.\<close>

definition entry_frame :: "u64 \<Rightarrow> u64" where
  "entry_frame e = push_bit 12 (take_bit 40 (drop_bit 12 e))"

definition entry_flags :: "u64 \<Rightarrow> u8" where
  "entry_flags e =
     (let f = put_flags WRITABLE (bit e WRITE_BIT) 0;
          f = put_flags USER (bit e USER_BIT) f;
          f = put_flags GLOBAL (bit e GLOBAL_BIT) f;
          f = put_flags EXECUTABLE (\<not> bit e DISABLE_EXECUTE_BIT) f;
          f = put_flags COW (bit e COW_BIT) f in
      put_flags DIRTY (bit e DIRTY_BIT) f)"

text \<open>\<^verbatim>\<open>TryFrom<u64>\<close>: an entry that is present.\<close>

definition entry_try_from :: "u64 \<Rightarrow> u64 option" where
  "entry_try_from v = (if bit v PRESENT_BIT then Some v else None)"

lemma bit_put_bit: "bit (put_bit n b w) m \<longleftrightarrow> m < LENGTH('a) \<and> (if m = n then b else bit w m)"
  for w :: "'a::len word"
  by (auto simp: put_bit_def bit_simps dest: bit_imp_le_length)

lemma has_flags_exp: "n < LENGTH('a) \<Longrightarrow> has_flags s (2 ^ n) \<longleftrightarrow> bit s n" for s :: "'a::len word"
  by (auto simp: has_flags_def word_eq_iff_bits bit_simps)

lemma bit_put_flags_exp:
  "n < LENGTH('a) \<Longrightarrow> bit (put_flags (2 ^ n) b s) m \<longleftrightarrow> m < LENGTH('a) \<and> (if m = n then b else bit s m)"
  for s :: "'a::len word"
  by (auto simp: put_flags_def bit_simps dest: bit_imp_le_length)

lemma bit_entry_frame: "bit (entry_frame e) n \<longleftrightarrow> 12 \<le> n \<and> n < 52 \<and> bit e n"
  by (auto simp: entry_frame_def bit_simps dest: bit_imp_le_length)

lemma has_flag_bits:
  "has_flags fl WRITABLE \<longleftrightarrow> bit fl 0" "has_flags fl EXECUTABLE \<longleftrightarrow> bit fl 1"
  "has_flags fl USER \<longleftrightarrow> bit fl 2" "has_flags fl GLOBAL \<longleftrightarrow> bit fl 3"
  "has_flags fl COW \<longleftrightarrow> bit fl 4" "has_flags fl DIRTY \<longleftrightarrow> bit fl 5"
  unfolding flag_defs by (rule has_flags_exp, simp)+

lemma bit_entry_flags:
  "bit (entry_flags e) n \<longleftrightarrow>
     n = 0 \<and> bit e 1 \<or> n = 1 \<and> \<not> bit e 63 \<or> n = 2 \<and> bit e 2 \<or> n = 3 \<and> bit e 8 \<or>
     n = 4 \<and> bit e 10 \<or> n = 5 \<and> bit e 6"
  unfolding entry_flags_def Let_def flag_defs entry_bits
  by (subst bit_put_flags_exp, simp)+ (auto simp: bit_simps)

lemma entry_new_Ok:
  "entry_new frame fl = Ok e \<Longrightarrow> bit e n \<longleftrightarrow>
     n < 64 \<and> (if n = 0 then True else if n = 1 then bit fl 0 else if n = 2 then bit fl 2
      else if n = 8 then bit fl 3 else if n = 63 then \<not> bit fl 1 else if n = 10 then bit fl 4
      else if n = 6 then bit fl 5 else bit frame n)"
  unfolding entry_new_def Let_def
  by (auto simp: result_simps bit_put_bit has_flag_bits entry_bits split: if_splits)

text \<open>
  Encoding a page table entry loses nothing: from the entry of a page-aligned frame
  below 2^52 the frame and the flags are read back as they were, and the entry is present.
  Only an entry that is both writable and copy-on-write is refused.
\<close>

theorem entry_roundtrip:
  assumes "frame = push_bit 12 (take_bit 40 n)" and "fl = take_bit 6 fl"
  shows "(entry_new frame fl = Panic \<longleftrightarrow> has_flags fl COW \<and> has_flags fl WRITABLE) \<and>
    entry_new frame fl \<noteq> Err err \<and>
    (\<forall>e. entry_new frame fl = Ok e \<longrightarrow>
       entry_frame e = frame \<and> entry_flags e = fl \<and> entry_try_from e = Some e)"
proof (intro conjI allI impI)
  show "entry_new frame fl = Panic \<longleftrightarrow> has_flags fl COW \<and> has_flags fl WRITABLE"
    "entry_new frame fl \<noteq> Err err"
    by (auto simp: entry_new_def Let_def rassert_def)
  fix e assume e: "entry_new frame fl = Ok e"
  have fr: "bit frame m \<longleftrightarrow> 12 \<le> m \<and> m < 52 \<and> bit n (m - 12)" for m
    unfolding assms(1) by (auto simp: bit_simps dest: bit_imp_le_length)
  have fl: "bit fl m \<Longrightarrow> m < 6" for m
    by (subst (asm) assms(2)) (simp add: bit_simps)
  show "entry_frame e = frame"
    by (rule bit_word_eqI) (auto simp: bit_entry_frame entry_new_Ok [OF e] fr)
  show "entry_flags e = fl"
  proof (rule bit_word_eqI)
    fix m assume "m < LENGTH(8)"
    show "bit (entry_flags e) m \<longleftrightarrow> bit fl m"
      using fl [of m] by (auto simp: bit_entry_flags entry_new_Ok [OF e] less_Suc_eq numeral_eq_Suc)
  qed
  show "entry_try_from e = Some e"
    by (simp add: entry_try_from_def PRESENT_BIT_def entry_new_Ok [OF e])
qed

theorem entry_roundtrip_witness:
  "entry_frame 0x8000000000005003 = 0x5000 \<and> entry_flags 0x8000000000005003 = WRITABLE"
proof -
  have e: "entry_new 0x5000 WRITABLE = Ok 0x8000000000005003" by code_simp
  have "(0x5000 :: u64) = push_bit 12 (take_bit 40 5)" "WRITABLE = take_bit 6 WRITABLE"
    by (simp_all add: WRITABLE_def)
  from entry_roundtrip [OF this] e show ?thesis by blast
qed

section \<open>Sharing the entry of a table\<close>

text \<open>
  An entry that refers to a table carries a reference count, one less than the number of
  references. Cores change it by compare-and-exchange in a loop; an iteration of the loop is
  a function of the value it loaded.
\<close>

definition reference_count :: "u64 \<Rightarrow> u64" where
  "reference_count e = take_bit 10 (drop_bit 52 e)"

definition set_reference_count :: "u64 \<Rightarrow> u64 \<Rightarrow> u64 result" where
  "set_reference_count v e =
     rassert (unat v < 1024) (Ok ((e AND NOT (push_bit 52 (mask 10))) OR push_bit 52 v))"

datatype iteration = Spin | Exchange u64 | Initialize | Absent | Done | Free

text \<open>The levels above the lowest: which bits their entries may have.\<close>

record table_level =
  CAN_SET_GLOBAL :: bool
  CAN_SET_HUGE :: bool

definition acquire_reference_count :: "table_level \<Rightarrow> bool \<Rightarrow> u8 \<Rightarrow> u64 \<Rightarrow> iteration result" where
  "acquire_reference_count l static fl e =
     (let user = has_flags fl USER; global = has_flags fl GLOBAL \<and> CAN_SET_GLOBAL l in
      rassert (CAN_SET_HUGE l \<longrightarrow> \<not> bit e HUGE_BIT)
      (if bit e INITIALIZING_BIT then Ok Spin
       else if bit e PRESENT_BIT then
         rassert (user = bit e USER_BIT) (rassert (global = bit e GLOBAL_BIT)
         (if static then Ok Done
          else rbind (set_reference_count (reference_count e + 1) e) (\<lambda>n. Ok (Exchange n))))
       else Ok Initialize))"

definition new_table_entry :: "table_level \<Rightarrow> u8 \<Rightarrow> u64 \<Rightarrow> u64" where
  "new_table_entry l fl frame =
     (let e = put_bit PRESENT_BIT True frame;
          e = put_bit WRITE_BIT True e;
          e = put_bit USER_BIT (has_flags fl USER) e;
          e = put_bit GLOBAL_BIT (has_flags fl GLOBAL \<and> CAN_SET_GLOBAL l) e;
          e = put_bit INITIALIZING_BIT True e in
      e AND NOT (push_bit 52 (mask 10)))"

definition increase_reference_count :: "bool \<Rightarrow> u64 \<Rightarrow> iteration result" where
  "increase_reference_count static e =
     (if static then Ok Done
      else if bit e INITIALIZING_BIT then Ok Spin
      else if \<not> bit e PRESENT_BIT then Ok Absent
      else rbind (set_reference_count (reference_count e + 1) e) (\<lambda>n. Ok (Exchange n)))"

definition release_reference_count :: "bool \<Rightarrow> u64 \<Rightarrow> iteration result" where
  "release_reference_count static e =
     (if static then Ok Done
      else rassert (e \<noteq> 0)
        (if reference_count e = 0 then Ok Free
         else rbind (set_reference_count (reference_count e - 1) e) (\<lambda>n. Ok (Exchange n))))"

text \<open>What a core is doing with the entry, with the value it last loaded.\<close>

datatype core_pc = Idle | Acquiring u64 | Increasing u64 | Releasing u64 | Won | Stored u64

record entry_sys =
  word :: u64
  refs :: nat
  tables :: "u64 set"
  cores :: "core_pc list"

abbreviation at_core :: "entry_sys \<Rightarrow> nat \<Rightarrow> core_pc \<Rightarrow> bool" where
  "at_core s i pc \<equiv> i < length (cores s) \<and> cores s ! i = pc"

definition move :: "nat \<Rightarrow> core_pc \<Rightarrow> entry_sys \<Rightarrow> entry_sys" where
  "move i pc s = s\<lparr>cores := (cores s)[i := pc]\<rparr>"

definition is_releasing :: "core_pc \<Rightarrow> bool" where
  "is_releasing pc = (case pc of Releasing c \<Rightarrow> True | _ \<Rightarrow> False)"

definition is_initializing :: "core_pc \<Rightarrow> bool" where
  "is_initializing pc = (case pc of Won \<Rightarrow> True | Stored n \<Rightarrow> True | _ \<Rightarrow> False)"

text \<open>
  The interleavings. A core may release only a reference that nobody else is releasing
  (the obligation of \<^verbatim>\<open>release_reference_count\<close>); a new table gets a frame that is not in use.
\<close>

inductive entry_step :: "table_level \<Rightarrow> u8 \<Rightarrow> entry_sys \<Rightarrow> entry_sys \<Rightarrow> bool"
  for l :: table_level and fl :: u8 where
  load_acquire: "at_core s i Idle \<Longrightarrow> entry_step l fl s (move i (Acquiring (word s)) s)"
| load_increase: "at_core s i Idle \<Longrightarrow> entry_step l fl s (move i (Increasing (word s)) s)"
| load_release: "at_core s i Idle \<Longrightarrow> length (filter is_releasing (cores s)) < refs s \<Longrightarrow>
    entry_step l fl s (move i (Releasing (word s)) s)"
| spin_acquire: "at_core s i (Acquiring c) \<Longrightarrow>
    acquire_reference_count l False fl c = Ok Spin \<or> word s \<noteq> c \<Longrightarrow>
    entry_step l fl s (move i (Acquiring (word s)) s)"
| spin_increase: "at_core s i (Increasing c) \<Longrightarrow>
    increase_reference_count False c = Ok Spin \<or> word s \<noteq> c \<Longrightarrow>
    entry_step l fl s (move i (Increasing (word s)) s)"
| retry_release: "at_core s i (Releasing c) \<Longrightarrow> word s \<noteq> c \<Longrightarrow>
    entry_step l fl s (move i (Releasing (word s)) s)"
| acquire: "at_core s i (Acquiring c) \<Longrightarrow>
    acquire_reference_count l False fl c = Ok (Exchange n) \<Longrightarrow> word s = c \<Longrightarrow>
    entry_step l fl s (move i Idle (s\<lparr>word := n, refs := refs s + 1\<rparr>))"
| increase: "at_core s i (Increasing c) \<Longrightarrow>
    increase_reference_count False c = Ok (Exchange n) \<Longrightarrow> word s = c \<Longrightarrow>
    entry_step l fl s (move i Idle (s\<lparr>word := n, refs := refs s + 1\<rparr>))"
| absent: "at_core s i (Increasing c) \<Longrightarrow> increase_reference_count False c = Ok Absent \<Longrightarrow>
    entry_step l fl s (move i Idle s)"
| win: "at_core s i (Acquiring c) \<Longrightarrow>
    acquire_reference_count l False fl c = Ok Initialize \<Longrightarrow> word s = c \<Longrightarrow>
    entry_step l fl s (move i Won (s\<lparr>word := 2 ^ INITIALIZING_BIT\<rparr>))"
| store: "at_core s i Won \<Longrightarrow> frame = push_bit 12 (take_bit 40 k) \<Longrightarrow> frame \<notin> tables s \<Longrightarrow>
    n = new_table_entry l fl frame \<Longrightarrow>
    entry_step l fl s
      (move i (Stored n) (s\<lparr>word := n, tables := insert frame (tables s)\<rparr>))"
| ready: "at_core s i (Stored n) \<Longrightarrow>
    entry_step l fl s
      (move i Idle (s\<lparr>word := put_bit INITIALIZING_BIT False n, refs := refs s + 1\<rparr>))"
| release: "at_core s i (Releasing c) \<Longrightarrow>
    release_reference_count False c = Ok (Exchange n) \<Longrightarrow> word s = c \<Longrightarrow>
    entry_step l fl s (move i Idle (s\<lparr>word := n, refs := refs s - 1\<rparr>))"
| free: "at_core s i (Releasing c) \<Longrightarrow>
    release_reference_count False c = Ok Free \<Longrightarrow> word s = c \<Longrightarrow>
    entry_step l fl s
      (move i Idle (s\<lparr>word := 0, refs := refs s - 1, tables := tables s - {entry_frame c}\<rparr>))"

definition entry_init :: "entry_sys \<Rightarrow> bool" where
  "entry_init s \<longleftrightarrow> word s = 0 \<and> refs s = 0 \<and> tables s = {} \<and> list_all ((=) Idle) (cores s)"

text \<open>The reference count is a field of its own.\<close>

lemma set_reference_count_Ok:
  assumes "set_reference_count v e = Ok n"
  shows "unat v < 1024" "bit n m \<longleftrightarrow> (if 52 \<le> m \<and> m < 62 then bit v (m - 52) else bit e m)"
    "reference_count n = v" "entry_frame n = entry_frame e"
proof -
  show v: "unat v < 1024" using assms by (simp add: set_reference_count_def result_simps)
  have n: "n = (e AND NOT (push_bit 52 (mask 10))) OR push_bit 52 v"
    using assms by (simp add: set_reference_count_def result_simps)
  have vm: "bit v k \<Longrightarrow> k < 10" for k
  proof -
    assume "bit v k"
    moreover have "v = take_bit 10 v"
      using v by (intro word_unat_eq_iff [THEN iffD2]) (simp add: unsigned_take_bit_eq take_bit_nat_eq_self)
    ultimately show ?thesis by (metis bit_take_bit_iff)
  qed
  show b: "bit n m \<longleftrightarrow> (if 52 \<le> m \<and> m < 62 then bit v (m - 52) else bit e m)" for m
    unfolding n using vm [of "m - 52"] by (auto simp: bit_simps dest: bit_imp_le_length)
  show "reference_count n = v"
    unfolding reference_count_def
    by (rule bit_word_eqI) (use vm in \<open>auto simp: bit_simps b\<close>)
  show "entry_frame n = entry_frame e"
    by (rule bit_word_eqI) (auto simp: bit_entry_frame b)
qed

lemma unat_reference_count: "unat (reference_count e) < 1024"
proof -
  have "unat (reference_count e) = take_bit 10 (unat (drop_bit 52 e))"
    by (simp add: reference_count_def unsigned_take_bit_eq)
  then show ?thesis using take_bit_nat_less_exp [of 10 "unat (drop_bit 52 e)"] by simp
qed

lemma unat_reference_count_Suc: "unat (reference_count e + 1) = unat (reference_count e) + 1"
  using unat_reference_count [of e] by (simp add: unat_word_ariths)

lemma unat_reference_count_pred:
  "reference_count e \<noteq> 0 \<Longrightarrow> unat (reference_count e - 1) + 1 = unat (reference_count e)"
  using unat_minus_one [of "reference_count e"] unat_gt_0 [of "reference_count e"] by linarith

lemma new_table_entry_bits:
  assumes "frame = push_bit 12 (take_bit 40 k)" and n_def: "n = new_table_entry l fl frame"
  shows "bit n PRESENT_BIT" "bit n INITIALIZING_BIT" "\<not> bit n HUGE_BIT"
    "bit n USER_BIT = has_flags fl USER"
    "bit n GLOBAL_BIT = (has_flags fl GLOBAL \<and> CAN_SET_GLOBAL l)"
    "entry_frame n = frame" "reference_count n = 0"
proof -
  have fr: "bit frame m \<longleftrightarrow> 12 \<le> m \<and> m < 52 \<and> bit k (m - 12)" for m
    unfolding assms(1) by (auto simp: bit_simps dest: bit_imp_le_length)
  have b: "bit n m \<longleftrightarrow> m = 0 \<or> m = 1 \<or> m = 9 \<or> m = 2 \<and> has_flags fl USER \<or>
      m = 8 \<and> has_flags fl GLOBAL \<and> CAN_SET_GLOBAL l \<or> bit frame m" for m
    unfolding n_def new_table_entry_def Let_def entry_bits
    by (auto simp: bit_simps bit_put_bit fr)
  show "bit n PRESENT_BIT" "bit n INITIALIZING_BIT" "\<not> bit n HUGE_BIT"
    "bit n USER_BIT = has_flags fl USER"
    "bit n GLOBAL_BIT = (has_flags fl GLOBAL \<and> CAN_SET_GLOBAL l)"
    by (auto simp: entry_bits b fr)
  show "entry_frame n = frame" by (rule bit_word_eqI) (auto simp: bit_entry_frame b fr)
  show "reference_count n = 0"
    unfolding reference_count_def by (rule bit_word_eqI) (auto simp: bit_simps b fr)
qed

lemma clear_initializing:
  "bit (put_bit INITIALIZING_BIT False n) m \<longleftrightarrow> m \<noteq> INITIALIZING_BIT \<and> bit n m"
  "entry_frame (put_bit INITIALIZING_BIT False n) = entry_frame n"
  "reference_count (put_bit INITIALIZING_BIT False n) = reference_count n" for n :: u64
proof -
  show "bit (put_bit INITIALIZING_BIT False n) m \<longleftrightarrow> m \<noteq> INITIALIZING_BIT \<and> bit n m"
    by (auto simp: bit_put_bit dest: bit_imp_le_length)
  show "entry_frame (put_bit INITIALIZING_BIT False n) = entry_frame n"
    by (rule bit_word_eqI) (auto simp: bit_entry_frame bit_put_bit INITIALIZING_BIT_def)
  show "reference_count (put_bit INITIALIZING_BIT False n) = reference_count n"
    unfolding reference_count_def
    by (rule bit_word_eqI) (auto simp: bit_take_bit_iff bit_drop_bit_eq bit_put_bit INITIALIZING_BIT_def)
qed

text \<open>One core moves.\<close>

lemma filter_update_length:
  "i < length xs \<Longrightarrow> length (filter P (xs[i := y])) + (if P (xs ! i) then 1 else 0) =
     length (filter P xs) + (if P y then 1 else 0)"
proof (induction xs arbitrary: i)
  case (Cons x xs)
  then show ?case
    by (cases i) (auto dest: Cons.IH split: if_splits)
qed simp

lemma filter_update_same:
  "i < length xs \<Longrightarrow> \<not> P (xs ! i) \<Longrightarrow> \<not> P y \<Longrightarrow> filter P (xs[i := y]) = filter P xs"
  by (induction xs arbitrary: i) (auto split: nat.splits simp: nth_Cons)

lemma filter_update_add:
  "i < length xs \<Longrightarrow> filter P xs = [] \<Longrightarrow> P y \<Longrightarrow> filter P (xs[i := y]) = [y]"
  by (induction xs arbitrary: i) (auto split: nat.splits if_splits simp: nth_Cons)

lemma filter_update_only:
  "i < length xs \<Longrightarrow> P (xs ! i) \<Longrightarrow> filter P xs = [z] \<Longrightarrow> filter P (xs[i := y]) = (if P y then [y] else [])"
proof (induction xs arbitrary: i)
  case (Cons x xs)
  show ?case
  proof (cases i)
    case 0
    with Cons.prems have "filter P xs = []" by (auto split: if_splits)
    with 0 show ?thesis by simp
  next
    case (Suc j)
    with Cons.prems have "x' \<in> set xs \<and> P x'" if "x' = xs ! j" for x' using that by auto
    with Suc Cons show ?thesis
      by (cases "P x") (auto simp: filter_empty_conv)
  qed
qed simp

lemmas filter_update = filter_update_same filter_update_add filter_update_only

text \<open>The phases of an entry.\<close>

definition live_word :: "table_level \<Rightarrow> u8 \<Rightarrow> u64 \<Rightarrow> bool" where
  "live_word l fl e \<longleftrightarrow> bit e PRESENT_BIT \<and> \<not> bit e INITIALIZING_BIT \<and> \<not> bit e HUGE_BIT \<and>
     bit e USER_BIT = has_flags fl USER \<and>
     bit e GLOBAL_BIT = (has_flags fl GLOBAL \<and> CAN_SET_GLOBAL l)"

definition phase_live :: "table_level \<Rightarrow> u8 \<Rightarrow> entry_sys \<Rightarrow> bool" where
  "phase_live l fl s \<longleftrightarrow> filter is_initializing (cores s) = [] \<and> live_word l fl (word s) \<and>
     unat (reference_count (word s)) + 1 = refs s \<and> tables s = {entry_frame (word s)}"

definition phase_free :: "entry_sys \<Rightarrow> bool" where
  "phase_free s \<longleftrightarrow> filter is_initializing (cores s) = [] \<and> word s = 0 \<and> refs s = 0 \<and> tables s = {}"

definition phase_won :: "entry_sys \<Rightarrow> bool" where
  "phase_won s \<longleftrightarrow> filter is_initializing (cores s) = [Won] \<and> word s = 2 ^ INITIALIZING_BIT \<and>
     refs s = 0 \<and> tables s = {}"

definition phase_stored :: "table_level \<Rightarrow> u8 \<Rightarrow> entry_sys \<Rightarrow> bool" where
  "phase_stored l fl s \<longleftrightarrow> filter is_initializing (cores s) = [Stored (word s)] \<and> refs s = 0 \<and>
     (\<exists>k. word s = new_table_entry l fl (push_bit 12 (take_bit 40 k)) \<and>
        tables s = {push_bit 12 (take_bit 40 k)})"

definition entry_inv :: "table_level \<Rightarrow> u8 \<Rightarrow> entry_sys \<Rightarrow> bool" where
  "entry_inv l fl s \<longleftrightarrow> length (filter is_releasing (cores s)) \<le> refs s \<and>
     (phase_live l fl s \<or> phase_free s \<or> phase_won s \<or> phase_stored l fl s)"

lemmas phase_defs = phase_live_def phase_free_def phase_won_def phase_stored_def

lemma live_set_reference_count:
  "live_word l fl e \<Longrightarrow> set_reference_count v e = Ok n \<Longrightarrow> live_word l fl n"
  by (simp add: live_word_def set_reference_count_Ok(2) entry_bits)

lemma inv_present:
  "entry_inv l fl s \<Longrightarrow> bit (word s) PRESENT_BIT \<Longrightarrow> \<not> bit (word s) INITIALIZING_BIT \<Longrightarrow> phase_live l fl s"
  using new_table_entry_bits(2) by (auto simp: entry_inv_def phase_defs bit_simps entry_bits)

lemma inv_refs: "entry_inv l fl s \<Longrightarrow> 0 < refs s \<Longrightarrow> phase_live l fl s"
  by (auto simp: entry_inv_def phase_defs)

lemma inv_move:
  assumes "entry_inv l fl s" "at_core s i pc" "\<not> is_initializing pc" "\<not> is_initializing pc'"
    and "is_releasing pc' \<Longrightarrow> is_releasing pc \<or> length (filter is_releasing (cores s)) < refs s"
  shows "entry_inv l fl (move i pc' s)"
proof -
  have "filter is_initializing ((cores s)[i := pc']) = filter is_initializing (cores s)"
    using assms by (simp add: filter_update_same)
  moreover have "length (filter is_releasing ((cores s)[i := pc'])) \<le> refs s"
    using filter_update_length [of i "cores s" is_releasing pc'] assms
    by (auto simp: entry_inv_def split: if_splits)
  ultimately show ?thesis using assms(1) by (simp add: entry_inv_def phase_defs move_def)
qed

text \<open>A reference is gained or lost.\<close>

lemma inv_gain:
  assumes "entry_inv l fl s" "at_core s i pc" "\<not> is_initializing pc"
    and "phase_live l fl s" "set_reference_count (reference_count (word s) + 1) (word s) = Ok n"
  shows "entry_inv l fl (move i Idle (s\<lparr>word := n, refs := refs s + 1\<rparr>))"
proof -
  have "phase_live l fl (s\<lparr>word := n, refs := refs s + 1\<rparr>)"
    using assms(4) set_reference_count_Ok(3,4) [OF assms(5)] live_set_reference_count [OF _ assms(5)]
    by (simp add: phase_live_def unat_reference_count_Suc)
  then have "entry_inv l fl (s\<lparr>word := n, refs := refs s + 1\<rparr>)"
    using assms(1) by (simp add: entry_inv_def)
  from inv_move [OF this, of i pc Idle] assms(2,3) show ?thesis
    by (simp add: is_initializing_def is_releasing_def)
qed

lemma inv_lose:
  assumes inv: "entry_inv l fl s" and core: "at_core s i (Releasing c)"
    and t: "t = move i Idle (s\<lparr>word := w, refs := refs s - 1, tables := T\<rparr>)"
    and w: "phase_live l fl (s\<lparr>word := w, refs := refs s - 1, tables := T\<rparr>) \<or>
      phase_free (s\<lparr>word := w, refs := refs s - 1, tables := T\<rparr>)"
  shows "entry_inv l fl t"
proof -
  have "filter is_initializing ((cores s)[i := Idle]) = filter is_initializing (cores s)"
    using core by (simp add: filter_update_same is_initializing_def)
  moreover have "length (filter is_releasing ((cores s)[i := Idle])) + 1 = length (filter is_releasing (cores s))"
    using filter_update_length [of i "cores s" is_releasing Idle] core by (simp add: is_releasing_def)
  moreover from this have "length (filter is_releasing ((cores s)[i := Idle])) \<le> refs s - 1"
    using inv unfolding entry_inv_def by linarith
  ultimately show ?thesis
    using w by (auto simp: t entry_inv_def phase_live_def phase_free_def move_def)
qed

lemma releasing_refs: "entry_inv l fl s \<Longrightarrow> at_core s i (Releasing c) \<Longrightarrow> 0 < refs s"
  using filter_update_length [of i "cores s" is_releasing Idle]
  by (auto simp: entry_inv_def is_releasing_def)

text \<open>A table is set up.\<close>

lemma inv_initialize:
  assumes inv: "entry_inv l fl s" and core: "at_core s i pc"
  shows "pc = Acquiring c \<Longrightarrow> acquire_reference_count l False fl c = Ok Initialize \<Longrightarrow> word s = c \<Longrightarrow>
      entry_inv l fl (move i Won (s\<lparr>word := 2 ^ INITIALIZING_BIT\<rparr>))"
    and "pc = Won \<Longrightarrow> n = new_table_entry l fl (push_bit 12 (take_bit 40 k)) \<Longrightarrow>
      entry_inv l fl (move i (Stored n) (s\<lparr>word := n, tables := insert (push_bit 12 (take_bit 40 k)) (tables s)\<rparr>))"
    and "pc = Stored n \<Longrightarrow>
      entry_inv l fl (move i Idle (s\<lparr>word := put_bit INITIALIZING_BIT False n, refs := refs s + 1\<rparr>))"
proof -
  have rel: "\<not> is_releasing pc \<Longrightarrow> \<not> is_releasing pc' \<Longrightarrow>
      filter is_releasing ((cores s)[i := pc']) = filter is_releasing (cores s)" for pc'
    using core by (simp add: filter_update_same)
  have init: "is_initializing pc \<Longrightarrow> filter is_initializing (cores s) = [z] \<Longrightarrow> z = pc" for z
  proof -
    assume "is_initializing pc" "filter is_initializing (cores s) = [z]"
    moreover from this(1) have "pc \<in> set (filter is_initializing (cores s))" using core by auto
    ultimately show "z = pc" by simp
  qed
  have ne: "is_initializing pc \<Longrightarrow> filter is_initializing (cores s) \<noteq> []"
    using core by (auto simp: filter_empty_conv)
  show "entry_inv l fl (move i Won (s\<lparr>word := 2 ^ INITIALIZING_BIT\<rparr>))"
    if pc: "pc = Acquiring c" and acq: "acquire_reference_count l False fl c = Ok Initialize" "word s = c"
  proof -
    have "\<not> bit (word s) PRESENT_BIT" "\<not> bit (word s) INITIALIZING_BIT"
      using acq by (auto simp: acquire_reference_count_def Let_def result_simps split: if_splits)
    then have "phase_free s"
      using inv new_table_entry_bits(2) [OF refl refl]
      by (auto simp: entry_inv_def phase_defs live_word_def bit_simps entry_bits)
    then show ?thesis
      using inv core pc rel [of Won]
      by (simp add: entry_inv_def phase_free_def phase_won_def move_def filter_update_add
          is_initializing_def is_releasing_def)
  qed
  show "entry_inv l fl (move i (Stored n) (s\<lparr>word := n, tables := insert (push_bit 12 (take_bit 40 k)) (tables s)\<rparr>))"
    if pc: "pc = Won" and n: "n = new_table_entry l fl (push_bit 12 (take_bit 40 k))"
  proof -
    have "phase_won s" using inv init ne pc by (auto simp: entry_inv_def phase_defs is_initializing_def)
    then show ?thesis
      using inv core pc n rel [of "Stored n"] filter_update_only [of i "cores s" is_initializing Won "Stored n"]
      by (auto simp: entry_inv_def phase_won_def phase_stored_def move_def is_initializing_def is_releasing_def)
  qed
  show "entry_inv l fl (move i Idle (s\<lparr>word := put_bit INITIALIZING_BIT False n, refs := refs s + 1\<rparr>))"
    if pc: "pc = Stored n"
  proof -
    have "phase_stored l fl s" using inv init ne pc by (auto simp: entry_inv_def phase_defs is_initializing_def)
    then obtain k where k: "n = new_table_entry l fl (push_bit 12 (take_bit 40 k))"
      "tables s = {push_bit 12 (take_bit 40 k)}" "refs s = 0"
      "filter is_initializing (cores s) = [Stored n]"
      using init pc by (auto simp: phase_stored_def is_initializing_def)
    note b = new_table_entry_bits [OF refl k(1)]
    have "live_word l fl (put_bit INITIALIZING_BIT False n)"
      using b by (simp add: live_word_def clear_initializing) (simp add: entry_bits)
    then show ?thesis
      using inv core pc k b rel [of Idle] filter_update_only [of i "cores s" is_initializing "Stored n" Idle]
      by (simp add: entry_inv_def phase_live_def move_def is_initializing_def is_releasing_def clear_initializing)
  qed
qed

lemma inv_exchange:
  assumes inv: "entry_inv l fl s"
  shows "acquire_reference_count l False fl (word s) = Ok (Exchange n) \<Longrightarrow>
      phase_live l fl s \<and> set_reference_count (reference_count (word s) + 1) (word s) = Ok n"
    and "increase_reference_count False (word s) = Ok (Exchange n) \<Longrightarrow>
      phase_live l fl s \<and> set_reference_count (reference_count (word s) + 1) (word s) = Ok n"
  using inv_present [OF inv]
  by (auto simp: acquire_reference_count_def increase_reference_count_def Let_def result_simps split: if_splits)

lemma inv_release:
  assumes inv: "entry_inv l fl s" and core: "at_core s i (Releasing c)" and c: "word s = c"
  shows "release_reference_count False c = Ok (Exchange n) \<Longrightarrow>
      entry_inv l fl (move i Idle (s\<lparr>word := n, refs := refs s - 1\<rparr>))"
    and "release_reference_count False c = Ok Free \<Longrightarrow>
      entry_inv l fl (move i Idle (s\<lparr>word := 0, refs := refs s - 1, tables := tables s - {entry_frame c}\<rparr>))"
proof -
  have live: "phase_live l fl s" using inv_refs [OF inv releasing_refs [OF inv core]] .
  show "entry_inv l fl (move i Idle (s\<lparr>word := n, refs := refs s - 1\<rparr>))"
    if r: "release_reference_count False c = Ok (Exchange n)"
  proof (rule inv_lose [OF inv core, where w = n and T = "tables s"])
    have n: "set_reference_count (reference_count c - 1) c = Ok n" "reference_count c \<noteq> 0"
      using r by (auto simp: release_reference_count_def result_simps split: if_splits)
    show "phase_live l fl (s\<lparr>word := n, refs := refs s - 1, tables := tables s\<rparr>) \<or>
        phase_free (s\<lparr>word := n, refs := refs s - 1, tables := tables s\<rparr>)"
      using live c live_set_reference_count [OF _ n(1)] set_reference_count_Ok(3,4) [OF n(1)]
        unat_reference_count_pred [OF n(2)]
      by (auto simp: phase_live_def)
  qed simp
  show "entry_inv l fl (move i Idle (s\<lparr>word := 0, refs := refs s - 1, tables := tables s - {entry_frame c}\<rparr>))"
    if r: "release_reference_count False c = Ok Free"
  proof (rule inv_lose [OF inv core refl])
    have "reference_count c = 0"
      using r by (auto simp: release_reference_count_def result_simps split: if_splits)
    then show "phase_live l fl (s\<lparr>word := 0, refs := refs s - 1, tables := tables s - {entry_frame c}\<rparr>) \<or>
        phase_free (s\<lparr>word := 0, refs := refs s - 1, tables := tables s - {entry_frame c}\<rparr>)"
      using live c by (simp add: phase_live_def phase_free_def)
  qed
qed

lemmas core_kinds = is_initializing_def is_releasing_def

lemma entry_inv_step: "entry_step l fl s t \<Longrightarrow> entry_inv l fl s \<Longrightarrow> entry_inv l fl t"
proof (induction rule: entry_step.induct)
  case (acquire s i c n)
  with inv_exchange(1) [of l fl s n] inv_gain [of l fl s i "Acquiring c" n] show ?case
    by (simp add: core_kinds)
next
  case (increase s i c n)
  with inv_exchange(2) [of l fl s n] inv_gain [of l fl s i "Increasing c" n] show ?case
    by (simp add: core_kinds)
next
  case (win s i c)
  then show ?case using inv_initialize(1) [of l fl s i "Acquiring c" c] by blast
next
  case (store s i frame k n)
  then show ?case using inv_initialize(2) [of l fl s i Won n k] by blast
next
  case (ready s i n)
  then show ?case using inv_initialize(3) [of l fl s i "Stored n" n] by blast
next
  case (release s i c n)
  then show ?case using inv_release(1) [of l fl s i c n] by blast
next
  case (free s i c)
  then show ?case using inv_release(2) [of l fl s i c] by blast
next
  case (load_release s i)
  then show ?case using inv_move [of l fl s i Idle "Releasing (word s)"] by (simp add: core_kinds)
qed (rule inv_move, assumption, assumption, simp_all add: core_kinds)+

interpretation pte: step_system entry_init "entry_step l fl" "entry_inv l fl" for l fl
proof
  fix s assume "entry_init s"
  then have "filter is_initializing (cores s) = []" "filter is_releasing (cores s) = []"
    by (auto simp: entry_init_def filter_empty_conv list_all_iff core_kinds)
  with \<open>entry_init s\<close> show "entry_inv l fl s" by (simp add: entry_init_def entry_inv_def phase_free_def)
next
  fix s t assume "entry_inv l fl s" "entry_step l fl s t"
  then show "entry_inv l fl t" by (rule entry_inv_step [rotated])
qed

text \<open>
  Cores share the entry of a table safely, under every interleaving of their atomic
  operations. As long as a reference is held the entry is present and initialized, its
  count is the number of references less one, and the only frame in use is the one it
  points to; a core that releases a reference never finds the entry cleared. Once the last
  reference is gone and nobody sets up a table, the entry is zero and no frame is left.
\<close>

theorem table_entry_shared:
  assumes "reachable entry_init (entry_step l fl) s"
  shows "(0 < refs s \<longrightarrow> bit (word s) PRESENT_BIT \<and> \<not> bit (word s) INITIALIZING_BIT \<and>
      unat (Page_Table.reference_count (word s)) + 1 = refs s \<and> tables s = {entry_frame (word s)}) \<and>
    (\<forall>i. at_core s i (Releasing c) \<longrightarrow> release_reference_count False (word s) \<noteq> Panic) \<and>
    (refs s = 0 \<and> filter is_initializing (cores s) = [] \<longrightarrow> word s = 0 \<and> tables s = {}) \<and>
    length (filter is_initializing (cores s)) \<le> 1"
proof -
  have inv: "entry_inv l fl s" by (rule pte.reachable_inv [OF assms])
  have "release_reference_count False (word s) \<noteq> Panic" if "at_core s i (Releasing c)" for i
  proof -
    have "phase_live l fl s" using inv_refs [OF inv releasing_refs [OF inv that]] .
    then have "word s \<noteq> 0" by (auto simp: phase_live_def live_word_def)
    moreover have "reference_count (word s) \<noteq> 0 \<Longrightarrow> unat (reference_count (word s) - 1) < 1024"
      using unat_reference_count_pred [of "word s"] unat_reference_count [of "word s"] by linarith
    ultimately show ?thesis
      by (auto simp: release_reference_count_def set_reference_count_def rassert_def rbind_eq_Panic)
  qed
  then show ?thesis
    using inv inv_refs [OF inv] by (auto simp: entry_inv_def phase_defs live_word_def)
qed

text \<open>One core sets up the table of an empty entry.\<close>

definition level3 :: table_level where
  "level3 = \<lparr>CAN_SET_GLOBAL = True, CAN_SET_HUGE = True\<rparr>"

abbreviation entry_at :: "u64 \<Rightarrow> nat \<Rightarrow> u64 set \<Rightarrow> core_pc \<Rightarrow> entry_sys" where
  "entry_at w n T pc \<equiv> \<lparr>word = w, refs = n, tables = T, cores = [pc]\<rparr>"

lemma entry_example: "reachable entry_init (entry_step level3 USER) (entry_at 0x1007 1 {0x1000} Idle)"
proof -
  let ?R = "reachable entry_init (entry_step level3 USER)"
  have "?R (entry_at 0 0 {} Idle)" by (rule reachable.start) (simp add: entry_init_def)
  from reachable.step [OF this load_acquire [where i = 0]]
  have "?R (entry_at 0 0 {} (Acquiring 0))" by (simp add: move_def)
  from reachable.step [OF this win [where i = 0 and c = 0]]
  have won: "?R (entry_at 0x200 0 {} Won)"
    by (simp add: move_def acquire_reference_count_def Let_def INITIALIZING_BIT_def)
  have n: "new_table_entry level3 USER 0x1000 = 0x1207" by code_simp
  from reachable.step [OF won store [where i = 0 and frame = "0x1000" and k = 1]]
  have "?R (entry_at 0x1207 0 {0x1000} (Stored 0x1207))" by (simp add: move_def n)
  from reachable.step [OF this ready [where i = 0 and n = "0x1207"]] show ?thesis
    by (simp add: move_def put_bit_def INITIALIZING_BIT_def unset_bit_eq_and_not)
qed

theorem table_entry_shared_witness:
  "unat (Page_Table.reference_count 0x1007) + 1 = (1 :: nat) \<and> entry_frame 0x1007 = 0x1000"
  using table_entry_shared [OF entry_example] by simp

end
