(* ===== verification/Mappings.thy ===== *)
theory Mappings
  imports Kernel_Page Ordered_Map Page_Table
begin

text \<open>
  The mappings of an address space (\<^verbatim>\<open>tee/kernel/src/user/process/memory.rs\<close>): pages of
  user memory, mappings, and the loops that unmap, protect and discard ranges of pages and
  that search for free ranges. Pages are given by their numbers and addresses are natural
  numbers. The addition of an offset to an address belongs to the \<^verbatim>\<open>x86_64\<close> crate: it is the
  parameter \<open>va\<close>, of which \<open>va_law\<close> states that it adds within the user half; what it does
  elsewhere (it panics on an address that is not canonical) is left open.
\<close>

section \<open>User pages and mappings\<close>

definition PERM_EXECUTE :: u8 where "PERM_EXECUTE = 2 ^ 0"
definition PERM_WRITE :: u8 where "PERM_WRITE = 2 ^ 1"
definition PERM_READ :: u8 where "PERM_READ = 2 ^ 2"

record user_page =
  upage :: kernel_page
  uperms :: u8
  ushared :: bool

definition UserPage_new :: "kernel_page \<Rightarrow> u8 \<Rightarrow> bool \<Rightarrow> user_page" where
  "UserPage_new p perms shared = \<lparr>upage = p, uperms = perms, ushared = shared\<rparr>"

text \<open>\<open>loc\<close> says where in the dynamic memory the allocator has put a page.\<close>

definition DYNAMIC_start :: u64 where
  "DYNAMIC_start = 0x20000000000"

definition frame :: "(addr \<Rightarrow> nat) \<Rightarrow> kernel_page \<Rightarrow> u64" where
  "frame loc p = DYNAMIC_start + of_nat (loc (content p)) * 4096"

definition user_page_entry :: "(addr \<Rightarrow> nat) \<Rightarrow> user_page \<Rightarrow> u64 result" where
  "user_page_entry loc u =
     (let flags = USER;
          flags = put_flags WRITABLE (has_flags (uperms u) PERM_WRITE \<and> mutable (ushared u) (upage u)) flags;
          flags = put_flags EXECUTABLE (has_flags (uperms u) PERM_EXECUTE) flags in
      entry_new (frame loc (upage u)) flags)"

record 'b mapping =
  backing :: 'b
  page_offset :: nat
  permissions :: u8
  shared :: bool
  mpages :: "user_page option list"

abbreviation npages :: "'b mapping \<Rightarrow> nat" where
  "npages m \<equiv> length (mpages m)"

type_synonym 'b mappings = "(nat, 'b mapping) btree"

text \<open>\<^verbatim>\<open>Mapping::split_off\<close> and \<^verbatim>\<open>Mapping::set_perms\<close>.\<close>

definition split_off :: "nat \<Rightarrow> 'b mapping \<Rightarrow> ('b mapping \<times> 'b mapping) result" where
  "split_off n m =
     rassert (n \<le> npages m)
       (Ok (m\<lparr>mpages := take n (mpages m)\<rparr>,
          m\<lparr>page_offset := page_offset m + n, mpages := drop n (mpages m)\<rparr>))"

definition mapping_set_perms :: "u8 \<Rightarrow> 'b mapping \<Rightarrow> 'b mapping" where
  "mapping_set_perms perms m =
     m\<lparr>permissions := perms, mpages := map (map_option (\<lambda>u. u\<lparr>uperms := perms\<rparr>)) (mpages m)\<rparr>"

section \<open>Addresses\<close>

type_synonym va_add = "nat \<Rightarrow> nat \<Rightarrow> nat result"

definition va_law :: "va_add \<Rightarrow> bool" where
  "va_law va \<longleftrightarrow> (\<forall>a n. a + n < 2 ^ 47 \<longrightarrow> va a n = Ok (a + n))"

definition page_add :: "va_add \<Rightarrow> nat \<Rightarrow> nat \<Rightarrow> nat result" where
  "page_add va p n = rmap (\<lambda>a. a div 4096) (va (p * 4096) (n * 4096))"

text \<open>
  The cursor of \<^verbatim>\<open>upper_bound_mut(Included(page))\<close> after one step back: what lies before
  it, and what the next steps return, starting with the last mapping at or below the page.
\<close>

definition cursor_at :: "nat \<Rightarrow> 'b mappings \<Rightarrow> 'b mappings \<times> 'b mappings" where
  "cursor_at p ms =
     (let below = takeWhile (\<lambda>x. fst x \<le> p) ms; above = dropWhile (\<lambda>x. fst x \<le> p) ms in
      if below = [] then ([], above) else (butlast below, last below # above))"

section \<open>The loops\<close>

text \<open>\<^verbatim>\<open>unmap\<close>: what stays behind the cursor, and the mappings that were removed.\<close>

function unmap_loop ::
  "va_add \<Rightarrow> nat \<Rightarrow> nat \<Rightarrow> 'b mappings \<Rightarrow> ('b mappings \<times> 'b mapping list) result" where
  "unmap_loop va s e [] = Ok ([], [])"
| "unmap_loop va s e ((p, m) # ms) =
     rbind (usub (npages m) 1) (\<lambda>n.
     rbind (page_add va p n) (\<lambda>mapping_end.
       if p < s then
         (if mapping_end < s then Ok ((p, m) # ms, [])
          else rbind (split_off (s - p) m) (\<lambda>(m1, m2).
            rbind (unmap_loop va s e ((s, m2) # ms)) (\<lambda>(ms', rm). Ok ((p, m1) # ms', rm))))
       else if e < p then Ok ((p, m) # ms, [])
       else if mapping_end \<le> e then
         rbind (unmap_loop va s e ms) (\<lambda>(ms', rm). Ok (ms', m # rm))
       else
         rbind (split_off (e - p + 1) m) (\<lambda>(m1, m2).
         rbind (page_add va e 1) (\<lambda>k. Ok ((k, m2) # ms, [m1])))))"
  by pat_completeness auto
termination
  by (relation "measures [\<lambda>(va, s, e, ms). length ms,
      \<lambda>(va, s, e, ms). if ms \<noteq> [] \<and> fst (hd ms) < s then 1 else 0]") auto

function mprotect_loop ::
  "va_add \<Rightarrow> u8 \<Rightarrow> nat \<Rightarrow> nat \<Rightarrow> 'b mappings \<Rightarrow> 'b mappings result" where
  "mprotect_loop va perms s e [] = Ok []"
| "mprotect_loop va perms s e ((p, m) # ms) =
     rbind (page_add va p (npages m)) (\<lambda>x.
     rbind (usub x 1) (\<lambda>mapping_end.
       if p < s then
         ensure (s \<le> mapping_end) Fault
           (rbind (split_off (s - p) m) (\<lambda>(m1, m2).
            rbind (mprotect_loop va perms s e ((s, m2) # ms)) (\<lambda>ms'. Ok ((p, m1) # ms'))))
       else if e < p then Ok ((p, m) # ms)
       else if mapping_end \<le> e then
         rbind (mprotect_loop va perms s e ms) (\<lambda>ms'. Ok ((p, mapping_set_perms perms m) # ms'))
       else
         rbind (split_off (e - p + 1) m) (\<lambda>(m1, m2).
         rbind (page_add va e 1) (\<lambda>k. Ok ((p, mapping_set_perms perms m1) # (k, m2) # ms)))))"
  by pat_completeness auto
termination
  by (relation "measures [\<lambda>(va, perms, s, e, ms). length ms,
      \<lambda>(va, perms, s, e, ms). if ms \<noteq> [] \<and> fst (hd ms) < s then 1 else 0]") auto

text \<open>
  \<^verbatim>\<open>discard_pages\<close> changes mappings before it may fail, so the loop returns them with its
  outcome, together with the pages it dropped.
\<close>

fun somes :: "'a option list \<Rightarrow> 'a list" where
  "somes [] = []"
| "somes (None # xs) = somes xs"
| "somes (Some x # xs) = x # somes xs"

definition discard_range :: "nat \<Rightarrow> nat \<Rightarrow> 'b mapping \<Rightarrow> 'b mapping \<times> user_page list" where
  "discard_range a b m =
     (m\<lparr>mpages := take a (mpages m) @ replicate (b - a) None @ drop (max a b) (mpages m)\<rparr>,
      somes (drop a (take b (mpages m))))"

fun discard_loop ::
  "va_add \<Rightarrow> nat \<Rightarrow> nat \<Rightarrow> 'b mappings \<Rightarrow> unit result \<times> 'b mappings \<times> user_page list" where
  "discard_loop va s e [] = (if s = e then Ok () else Err NoMem, [], [])"
| "discard_loop va s e ((p, m) # ms) =
     (if s = e then (Ok (), (p, m) # ms, [])
      else if s < p then (Err NoMem, (p, m) # ms, [])
      else if npages m < s - p then (Err NoMem, (p, m) # ms, [])
      else let end_offset = min (e - p) (npages m) in
        (case discard_range (s - p) end_offset m of (m', dropped) \<Rightarrow>
        (case page_add va p end_offset of
          Ok s' \<Rightarrow> (case discard_loop va s' e ms of (r, ms', ds) \<Rightarrow> (r, (p, m') # ms', dropped @ ds))
        | Err x \<Rightarrow> (Err x, (p, m') # ms, dropped)
        | Panic \<Rightarrow> (Panic, (p, m') # ms, dropped))))"

definition is_free_pages :: "va_add \<Rightarrow> nat \<Rightarrow> nat \<Rightarrow> 'b mappings \<Rightarrow> bool result" where
  "is_free_pages va s e ms =
     (let below = takeWhile (\<lambda>x. fst x \<le> e) ms in
      if below = [] then Ok False
      else case last below of (p, m) \<Rightarrow>
        rbind (page_add va p (npages m)) (\<lambda>mapping_end. Ok (mapping_end \<le> s)))"

text \<open>
  The search of \<^verbatim>\<open>find_free_address\<close> walks the mappings below the base downwards; it returns
  the address below which the range fits.
\<close>

fun find_gap :: "va_add \<Rightarrow> nat \<Rightarrow> nat \<Rightarrow> 'b mappings \<Rightarrow> nat result" where
  "find_gap va sz last_address [] = Ok last_address"
| "find_gap va sz last_address ((p, m) # ms) =
     rbind (page_add va p (npages m)) (\<lambda>mapping_end.
       if mapping_end * 4096 \<le> last_address \<and> sz \<le> last_address - mapping_end * 4096
       then Ok last_address
       else find_gap va sz (p * 4096) ms)"

datatype abi = I386 | Amd64

definition align_up :: "nat \<Rightarrow> nat \<Rightarrow> nat" where
  "align_up n a = div_ceil n a * a"

definition find_free_address :: "va_add \<Rightarrow> nat \<Rightarrow> abi \<Rightarrow> 'b mappings \<Rightarrow> nat result" where
  "find_free_address va n abi ms =
     rassert (n \<noteq> 0) (rassert (n < 2 ^ 47)
     (let sz = align_up n 4096 + 4096 * 2;
          base = (case abi of I386 \<Rightarrow> 0xff000000 | Amd64 \<Rightarrow> 0x7fff00000000) in
      rbind (find_gap va sz base (rev (takeWhile (\<lambda>x. fst x \<le> base div 4096) ms))) (\<lambda>last_address.
      rbind (usub last_address sz) (\<lambda>a. va a 4096))))"

declare unmap_loop.simps(2) [simp del] mprotect_loop.simps(2) [simp del]

section \<open>Address spaces as maps\<close>

text \<open>
  What an address space maps at a page: the backing and the page of it, the permissions,
  whether it is shared, and the page itself once it was touched.
\<close>

type_synonym 'b cell = "'b \<times> nat \<times> u8 \<times> bool \<times> user_page option"

definition mapping_cell :: "'b mapping \<Rightarrow> nat \<Rightarrow> 'b cell" where
  "mapping_cell m i = (backing m, page_offset m + i, permissions m, shared m, mpages m ! i)"

fun cell :: "'b mappings \<Rightarrow> nat \<Rightarrow> 'b cell option" where
  "cell [] q = None"
| "cell ((p, m) # ms) q =
     (if p \<le> q \<and> q < p + npages m then Some (mapping_cell m (q - p)) else cell ms q)"

text \<open>The mappings are in order, not empty, do not overlap and end below the user half's end.\<close>

fun ms_ok :: "nat \<Rightarrow> 'b mappings \<Rightarrow> bool" where
  "ms_ok lo [] = True"
| "ms_ok lo ((p, m) # ms) =
     (lo \<le> p \<and> 0 < npages m \<and> (p + npages m) * 4096 < 2 ^ 47 \<and> ms_ok (p + npages m) ms)"

definition mapping_pages :: "'b mapping \<Rightarrow> user_page multiset" where
  "mapping_pages m = mset (somes (mpages m))"

definition ms_pages :: "'b mappings \<Rightarrow> user_page multiset" where
  "ms_pages ms = sum_list (map (mapping_pages \<circ> snd) ms)"

lemma ms_pages_simps [simp]:
  "ms_pages [] = {#}" "ms_pages ((p, m) # ms) = mapping_pages m + ms_pages ms"
  "ms_pages (ms @ ns) = ms_pages ms + ms_pages ns"
  by (simp_all add: ms_pages_def)

lemma somes_append [simp]: "somes (xs @ ys) = somes xs @ somes ys"
  by (induction xs rule: somes.induct) auto

lemma ms_ok_mono: "ms_ok lo ms \<Longrightarrow> lo' \<le> lo \<Longrightarrow> ms_ok lo' ms"
  by (cases ms) auto

lemma cell_below: "ms_ok lo ms \<Longrightarrow> q < lo \<Longrightarrow> cell ms q = None"
proof (induction ms arbitrary: lo)
  case (Cons x ms)
  obtain p m where x: "x = (p, m)" by (cases x)
  with Cons.prems have "q < p" "ms_ok (p + npages m) ms" by simp_all
  with Cons.IH [of "p + npages m"] x show ?case by simp
qed simp

fun ms_end :: "nat \<Rightarrow> 'b mappings \<Rightarrow> nat" where
  "ms_end lo [] = lo"
| "ms_end lo ((p, m) # ms) = ms_end (p + npages m) ms"

lemma ms_ok_append: "ms_ok lo (ms @ ns) \<longleftrightarrow> ms_ok lo ms \<and> ms_ok (ms_end lo ms) ns"
proof (induction ms arbitrary: lo)
  case (Cons x ms)
  then show ?case by (cases x) simp
qed simp

lemma cell_append: "cell (ms @ ns) q = (case cell ms q of None \<Rightarrow> cell ns q | Some c \<Rightarrow> Some c)"
proof (induction ms)
  case (Cons x ms)
  then show ?case by (cases x) simp
qed simp

lemma last_page_Ok:
  "va_law va \<Longrightarrow> 0 < n \<Longrightarrow> (p + n) * 4096 < 2 ^ 47 \<Longrightarrow>
   usub n 1 = (Ok (n - 1) :: nat result) \<and> page_add va p (n - 1) = Ok (p + (n - 1))"
  by (cases n) (auto simp: usub_def page_add_def va_law_def algebra_simps)

lemma page_add_Ok:
  "va_law va \<Longrightarrow> (p + n) * 4096 < 2 ^ 47 \<Longrightarrow> page_add va p n = Ok (p + n)"
  by (simp add: page_add_def va_law_def algebra_simps)

text \<open>Splitting a mapping keeps its pages where they are.\<close>

lemma split_off_Ok:
  assumes "split_off n m = Ok (m1, m2)"
  shows "npages m1 = n" "npages m2 = npages m - n" "n \<le> npages m"
    "i < n \<Longrightarrow> mapping_cell m1 i = mapping_cell m i"
    "i < npages m - n \<Longrightarrow> mapping_cell m2 i = mapping_cell m (n + i)"
    "mapping_pages m1 + mapping_pages m2 = mapping_pages m"
proof -
  have pages: "mset (somes (take n xs)) + mset (somes (drop n xs)) = mset (somes xs)"
    for xs :: "user_page option list"
    by (metis append_take_drop_id somes_append mset_append)
  have n: "n \<le> npages m" and m: "m1 = m\<lparr>mpages := take n (mpages m)\<rparr>"
    "m2 = m\<lparr>page_offset := page_offset m + n, mpages := drop n (mpages m)\<rparr>"
    using assms by (auto simp: split_off_def result_simps)
  show "npages m1 = n" "npages m2 = npages m - n" "n \<le> npages m" using n m by simp_all
  show "i < n \<Longrightarrow> mapping_cell m1 i = mapping_cell m i"
    "i < npages m - n \<Longrightarrow> mapping_cell m2 i = mapping_cell m (n + i)"
    using n m by (simp_all add: mapping_cell_def)
  show "mapping_pages m1 + mapping_pages m2 = mapping_pages m"
    using m pages by (simp add: mapping_pages_def)
qed

lemma split_off_ex: "n \<le> npages m \<Longrightarrow> \<exists>m1 m2. split_off n m = Ok (m1, m2)"
  by (simp add: split_off_def)

lemma cell_split:
  assumes sp: "split_off i m = Ok (m1, m2)" and i: "0 < i" "i < npages m"
  shows "cell ((p, m1) # (p + i, m2) # ms) = cell ((p, m) # ms)"
    "ms_ok lo ((p, m1) # (p + i, m2) # ms) \<longleftrightarrow> ms_ok lo ((p, m) # ms)"
    "ms_pages ((p, m1) # (p + i, m2) # ms) = ms_pages ((p, m) # ms)"
    "npages m1 = i" "npages m2 = npages m - i"
proof -
  note so = split_off_Ok [OF sp]
  show "cell ((p, m1) # (p + i, m2) # ms) = cell ((p, m) # ms)"
  proof
    fix q
    have "mapping_cell m2 (q - (p + i)) = mapping_cell m (q - p)" if "p + i \<le> q" "q < p + npages m"
      using so(5) [of "q - (p + i)"] that i by (simp add: diff_diff_add less_diff_conv2)
    then show "cell ((p, m1) # (p + i, m2) # ms) q = cell ((p, m) # ms) q" using so i by auto
  qed
  show "ms_ok lo ((p, m1) # (p + i, m2) # ms) \<longleftrightarrow> ms_ok lo ((p, m) # ms)" using so i by auto
  show "ms_pages ((p, m1) # (p + i, m2) # ms) = ms_pages ((p, m) # ms)"
    using so(6) by (simp add: ac_simps flip: so(6))
  show "npages m1 = i" "npages m2 = npages m - i" using so by simp_all
qed

section \<open>Unmapping\<close>

text \<open>
  The mapping the cursor starts at decides: when it lies below the range and ends before it,
  the loop stops there.
\<close>

definition starts_in_gap :: "nat \<Rightarrow> 'b mappings \<Rightarrow> bool" where
  "starts_in_gap s ms \<longleftrightarrow> (case ms of [] \<Rightarrow> False | (p, m) # _ \<Rightarrow> p + npages m \<le> s)"

lemma unmap_loop_step:
  assumes "va_law va" "0 < npages m" "(p + npages m) * 4096 < 2 ^ 47"
  shows "unmap_loop va s e ((p, m) # ms) =
    (if p < s then
       (if p + npages m \<le> s then Ok ((p, m) # ms, [])
        else rbind (split_off (s - p) m) (\<lambda>(m1, m2).
          rbind (unmap_loop va s e ((s, m2) # ms)) (\<lambda>(ms', rm). Ok ((p, m1) # ms', rm))))
     else if e < p then Ok ((p, m) # ms, [])
     else if p + npages m \<le> e + 1 then
       rbind (unmap_loop va s e ms) (\<lambda>(ms', rm). Ok (ms', m # rm))
     else
       rbind (split_off (e - p + 1) m) (\<lambda>(m1, m2).
       rbind (page_add va e 1) (\<lambda>k. Ok ((k, m2) # ms, [m1]))))"
proof -
  have "p + (npages m - 1) < s \<longleftrightarrow> p + npages m \<le> s" "p + (npages m - 1) \<le> e \<longleftrightarrow> p + npages m \<le> e + 1"
    using assms(2) by linarith+
  with last_page_Ok [OF assms] show ?thesis by (subst unmap_loop.simps(2)) (simp only: rbind.simps)
qed

lemma unmap_loop_gap:
  assumes "va_law va" "ms_ok lo ms" "starts_in_gap s ms"
  shows "unmap_loop va s e ms = Ok (ms, [])"
proof -
  obtain p m ns where ms: "ms = (p, m) # ns" "p + npages m \<le> s"
    using assms(3) by (auto simp: starts_in_gap_def split: list.splits)
  with assms(2) have "0 < npages m" "(p + npages m) * 4096 < 2 ^ 47" by simp_all
  moreover from this(1) ms(2) have "p < s" by linarith
  ultimately show ?thesis using ms by (simp only: unmap_loop_step [OF assms(1)] if_True)
qed

text \<open>A range of the cells is removed.\<close>

definition unmapped :: "nat \<Rightarrow> nat \<Rightarrow> nat \<Rightarrow> 'b mappings \<Rightarrow> 'b mappings \<Rightarrow> 'b mapping list \<Rightarrow> bool" where
  "unmapped lo s e ms ms' rm \<longleftrightarrow> ms_ok lo ms' \<and>
     (\<forall>q. cell ms' q = (if s \<le> q \<and> q \<le> e then None else cell ms q)) \<and>
     ms_pages ms = ms_pages ms' + sum_list (map mapping_pages rm)"

lemma unmapped_tail:
  assumes "unmapped (p + npages m) s e ms ms' rm" "p + npages m \<le> s" "ms_ok lo ((p, m) # ms)"
  shows "unmapped lo s e ((p, m) # ms) ((p, m) # ms') rm"
  using assms by (auto simp: unmapped_def ac_simps)

lemma unmapped_whole:
  assumes "unmapped (p + npages m) s e ms ms' rm" "s \<le> p" "p + npages m \<le> e + 1" "ms_ok lo ((p, m) # ms)"
  shows "unmapped lo s e ((p, m) # ms) ms' (m # rm)"
proof -
  have "ms_ok lo ms'" by (rule ms_ok_mono [of "p + npages m"]) (use assms in \<open>auto simp: unmapped_def\<close>)
  with assms show ?thesis by (auto simp: unmapped_def ac_simps)
qed

lemma unmapped_front:
  assumes "ms_ok lo ((p, m) # ms)" "s \<le> p" "p + npages m = e + 1"
  shows "unmapped lo s e ((p, m) # ms) ms [m]"
proof -
  have "unmapped (p + npages m) s e ms ms []"
    using assms cell_below [of "e + 1" ms] by (auto simp: unmapped_def)
  from unmapped_whole [OF this] assms show ?thesis by simp
qed

lemma unmapped_split:
  assumes "split_off i m = Ok (m1, m2)" "0 < i" "i < npages m" "ms_ok lo ((p, m) # ms)"
    and "unmapped lo s e ((p, m1) # (p + i, m2) # ms) ms' rm"
  shows "unmapped lo s e ((p, m) # ms) ms' rm"
  using assms(5) cell_split(1,3) [OF assms(1,2,3), of p ms] unfolding unmapped_def by metis

lemma no_gap_behind: "0 < n \<Longrightarrow> ms_ok (p + n) ms \<Longrightarrow> s \<le> p \<Longrightarrow> \<not> starts_in_gap s ms"
  by (cases ms) (auto simp: starts_in_gap_def)

lemma unmap_loop_Ok:
  assumes "va_law va" "ms_ok lo ms" "s \<le> e" "\<not> starts_in_gap s ms"
  shows "\<exists>ms' rm. unmap_loop va s e ms = Ok (ms', rm) \<and> unmapped lo s e ms ms' rm"
  using assms
proof (induction va s e ms arbitrary: lo rule: unmap_loop.induct)
  case (1 va s e)
  then show ?case by (simp add: unmapped_def)
next
  case (2 va s e p m ms)
  let ?n = "npages m"
  have n: "0 < ?n" "(p + ?n) * 4096 < 2 ^ 47" "ms_ok (p + ?n) ms" "lo \<le> p" using "2.prems"(2) by simp_all
  note step = unmap_loop_step [OF "2.prems"(1) n(1,2), of s e ms]
  consider "p < s" "s < p + ?n" | "s \<le> p" "e < p" | "s \<le> p" "p \<le> e" "p + ?n \<le> e + 1"
    | "s \<le> p" "p \<le> e" "e + 1 < p + ?n" using "2.prems"(4) by (fastforce simp: starts_in_gap_def)
  then show ?case
  proof cases
    case 1
    have i: "0 < s - p" "s - p < ?n" "p + (s - p) = s" using 1 by linarith+
    then obtain m1 m2 where sp: "split_off (s - p) m = Ok (m1, m2)" using split_off_ex [of "s - p" m] by fastforce
    note so = cell_split(1-3) [OF sp i(1,2), where p = p and ms = ms, unfolded i(3)] cell_split(4,5) [OF sp i(1,2)]
    have ok: "ms_ok lo ((p, m1) # (s, m2) # ms)" using so(2) "2.prems"(2) by blast
    then have ok2: "ms_ok s ((s, m2) # ms)" using so(4) i(3) by simp
    have "0 < npages m2" using so(5) i by linarith
    then have gap: "\<not> starts_in_gap s ((s, m2) # ms)" by (simp add: starts_in_gap_def)
    have lst: "\<not> p + (?n - 1) < s" using 1 by linarith
    from "2.IH"(1) [OF 1(1) lst "2.prems"(1) ok2 "2.prems"(3) gap]
    obtain ms' rm where
      r: "unmap_loop va s e ((s, m2) # ms) = Ok (ms', rm)" "unmapped s s e ((s, m2) # ms) ms' rm" by blast
    have "unmap_loop va s e ((p, m) # ms) = Ok ((p, m1) # ms', rm)" using step 1 sp r(1) by simp
    moreover have "unmapped lo s e ((p, m1) # (s, m2) # ms) ((p, m1) # ms') rm"
      by (rule unmapped_tail) (use r(2) so(4) i(3) ok in simp_all)
    then have "unmapped lo s e ((p, m) # ms) ((p, m1) # ms') rm"
      using unmapped_split [OF sp i(1,2) "2.prems"(2)] i(3) by simp
    ultimately show ?thesis by blast
  next
    case 2
    then have "cell ((p, m) # ms) q = None" if "s \<le> q" "q \<le> e" for q
      using that cell_below [of p "(p, m) # ms" q] n by simp
    then have "unmapped lo s e ((p, m) # ms) ((p, m) # ms) []"
      using "2.prems"(2) unfolding unmapped_def by simp
    moreover have "unmap_loop va s e ((p, m) # ms) = Ok ((p, m) # ms, [])" using step 2 by simp
    ultimately show ?thesis by blast
  next
    case 3
    have gap: "\<not> starts_in_gap s ms" by (rule no_gap_behind [OF n(1,3) 3(1)])
    have c: "\<not> p < s" "\<not> e < p" "p + (?n - 1) \<le> e" using 3 by linarith+
    from "2.IH"(2) [OF c "2.prems"(1) n(3) "2.prems"(3) gap]
    obtain ms' rm where
      r: "unmap_loop va s e ms = Ok (ms', rm)" "unmapped (p + ?n) s e ms ms' rm" by blast
    have "unmap_loop va s e ((p, m) # ms) = Ok (ms', m # rm)" using step 3 r(1) by simp
    with unmapped_whole [OF r(2) 3(1,3) "2.prems"(2)] show ?thesis by blast
  next
    case 4
    have bound: "(e + 1) * 4096 < 2 ^ 47" using 4(3) n(2) by simp
    have i: "0 < e - p + 1" "e - p + 1 < ?n" "p + (e - p + 1) = e + 1" using 4 by linarith+
    then obtain m1 m2 where sp: "split_off (e - p + 1) m = Ok (m1, m2)" using split_off_ex [of "e - p + 1" m] by fastforce
    note so = cell_split(1-3) [OF sp i(1,2), where p = p and ms = ms, unfolded i(3)] cell_split(4,5) [OF sp i(1,2)]
    have ok: "ms_ok lo ((p, m1) # (e + 1, m2) # ms)" using so(2) "2.prems"(2) by blast
    have "unmapped lo s e ((p, m1) # (e + 1, m2) # ms) ((e + 1, m2) # ms) [m1]"
      by (rule unmapped_front [OF ok 4(1)]) (use so(4) i(3) in simp)
    then have "unmapped lo s e ((p, m) # ms) ((e + 1, m2) # ms) [m1]"
      using unmapped_split [OF sp i(1,2) "2.prems"(2)] i(3) by simp
    moreover have "unmap_loop va s e ((p, m) # ms) = Ok ((e + 1, m2) # ms, [m1])"
      using step 4 sp page_add_Ok [OF "2.prems"(1) bound] by simp
    ultimately show ?thesis by blast
  qed
qed

section \<open>Protecting\<close>

definition cell_set_perms :: "u8 \<Rightarrow> 'b cell \<Rightarrow> 'b cell" where
  "cell_set_perms perms c =
     (case c of (b, off, _, sh, u) \<Rightarrow> (b, off, perms, sh, map_option (\<lambda>u. u\<lparr>uperms := perms\<rparr>) u))"

lemma npages_set_perms [simp]: "npages (mapping_set_perms perms m) = npages m"
  by (simp add: mapping_set_perms_def)

lemma cell_mapping_set_perms:
  "i < npages m \<Longrightarrow> mapping_cell (mapping_set_perms perms m) i = cell_set_perms perms (mapping_cell m i)"
  by (simp add: mapping_cell_def mapping_set_perms_def cell_set_perms_def)

lemma somes_map: "somes (map (map_option f) xs) = map f (somes xs)"
  by (induction xs rule: somes.induct) simp_all

lemma mapping_pages_set_perms:
  "image_mset upage (mapping_pages (mapping_set_perms perms m)) = image_mset upage (mapping_pages m)"
  by (simp add: mapping_pages_def mapping_set_perms_def somes_map multiset.map_comp comp_def)

definition protected :: "nat \<Rightarrow> nat \<Rightarrow> nat \<Rightarrow> u8 \<Rightarrow> 'b mappings \<Rightarrow> 'b mappings \<Rightarrow> bool" where
  "protected lo s e perms ms ms' \<longleftrightarrow> ms_ok lo ms' \<and>
     (\<forall>q. cell ms' q = (if s \<le> q \<and> q \<le> e then map_option (cell_set_perms perms) (cell ms q) else cell ms q)) \<and>
     image_mset upage (ms_pages ms') = image_mset upage (ms_pages ms)"

lemma protected_tail:
  assumes "protected (p + npages m) s e perms ms ms'" "p + npages m \<le> s" "ms_ok lo ((p, m) # ms)"
  shows "protected lo s e perms ((p, m) # ms) ((p, m) # ms')"
  using assms by (auto simp: protected_def)

lemma protected_whole:
  assumes "protected (p + npages m) s e perms ms ms'" "s \<le> p" "p + npages m \<le> e + 1" "ms_ok lo ((p, m) # ms)"
  shows "protected lo s e perms ((p, m) # ms) ((p, mapping_set_perms perms m) # ms')"
  using assms by (auto simp: protected_def cell_mapping_set_perms mapping_pages_set_perms)

lemma protected_front:
  assumes "ms_ok lo ((p, m) # ms)" "s \<le> p" "p + npages m = e + 1"
  shows "protected lo s e perms ((p, m) # ms) ((p, mapping_set_perms perms m) # ms)"
proof -
  have "protected (p + npages m) s e perms ms ms"
    using assms cell_below [of "e + 1" ms] by (auto simp: protected_def)
  from protected_whole [OF this] assms show ?thesis by simp
qed

lemma protected_split:
  assumes "split_off i m = Ok (m1, m2)" "0 < i" "i < npages m" "ms_ok lo ((p, m) # ms)"
    and "protected lo s e perms ((p, m1) # (p + i, m2) # ms) ms'"
  shows "protected lo s e perms ((p, m) # ms) ms'"
  using assms(5) cell_split(1,3) [OF assms(1,2,3), of p ms] unfolding protected_def by metis

lemma mprotect_loop_step:
  assumes "va_law va" "0 < npages m" "(p + npages m) * 4096 < 2 ^ 47"
  shows "mprotect_loop va perms s e ((p, m) # ms) =
    (if p < s then
       ensure (s < p + npages m) Fault
         (rbind (split_off (s - p) m) (\<lambda>(m1, m2).
          rbind (mprotect_loop va perms s e ((s, m2) # ms)) (\<lambda>ms'. Ok ((p, m1) # ms'))))
     else if e < p then Ok ((p, m) # ms)
     else if p + npages m \<le> e + 1 then
       rbind (mprotect_loop va perms s e ms) (\<lambda>ms'. Ok ((p, mapping_set_perms perms m) # ms'))
     else
       rbind (split_off (e - p + 1) m) (\<lambda>(m1, m2).
       rbind (page_add va e 1) (\<lambda>k. Ok ((p, mapping_set_perms perms m1) # (k, m2) # ms))))"
proof -
  have "s \<le> p + npages m - 1 \<longleftrightarrow> s < p + npages m" "p + npages m - 1 \<le> e \<longleftrightarrow> p + npages m \<le> e + 1"
    "usub (p + npages m) 1 = (Ok (p + npages m - 1) :: nat result)"
    using assms(2) by (linarith, linarith, simp add: usub_def Suc_le_eq)
  with page_add_Ok [OF assms(1,3)] show ?thesis by (subst mprotect_loop.simps(2)) (simp only: rbind.simps)
qed

lemma mprotect_loop_gap:
  assumes "va_law va" "ms_ok lo ms" "starts_in_gap s ms"
  shows "mprotect_loop va perms s e ms = Err Fault"
proof -
  obtain p m ns where ms: "ms = (p, m) # ns" "p + npages m \<le> s"
    using assms(3) by (auto simp: starts_in_gap_def split: list.splits)
  with assms(2) have "0 < npages m" "(p + npages m) * 4096 < 2 ^ 47" by simp_all
  moreover from this(1) ms(2) have "p < s" "\<not> s < p + npages m" by linarith+
  ultimately show ?thesis using ms by (simp only: mprotect_loop_step [OF assms(1)] if_True ensure_simps)
qed

lemma mprotect_loop_Ok:
  assumes "va_law va" "ms_ok lo ms" "s \<le> e" "\<not> starts_in_gap s ms"
  shows "\<exists>ms'. mprotect_loop va perms s e ms = Ok ms' \<and> protected lo s e perms ms ms'"
  using assms
proof (induction va perms s e ms arbitrary: lo rule: mprotect_loop.induct)
  case (1 va perms s e)
  then show ?case by (simp add: protected_def)
next
  case (2 va perms s e p m ms)
  let ?n = "npages m"
  have n: "0 < ?n" "(p + ?n) * 4096 < 2 ^ 47" "ms_ok (p + ?n) ms" "lo \<le> p" using "2.prems"(2) by simp_all
  note step = mprotect_loop_step [OF "2.prems"(1) n(1,2), of perms s e ms]
  consider "p < s" "s < p + ?n" | "s \<le> p" "e < p" | "s \<le> p" "p \<le> e" "p + ?n \<le> e + 1"
    | "s \<le> p" "p \<le> e" "e + 1 < p + ?n" using "2.prems"(4) by (fastforce simp: starts_in_gap_def)
  then show ?case
  proof cases
    case 1
    have i: "0 < s - p" "s - p < ?n" "p + (s - p) = s" using 1 by linarith+
    then obtain m1 m2 where sp: "split_off (s - p) m = Ok (m1, m2)" using split_off_ex [of "s - p" m] by fastforce
    note so = cell_split(1-3) [OF sp i(1,2), where p = p and ms = ms, unfolded i(3)] cell_split(4,5) [OF sp i(1,2)]
    have ok: "ms_ok lo ((p, m1) # (s, m2) # ms)" using so(2) "2.prems"(2) by blast
    then have ok2: "ms_ok s ((s, m2) # ms)" using so(4) i(3) by simp
    have "0 < npages m2" using so(5) i by linarith
    then have gap: "\<not> starts_in_gap s ((s, m2) # ms)" by (simp add: starts_in_gap_def)
    from "2.IH"(1) [OF 1(1) "2.prems"(1) ok2 "2.prems"(3) gap]
    obtain ms' where r: "mprotect_loop va perms s e ((s, m2) # ms) = Ok ms'"
      "protected s s e perms ((s, m2) # ms) ms'" by blast
    have "mprotect_loop va perms s e ((p, m) # ms) = Ok ((p, m1) # ms')" using step 1 sp r(1) by simp
    moreover have "protected lo s e perms ((p, m1) # (s, m2) # ms) ((p, m1) # ms')"
      by (rule protected_tail) (use r(2) so(4) i(3) ok in simp_all)
    then have "protected lo s e perms ((p, m) # ms) ((p, m1) # ms')"
      using protected_split [OF sp i(1,2) "2.prems"(2)] i(3) by simp
    ultimately show ?thesis by blast
  next
    case 2
    then have "cell ((p, m) # ms) q = None" if "s \<le> q" "q \<le> e" for q
      using that cell_below [of p "(p, m) # ms" q] n by simp
    then have "protected lo s e perms ((p, m) # ms) ((p, m) # ms)"
      using "2.prems"(2) unfolding protected_def by simp
    moreover have "mprotect_loop va perms s e ((p, m) # ms) = Ok ((p, m) # ms)" using step 2 by simp
    ultimately show ?thesis by blast
  next
    case 3
    have gap: "\<not> starts_in_gap s ms" by (rule no_gap_behind [OF n(1,3) 3(1)])
    have c: "\<not> p < s" "\<not> e < p" "p + ?n - 1 \<le> e" using 3 by linarith+
    from "2.IH"(2) [OF c "2.prems"(1) n(3) "2.prems"(3) gap]
    obtain ms' where r: "mprotect_loop va perms s e ms = Ok ms'" "protected (p + ?n) s e perms ms ms'" by blast
    have "mprotect_loop va perms s e ((p, m) # ms) = Ok ((p, mapping_set_perms perms m) # ms')"
      using step 3 r(1) by simp
    with protected_whole [OF r(2) 3(1,3) "2.prems"(2)] show ?thesis by blast
  next
    case 4
    have bound: "(e + 1) * 4096 < 2 ^ 47" using 4(3) n(2) by simp
    have i: "0 < e - p + 1" "e - p + 1 < ?n" "p + (e - p + 1) = e + 1" using 4 by linarith+
    then obtain m1 m2 where sp: "split_off (e - p + 1) m = Ok (m1, m2)" using split_off_ex [of "e - p + 1" m] by fastforce
    note so = cell_split(1-3) [OF sp i(1,2), where p = p and ms = ms, unfolded i(3)] cell_split(4,5) [OF sp i(1,2)]
    have ok: "ms_ok lo ((p, m1) # (e + 1, m2) # ms)" using so(2) "2.prems"(2) by blast
    have "protected lo s e perms ((p, m1) # (e + 1, m2) # ms) ((p, mapping_set_perms perms m1) # (e + 1, m2) # ms)"
      by (rule protected_front [OF ok 4(1)]) (use so(4) i(3) in simp)
    then have "protected lo s e perms ((p, m) # ms) ((p, mapping_set_perms perms m1) # (e + 1, m2) # ms)"
      using protected_split [OF sp i(1,2) "2.prems"(2)] i(3) by simp
    moreover have "mprotect_loop va perms s e ((p, m) # ms) = Ok ((p, mapping_set_perms perms m1) # (e + 1, m2) # ms)"
      using step 4 sp page_add_Ok [OF "2.prems"(1) bound] by simp
    ultimately show ?thesis by blast
  qed
qed

section \<open>The cursor\<close>

lemma ms_end_ge: "ms_ok lo ms \<Longrightarrow> lo \<le> ms_end lo ms"
proof (induction ms arbitrary: lo)
  case (Cons x ms)
  obtain p m where x: "x = (p, m)" by (cases x)
  with Cons.prems have "lo \<le> p + npages m" "ms_ok (p + npages m) ms" by simp_all
  with Cons.IH [of "p + npages m"] x show ?case by simp
qed simp

lemma cell_above: "ms_ok lo ms \<Longrightarrow> ms_end lo ms \<le> q \<Longrightarrow> cell ms q = None"
proof (induction ms arbitrary: lo)
  case (Cons x ms)
  obtain p m where x: "x = (p, m)" by (cases x)
  with Cons.prems have ok: "ms_ok (p + npages m) ms" "ms_end (p + npages m) ms \<le> q" by simp_all
  with ms_end_ge have "p + npages m \<le> q" by (metis order_trans)
  with Cons.IH [OF ok] x show ?case by simp
qed simp

lemma ms_ok_keys: "ms_ok lo ms \<Longrightarrow> (p, m) \<in> set ms \<Longrightarrow> lo \<le> p"
proof (induction ms arbitrary: lo)
  case (Cons x ms)
  obtain a b where x: "x = (a, b)" by (cases x)
  show ?case
  proof (cases "(p, m) = x")
    case False
    with Cons x have "a + npages b \<le> p" by auto
    with Cons.prems x show ?thesis by simp
  qed (use Cons.prems x in auto)
qed simp

text \<open>Where the cursor starts: behind it nothing reaches the page, and what follows starts with
  the last mapping at or below the page, or there is none.\<close>

definition below :: "nat \<Rightarrow> 'b mappings \<Rightarrow> bool" where
  "below s ms \<longleftrightarrow> (\<exists>p m. (p, m) \<in> set ms \<and> p < s)"

lemma dropWhile_keys:
  assumes ok: "ms_ok lo ms" and k: "(k, x) \<in> set (dropWhile (\<lambda>x. fst x \<le> s) ms)"
  shows "s < k"
  using assms
proof (induction ms arbitrary: lo)
  case (Cons y ms)
  obtain p m where y: "y = (p, m)" by (cases y)
  show ?case
  proof (cases "p \<le> s")
    case True
    with Cons y show ?thesis by auto
  next
    case False
    have "ms_ok p ((p, m) # ms)" using Cons.prems y by simp
    with False Cons.prems(2) y ms_ok_keys [of p "(p, m) # ms" k x] show ?thesis by simp
  qed
qed simp

lemma cursor_at_cases:
  assumes ok: "ms_ok 0 ms" and c: "cursor_at s ms = (pre, post)"
  obtains "pre = []" "post = ms" "\<And>k x. (k, x) \<in> set ms \<Longrightarrow> s < k"
  | p m ns where "post = (p, m) # ns" "ms = pre @ (p, m) # ns" "p \<le> s" "\<And>k x. (k, x) \<in> set ns \<Longrightarrow> s < k"
proof (cases "takeWhile (\<lambda>x. fst x \<le> s) ms" rule: rev_cases)
  case Nil
  then have d: "dropWhile (\<lambda>x. fst x \<le> s) ms = ms" by (metis append_Nil takeWhile_dropWhile_id)
  with c Nil that(1) dropWhile_keys [OF ok, of _ _ s] show ?thesis by (simp add: cursor_at_def)
next
  case (snoc ys y)
  obtain p m where y: "y = (p, m)" by (cases y)
  have "p \<le> s" using snoc y by (metis fst_conv in_set_conv_decomp set_takeWhileD)
  moreover have "ms = ys @ (p, m) # dropWhile (\<lambda>x. fst x \<le> s) ms"
    using snoc y by (metis append.assoc append_Cons append_Nil takeWhile_dropWhile_id)
  ultimately show ?thesis
    using c snoc y that(2) [of p m "dropWhile (\<lambda>x. fst x \<le> s) ms"] dropWhile_keys [OF ok, of _ _ s]
    by (simp add: cursor_at_def)
qed

lemma cell_keys_above: "(\<And>k x. (k, x) \<in> set ms \<Longrightarrow> s < k) \<Longrightarrow> cell ms s = None"
proof (induction ms)
  case (Cons y ms)
  obtain p m where y: "y = (p, m)" by (cases y)
  have "s < p" using Cons.prems [of p m] y by simp
  moreover have "cell ms s = None" by (rule Cons.IH) (use Cons.prems in auto)
  ultimately show ?case using y by simp
qed simp

lemma cursor_at_spec:
  assumes ok: "ms_ok 0 ms" and c: "cursor_at s ms = (pre, post)"
  shows "ms = pre @ post" "ms_ok 0 pre" "ms_ok (ms_end 0 pre) post" "ms_end 0 pre \<le> s"
    "starts_in_gap s post \<longleftrightarrow> below s ms \<and> cell ms s = None"
proof -
  show ms: "ms = pre @ post" by (rule cursor_at_cases [OF ok c]) simp_all
  from ok show ok': "ms_ok 0 pre" "ms_ok (ms_end 0 pre) post" by (simp_all add: ms ms_ok_append)
  show pre: "ms_end 0 pre \<le> s"
    by (rule cursor_at_cases [OF ok c]) (use ok' in \<open>auto\<close>)
  have cell: "cell ms s = cell post s" using cell_above [OF ok'(1) pre] by (simp add: ms cell_append)
  show "starts_in_gap s post \<longleftrightarrow> below s ms \<and> cell ms s = None"
  proof (rule cursor_at_cases [OF ok c])
    assume "pre = []" "post = ms" and k: "\<And>k x. (k, x) \<in> set ms \<Longrightarrow> s < k"
    have "\<not> starts_in_gap s ms"
      using k by (cases ms) (fastforce simp: starts_in_gap_def)+
    with \<open>post = ms\<close> show ?thesis using k by (fastforce simp: below_def)
  next
    fix p m ns assume p: "post = (p, m) # ns" "ms = pre @ (p, m) # ns" "p \<le> s"
      and k: "\<And>k x. (k, x) \<in> set ns \<Longrightarrow> s < k"
    have n: "0 < npages m" using ok'(2) p(1) by simp
    have "cell post s = None \<longleftrightarrow> p + npages m \<le> s" using p cell_keys_above [OF k] by auto
    moreover have "below s ms" if "p + npages m \<le> s"
    proof -
      have "p < s" using n that by linarith
      then show ?thesis using p(2) unfolding below_def by (intro exI [of _ p] exI [of _ m]) simp
    qed
    ultimately show ?thesis using p(1) cell by (auto simp: starts_in_gap_def)
  qed
qed

lemma ms_ok_join: "ms_ok lo pre \<Longrightarrow> ms_ok (ms_end lo pre) post \<Longrightarrow> ms_ok lo (pre @ post)"
  by (simp add: ms_ok_append)

section \<open>Discarding\<close>

definition cell_discard :: "'b cell \<Rightarrow> 'b cell" where
  "cell_discard c = (case c of (b, off, perms, sh, u) \<Rightarrow> (b, off, perms, sh, None))"

lemma somes_replicate_None [simp]: "somes (replicate n None) = []"
  by (induction n) simp_all

lemma discard_range_spec:
  assumes "a \<le> b" "b \<le> npages m" "discard_range a b m = (m', ds)"
  shows "npages m' = npages m" "mapping_pages m = mapping_pages m' + mset ds"
    "i < npages m \<Longrightarrow> mapping_cell m' i =
       (if a \<le> i \<and> i < b then cell_discard (mapping_cell m i) else mapping_cell m i)"
proof -
  have m': "m' = m\<lparr>mpages := take a (mpages m) @ replicate (b - a) None @ drop b (mpages m)\<rparr>"
    "ds = somes (drop a (take b (mpages m)))"
    using assms by (auto simp: discard_range_def max_def)
  show "npages m' = npages m" using m' assms(1,2) by simp
  show "i < npages m \<Longrightarrow> mapping_cell m' i =
       (if a \<le> i \<and> i < b then cell_discard (mapping_cell m i) else mapping_cell m i)"
    using m' assms(1,2) by (auto simp: mapping_cell_def cell_discard_def nth_append)
  have "mpages m = take a (mpages m) @ drop a (take b (mpages m)) @ drop b (mpages m)"
    using assms(1) by (metis append_assoc append_take_drop_id drop_take le_add_diff_inverse take_add)
  then have "somes (mpages m) = somes (take a (mpages m)) @ ds @ somes (drop b (mpages m))"
    unfolding m'(2) by (metis somes_append)
  then show "mapping_pages m = mapping_pages m' + mset ds"
    by (simp add: mapping_pages_def m'(1))
qed

definition discarded :: "nat \<Rightarrow> nat \<Rightarrow> nat \<Rightarrow> 'b mappings \<Rightarrow> 'b mappings \<Rightarrow> user_page list \<Rightarrow> bool" where
  "discarded lo s t ms ms' ds \<longleftrightarrow> ms_ok lo ms' \<and> ms_pages ms = ms_pages ms' + mset ds \<and> s \<le> t \<and>
     (\<forall>q. cell ms' q = (if s \<le> q \<and> q < t then map_option cell_discard (cell ms q) else cell ms q)) \<and>
     (\<forall>q. s \<le> q \<and> q < t \<longrightarrow> cell ms q \<noteq> None)"

lemma discarded_none: "ms_ok lo ms \<Longrightarrow> discarded lo s s ms ms []"
  by (auto simp: discarded_def)

lemma discarded_cons:
  assumes ok: "ms_ok lo ((p, m) # ms)" and s: "p \<le> s" "s \<le> p + b" "b \<le> npages m"
    and m': "discard_range (s - p) b m = (m', ds)"
    and tail: "discarded (p + npages m) (p + b) t ms ms' ds'" and t: "b = npages m \<or> t = p + b"
  shows "discarded lo s t ((p, m) # ms) ((p, m') # ms') (ds @ ds')"
proof -
  have "s - p \<le> b" using s by simp
  note d = discard_range_spec [OF this s(3) m']
  have "ms_ok lo ((p, m') # ms')" using ok tail d(1) by (simp add: discarded_def)
  moreover have "ms_pages ((p, m) # ms) = ms_pages ((p, m') # ms') + mset (ds @ ds')"
    using tail d(2) by (simp add: discarded_def ac_simps)
  moreover have "s \<le> t" using tail s(2) by (simp add: discarded_def)
  moreover have "cell ((p, m') # ms') q = (if s \<le> q \<and> q < t then map_option cell_discard (cell ((p, m) # ms) q)
      else cell ((p, m) # ms) q)" for q
  proof (cases "p \<le> q \<and> q < p + npages m")
    case True
    then have "q - p < npages m" "s - p \<le> q - p \<longleftrightarrow> s \<le> q" "q - p < b \<longleftrightarrow> q < p + b" using s by linarith+
    moreover have "q < p + b \<longleftrightarrow> q < t" using True t tail by (auto simp: discarded_def)
    ultimately show ?thesis using True d(1) d(3) [of "q - p"] by simp
  next
    case False
    then have "s \<le> q \<longleftrightarrow> p + b \<le> q" using s by linarith
    then show ?thesis using False d(1) tail by (auto simp: discarded_def)
  qed
  moreover have "cell ((p, m) # ms) q \<noteq> None" if "s \<le> q" "q < t" for q
    using tail that s by (cases "q < p + npages m") (auto simp: discarded_def)
  ultimately show ?thesis by (auto simp: discarded_def)
qed

lemma discard_loop_spec:
  assumes "va_law va" "ms_ok lo ms" "s \<le> e" "e * 4096 < 2 ^ 47"
    and "\<And>x ns k y. ms = x # ns \<Longrightarrow> (k, y) \<in> set ns \<Longrightarrow> s < k"
    and "discard_loop va s e ms = (r, ms', ds)"
  shows "\<exists>t \<le> e. discarded lo s t ms ms' ds \<and>
    (r = Ok () \<and> t = e \<or> r = Err NoMem \<and> t < e \<and> cell ms t = None)"
  using assms
proof (induction va s e ms arbitrary: lo r ms' ds rule: discard_loop.induct)
  case (1 va s e)
  then show ?case by (auto simp: discarded_none split: if_splits)
next
  case (2 va s e p m ms)
  have n: "0 < npages m" "ms_ok (p + npages m) ms" "lo \<le> p" using "2.prems"(2) by simp_all
  have tail: "cell ms s = None"
    by (rule cell_keys_above) (use "2.prems"(5) in blast)
  consider "s = e" | "s < e" "s < p \<or> p + npages m < s" | "s < e" "p \<le> s" "s \<le> p + npages m"
    using "2.prems"(3) by linarith
  then show ?case
  proof cases
    case 1
    then show ?thesis using "2.prems"(2,6) by (auto simp: discarded_none)
  next
    case 2
    then have "cell ((p, m) # ms) s = None" using tail by auto
    moreover have "r = Err NoMem" "ms' = (p, m) # ms" "ds = []" using "2.prems"(6) 2 by (auto split: if_splits)
    ultimately show ?thesis
      using discarded_none [OF "2.prems"(2), of s] 2(1) by (intro exI [of _ s]) (simp del: cell.simps)
  next
    case 3
    define b where "b = min (e - p) (npages m)"
    obtain m' ds1 where m': "discard_range (s - p) b m = (m', ds1)" by (cases "discard_range (s - p) b m")
    obtain r2 ms2 ds2 where r2: "discard_loop va (p + b) e ms = (r2, ms2, ds2)"
      by (cases "discard_loop va (p + b) e ms")
    have b: "s \<le> p + b" "b \<le> npages m" "p + b \<le> e" "b = npages m \<or> p + b = e"
      using 3 by (auto simp: b_def)
    have "(p + b) * 4096 \<le> e * 4096" using b(3) by (rule mult_le_mono1)
    then have add: "page_add va p b = Ok (p + b)"
      by (intro page_add_Ok [OF "2.prems"(1)]) (use "2.prems"(4) in linarith)
    have eq: "r = r2" "ms' = (p, m') # ms2" "ds = ds1 @ ds2"
      using "2.prems"(6) 3 m' r2 add by (auto simp: b_def [symmetric] Let_def split: if_splits)
    have keys: "p + b < k" if "ms = x # ns" "(k, y) \<in> set ns" for x ns k y
    proof -
      obtain p2 m2 where x: "x = (p2, m2)" by (cases x)
      then have "p + npages m \<le> p2" "0 < npages m2" "ms_ok (p2 + npages m2) ns" using n(2) that(1) by simp_all
      with ms_ok_keys [OF this(3) that(2)] b(2) show ?thesis by linarith
    qed
    have "\<exists>t \<le> e. discarded (p + npages m) (p + b) t ms ms2 ds2 \<and>
        (r2 = Ok () \<and> t = e \<or> r2 = Err NoMem \<and> t < e \<and> cell ms t = None)"
      by (rule "2.IH" [OF _ _ _ b_def m' [symmetric] add "2.prems"(1) n(2) b(3) "2.prems"(4) keys r2])
        (use 3 in auto)
    then obtain t where t: "t \<le> e" "discarded (p + npages m) (p + b) t ms ms2 ds2"
      "r2 = Ok () \<and> t = e \<or> r2 = Err NoMem \<and> t < e \<and> cell ms t = None" by blast
    have pt: "p + b \<le> t" using t(2) by (simp add: discarded_def)
    then have "b = npages m \<or> t = p + b" using b(4) t(1) by auto
    note d = discarded_cons [OF "2.prems"(2) 3(2) b(1,2) m' t(2) this]
    have "cell ((p, m) # ms) t = None" if "t < e" "cell ms t = None" using that pt b(4) by auto
    with d t(1,3) eq show ?thesis by (intro exI [of _ t]) (auto simp del: cell.simps)
  qed
qed

section \<open>Free ranges\<close>

text \<open>A range without mapped pages.\<close>

definition unused :: "nat \<Rightarrow> nat \<Rightarrow> 'b mappings \<Rightarrow> bool" where
  "unused s e ms \<longleftrightarrow> (\<forall>q. s \<le> q \<and> q < e \<longrightarrow> cell ms q = None)"

lemma ms_ok_snoc:
  "ms_ok lo (ms @ [(p, m)]) \<longleftrightarrow>
     ms_ok lo ms \<and> ms_end lo ms \<le> p \<and> 0 < npages m \<and> (p + npages m) * 4096 < 2 ^ 47"
  by (simp add: ms_ok_append)

lemma ms_end_keys: "ms_ok lo ms \<Longrightarrow> (k, y) \<in> set ms \<Longrightarrow> k + npages y \<le> ms_end lo ms"
proof (induction ms arbitrary: lo)
  case (Cons x ms)
  obtain p m where x: "x = (p, m)" by (cases x)
  with Cons.prems have ok: "ms_ok (p + npages m) ms" by simp
  from Cons.IH [OF ok] Cons.prems(2) ms_end_ge [OF ok] x show ?case by auto
qed simp

lemma find_gap_spec:
  assumes "va_law va" "ms_ok 0 (rev ms)" "\<forall>x \<in> set ms. fst x \<le> l"
  shows "\<exists>k \<le> l. find_gap va sz (l * 4096) ms = Ok (k * 4096) \<and>
    (\<forall>q < k. k * 4096 \<le> q * 4096 + sz \<longrightarrow> cell (rev ms) q = None)"
  using assms(2,3)
proof (induction ms arbitrary: l)
  case Nil
  then show ?case by auto
next
  case (Cons x ms)
  obtain p m where x: "x = (p, m)" by (cases x)
  have ok: "ms_ok 0 (rev ms)" "ms_end 0 (rev ms) \<le> p" "(p + npages m) * 4096 < 2 ^ 47"
    using Cons.prems(1) by (simp_all add: x ms_ok_snoc)
  have cell: "cell (rev ms @ [x]) q =
      (case cell (rev ms) q of None \<Rightarrow> cell [(p, m)] q | Some c \<Rightarrow> Some c)" for q
    by (simp add: x cell_append del: cell.simps)
  note add = page_add_Ok [OF assms(1) ok(3)]
  show ?case
  proof (cases "(p + npages m) * 4096 \<le> l * 4096 \<and> sz \<le> l * 4096 - (p + npages m) * 4096")
    case True
    have "cell (rev (x # ms)) q = None" if "l * 4096 \<le> q * 4096 + sz" for q
    proof -
      have "(p + npages m) * 4096 + sz \<le> l * 4096" using True by arith
      then have "p + npages m \<le> q" using that by simp
      then show ?thesis using cell_above [OF ok(1), of q] ok(2) by (simp add: cell)
    qed
    moreover have "find_gap va sz (l * 4096) (x # ms) = Ok (l * 4096)" using True add by (simp only: x find_gap.simps rbind.simps if_True simp_thms)
    ultimately show ?thesis by blast
  next
    case False
    have "\<forall>x \<in> set ms. fst x \<le> p"
      using ms_end_keys [OF ok(1)] ok(2) by fastforce
    from Cons.IH [OF ok(1) this] obtain k where k: "k \<le> p" "find_gap va sz (p * 4096) ms = Ok (k * 4096)"
      "\<forall>q < k. k * 4096 \<le> q * 4096 + sz \<longrightarrow> cell (rev ms) q = None" by blast
    have "find_gap va sz (l * 4096) (x # ms) = Ok (k * 4096)"
      using False add k(2) by (simp only: x find_gap.simps rbind.simps if_False)
    moreover have "\<forall>q < k. k * 4096 \<le> q * 4096 + sz \<longrightarrow> cell (rev (x # ms)) q = None"
      using k(1,3) by (auto simp: cell)
    ultimately show ?thesis using k(1) Cons.prems(2) x by (intro exI [of _ k]) auto
  qed
qed

lemma find_free_address_spec:
  assumes "va_law va" "ms_ok 0 ms" "n \<noteq> 0" "n < 2 ^ 46"
  shows "find_free_address va n abi ms = Panic \<or>
    (\<exists>k. find_free_address va n abi ms = Ok (k * 4096) \<and> 0 < k \<and>
      unused (k - 1) (k + div_ceil n 4096 + 1) ms \<and> (k + div_ceil n 4096 + 1) * 4096 < 2 ^ 47)"
proof -
  define base :: nat where "base = (case abi of I386 \<Rightarrow> 0xff000 | Amd64 \<Rightarrow> 0x7fff00000)"
  have b: "(case abi of I386 \<Rightarrow> 0xff000000 | Amd64 \<Rightarrow> 0x7fff00000000) = base * 4096" "base < 2 ^ 35"
    by (auto simp: base_def split: abi.split)
  let ?b = "takeWhile (\<lambda>x. fst x \<le> base) ms" and ?a = "dropWhile (\<lambda>x. fst x \<le> base) ms"
  define d where "d = div_ceil n 4096"
  define sz where "sz = d * 4096 + 4096 * 2"
  have ok: "ms_ok 0 (rev (rev ?b))" using assms(2) by (metis ms_ok_append rev_rev_ident takeWhile_dropWhile_id)
  have keys: "\<forall>x \<in> set (rev ?b). fst x \<le> base" using set_takeWhileD by fastforce
  obtain k where k: "k \<le> base" "find_gap va sz (base * 4096) (rev ?b) = Ok (k * 4096)"
    "\<forall>q < k. k * 4096 \<le> q * 4096 + sz \<longrightarrow> cell ?b q = None"
    using find_gap_spec [OF assms(1) ok keys, of sz] by auto
  have eq: "find_free_address va n abi ms = rbind (usub (k * 4096) sz) (\<lambda>a. va a 4096)"
    using assms(3,4) k(2) b(1) by (simp add: find_free_address_def Let_def align_up_def sz_def d_def)
  show ?thesis
  proof (cases "d + 2 \<le> k")
    case False
    then have "\<not> sz \<le> k * 4096" by (simp add: sz_def)
    then show ?thesis by (simp add: eq usub_def)
  next
    case True
    let ?k = "k - d - 1"
    have "k * 4096 - sz = (k - d - 2) * 4096" "sz \<le> k * 4096" using True by (simp_all add: sz_def algebra_simps)
    moreover have "va ((k - d - 2) * 4096) 4096 = Ok ((k - d - 2) * 4096 + 4096)"
      using assms(1) k(1) b(2) unfolding va_law_def by simp
    moreover have "(k - d - 2) * 4096 + 4096 = ?k * 4096" using True by (simp add: algebra_simps)
    ultimately have "find_free_address va n abi ms = Ok (?k * 4096)" by (simp add: eq usub_def)
    moreover have "unused (?k - 1) (?k + d + 1) ms"
      unfolding unused_def
    proof (intro allI impI)
      fix q assume q: "?k - 1 \<le> q \<and> q < ?k + d + 1"
      have "k \<le> q + d + 2" "q < k" using q True by linarith+
      then have "k * 4096 \<le> (q + d + 2) * 4096" by (intro mult_le_mono1)
      then have "cell ?b q = None" using k(3) \<open>q < k\<close> by (simp add: sz_def algebra_simps)
      moreover have "cell ?a q = None"
      proof (rule cell_keys_above)
        fix j y assume "(j, y) \<in> set ?a"
        from dropWhile_keys [OF assms(2) this] show "q < j" using q k(1) True by simp
      qed
      ultimately show "cell ms q = None"
        using cell_append [of ?b ?a q] by (simp only: takeWhile_dropWhile_id option.case)
    qed
    moreover have "(?k + d + 1) * 4096 < 2 ^ 47" using True k(1) b(2) by simp
    ultimately show ?thesis using True by (intro disjI2 exI [of _ ?k]) (simp add: d_def)
  qed
qed

lemma is_free_pages_spec:
  assumes "va_law va" "ms_ok 0 ms" "s \<le> e"
  shows "is_free_pages va s e ms = Ok ((\<exists>p m. (p, m) \<in> set ms \<and> p \<le> e) \<and> unused s (e + 1) ms)"
proof (cases "takeWhile (\<lambda>x. fst x \<le> e) ms" rule: rev_cases)
  case Nil
  then have "\<not> (\<exists>p m. (p, m) \<in> set ms \<and> p \<le> e)"
    using dropWhile_keys [OF assms(2), of _ _ e] by (metis append_Nil linorder_not_le takeWhile_dropWhile_id)
  with Nil show ?thesis by (simp add: is_free_pages_def)
next
  case (snoc ys y)
  obtain p m where y: "y = (p, m)" by (cases y)
  let ?a = "dropWhile (\<lambda>x. fst x \<le> e) ms"
  have ms: "ms = (ys @ [(p, m)]) @ ?a" using snoc y by (metis takeWhile_dropWhile_id)
  have p: "p \<le> e" using snoc y by (metis fst_conv in_set_conv_decomp set_takeWhileD)
  have ok: "ms_ok 0 (ys @ [(p, m)])" using assms(2) ms by (metis ms_ok_append)
  then have m: "ms_ok 0 ys" "ms_end 0 ys \<le> p" "0 < npages m" "(p + npages m) * 4096 < 2 ^ 47"
    by (simp_all only: ms_ok_snoc)
  have cell_m: "cell ms q = (case cell ys q of None \<Rightarrow> cell [(p, m)] q | Some c \<Rightarrow> Some c)" if "q \<le> e" for q
  proof -
    have "cell ?a q = None"
    proof (rule cell_keys_above)
      fix j x assume "(j, x) \<in> set ?a"
      from dropWhile_keys [OF assms(2) this] show "q < j" using that by simp
    qed
    then show ?thesis by (subst ms) (simp add: cell_append split: option.split)
  qed
  have "unused s (e + 1) ms \<longleftrightarrow> p + npages m \<le> s"
  proof
    assume u: "unused s (e + 1) ms"
    show "p + npages m \<le> s"
    proof (rule ccontr)
      assume "\<not> p + npages m \<le> s"
      then have "cell [(p, m)] (max s p) \<noteq> None" using m(3) by auto
      then have "cell ms (max s p) \<noteq> None" using cell_m [of "max s p"] p assms(3) by (auto split: option.splits)
      with u p assms(3) show False by (auto simp: unused_def)
    qed
  next
    assume "p + npages m \<le> s"
    then show "unused s (e + 1) ms"
      using cell_m cell_above [OF m(1)] m(2) by (auto simp: unused_def)
  qed
  moreover have "\<exists>p m. (p, m) \<in> set ms \<and> p \<le> e" by (rule exI [of _ p], rule exI [of _ m], subst ms) (use p in simp)
  ultimately show ?thesis
    using snoc y page_add_Ok [OF assms(1) m(4)] by (simp add: is_free_pages_def)
qed

end
