(* ===== verification/Page_Walk.thy ===== *)
theory Page_Walk
  imports Page_Table
begin

text \<open>
  The walks of the four-level page tables (\<^verbatim>\<open>tee/kernel/src/memory/pagetable.rs\<close>),
  one core at a time: mapping a page, unmapping a range of pages, looking a page up and
  taking the write permission away everywhere. A table is the function of its 512 indices;
  an entry that points to a table holds that table, its reference count and its flags. The
  theorems show that the tree refines a map from pages to entries and keeps no empty table.
\<close>

section \<open>Tables\<close>

record 'c table_entry =
  refcount :: nat
  euser :: bool
  eglobal :: bool
  child :: 'c

type_synonym pt = "nat \<Rightarrow> u64"
type_synonym 'c table = "nat \<Rightarrow> 'c table_entry option"
type_synonym pd = "pt table"
type_synonym pdp = "pd table"
type_synonym pml4 = "pdp table"

definition Level4 :: table_level where "Level4 = \<lparr>CAN_SET_GLOBAL = False, CAN_SET_HUGE = False\<rparr>"
definition Level3 :: table_level where "Level3 = \<lparr>CAN_SET_GLOBAL = True, CAN_SET_HUGE = True\<rparr>"
definition Level2 :: table_level where "Level2 = \<lparr>CAN_SET_GLOBAL = True, CAN_SET_HUGE = True\<rparr>"

text \<open>The indices of a page, given by its number, and the page with given indices.\<close>

definition idx :: "nat \<Rightarrow> nat \<Rightarrow> nat" where
  "idx k p = (p div 512 ^ k) mod 512"

abbreviation p1_index :: "nat \<Rightarrow> nat" where "p1_index \<equiv> idx 0"
abbreviation p2_index :: "nat \<Rightarrow> nat" where "p2_index \<equiv> idx 1"
abbreviation p3_index :: "nat \<Rightarrow> nat" where "p3_index \<equiv> idx 2"
abbreviation p4_index :: "nat \<Rightarrow> nat" where "p4_index \<equiv> idx 3"

definition from_page_table_indices :: "nat \<Rightarrow> nat \<Rightarrow> nat \<Rightarrow> nat \<Rightarrow> nat" where
  "from_page_table_indices i4 i3 i2 i1 = ((i4 * 512 + i3) * 512 + i2) * 512 + i1"

text \<open>One reference more or less on an entry. The last reference frees the table.\<close>

definition enter :: "'c table_entry \<Rightarrow> 'c table_entry result" where
  "enter e = rassert (refcount e + 1 < 1024) (Ok (e\<lparr>refcount := refcount e + 1\<rparr>))"

definition leave :: "'c table_entry \<Rightarrow> 'c table_entry option" where
  "leave e = (if refcount e = 0 then None else Some (e\<lparr>refcount := refcount e - 1\<rparr>))"

text \<open>\<open>acquire_entry\<close> returns whether the table was set up; its frame is zeroed.\<close>

definition acquire_entry ::
  "table_level \<Rightarrow> 'c \<Rightarrow> u8 \<Rightarrow> 'c table_entry option \<Rightarrow> (bool \<times> 'c table_entry) result" where
  "acquire_entry l z fl x =
     (let user = has_flags fl USER; global = has_flags fl GLOBAL \<and> CAN_SET_GLOBAL l in
      case x of
        None \<Rightarrow> Ok (True, \<lparr>refcount = 0, euser = user, eglobal = global, child = z\<rparr>)
      | Some e \<Rightarrow> rassert (user = euser e) (rassert (global = eglobal e)
          (rbind (enter e) (\<lambda>e. Ok (False, e)))))"

text \<open>
  The guard of an entry below the top: \<open>acquire\<close> takes a reference on the parent when the
  table is new, and dropping the guard gives it back when the table is freed.
\<close>

type_synonym ('c, 'd) node_body = "'c table_entry \<Rightarrow> 'd result"

definition drop_guard :: "nat \<Rightarrow> 'c table table_entry \<Rightarrow> 'c table table_entry result" where
  "drop_guard i P =
     rbind (unwrap (child P i)) (\<lambda>e.
     case leave e of
       Some e' \<Rightarrow> Ok (P\<lparr>child := (child P)(i \<mapsto> e')\<rparr>)
     | None \<Rightarrow> rbind (unwrap (leave P)) (\<lambda>P'. Ok (P'\<lparr>child := (child P')(i := None)\<rparr>)))"

definition visit ::
  "nat \<Rightarrow> ('c table_entry \<Rightarrow> 'c table_entry result) \<Rightarrow> 'c table table_entry \<Rightarrow> 'c table table_entry result" where
  "visit i body P =
     rbind (unwrap (child P i)) (\<lambda>e. rbind (body e) (\<lambda>e'. Ok (P\<lparr>child := (child P)(i \<mapsto> e')\<rparr>)))"

definition acquire ::
  "table_level \<Rightarrow> 'c \<Rightarrow> u8 \<Rightarrow> nat \<Rightarrow> 'c table table_entry \<Rightarrow> 'c table table_entry result" where
  "acquire l z fl i P =
     rbind (acquire_entry l z fl (child P i)) (\<lambda>(initialized, e).
     rbind (if initialized then enter P else Ok P) (\<lambda>P.
       Ok (P\<lparr>child := (child P)(i \<mapsto> e)\<rparr>)))"

definition acquire_existing :: "nat \<Rightarrow> 'c table table_entry \<Rightarrow> 'c table table_entry option result" where
  "acquire_existing i P =
     (case child P i of
        None \<Rightarrow> Ok None
      | Some e \<Rightarrow> rbind (enter e) (\<lambda>e. Ok (Some (P\<lparr>child := (child P)(i \<mapsto> e)\<rparr>))))"

definition with_table ::
  "table_level \<Rightarrow> 'c \<Rightarrow> u8 \<Rightarrow> nat \<Rightarrow> ('c table_entry \<Rightarrow> 'c table_entry result)
   \<Rightarrow> 'c table table_entry \<Rightarrow> 'c table table_entry result" where
  "with_table l z fl i body P =
     rbind (acquire l z fl i P) (\<lambda>P. rbind (visit i body P) (drop_guard i))"

definition with_existing ::
  "nat \<Rightarrow> ('c table_entry \<Rightarrow> 'c table_entry result) \<Rightarrow> 'c table table_entry \<Rightarrow> 'c table table_entry result" where
  "with_existing i body P =
     rbind (acquire_existing i P) (\<lambda>x.
     case x of None \<Rightarrow> Ok P | Some P \<Rightarrow> rbind (visit i body P) (drop_guard i))"

text \<open>The same at the top, where there is no parent.\<close>

definition drop_guard4 :: "nat \<Rightarrow> 'c table \<Rightarrow> 'c table result" where
  "drop_guard4 i T = rbind (unwrap (T i)) (\<lambda>e. Ok (T(i := leave e)))"

definition visit4 :: "nat \<Rightarrow> ('c table_entry \<Rightarrow> 'c table_entry result) \<Rightarrow> 'c table \<Rightarrow> 'c table result" where
  "visit4 i body T = rbind (unwrap (T i)) (\<lambda>e. rbind (body e) (\<lambda>e'. Ok (T(i \<mapsto> e'))))"

definition with_table4 ::
  "'c \<Rightarrow> u8 \<Rightarrow> nat \<Rightarrow> ('c table_entry \<Rightarrow> 'c table_entry result) \<Rightarrow> 'c table \<Rightarrow> 'c table result" where
  "with_table4 z fl i body T =
     rbind (acquire_entry Level4 z fl (T i)) (\<lambda>(_, e).
     rbind (visit4 i body (T(i \<mapsto> e))) (drop_guard4 i))"

definition with_existing4 ::
  "nat \<Rightarrow> ('c table_entry \<Rightarrow> 'c table_entry result) \<Rightarrow> 'c table \<Rightarrow> 'c table result" where
  "with_existing4 i body T =
     (case T i of
        None \<Rightarrow> Ok T
      | Some e \<Rightarrow> rbind (enter e) (\<lambda>e. rbind (visit4 i body (T(i \<mapsto> e))) (drop_guard4 i)))"

section \<open>Operations\<close>

definition pte_set_page :: "nat \<Rightarrow> u64 \<Rightarrow> pt table_entry \<Rightarrow> pt table_entry result" where
  "pte_set_page i v e =
     (let e' = e\<lparr>child := (child e)(i := v)\<rparr> in
      if child e i = 0 then enter e' else Ok e')"

definition pte_try_unmap :: "nat \<Rightarrow> pt table_entry \<Rightarrow> pt table_entry result" where
  "pte_try_unmap i e =
     (let e' = e\<lparr>child := (child e)(i := 0)\<rparr> in
      if entry_try_from (child e i) = None then Ok e' else unwrap (leave e'))"

definition check_user_page :: "nat \<Rightarrow> 'a result \<Rightarrow> 'a result" where
  "check_user_page p k = ensure (p4_index p < 256) Fault k"

definition set_page :: "nat \<Rightarrow> u64 \<Rightarrow> pml4 \<Rightarrow> pml4 result" where
  "set_page p v T =
     check_user_page p
       (let fl = entry_flags v in
        with_table4 Map.empty fl (p4_index p)
          (with_table Level3 Map.empty fl (p3_index p)
            (with_table Level2 (\<lambda>_. 0) fl (p2_index p)
              (pte_set_page (p1_index p) v))) T)"

fun rfor :: "('i \<Rightarrow> 's \<Rightarrow> 's result) \<Rightarrow> 'i list \<Rightarrow> 's \<Rightarrow> 's result" where
  "rfor f [] s = Ok s"
| "rfor f (i # is) s = rbind (f i s) (rfor f is)"

definition LAST_USER_PAGE :: nat where
  "LAST_USER_PAGE = 0x7ffffffff"

definition unmap_pt :: "nat \<Rightarrow> nat \<Rightarrow> pt table_entry \<Rightarrow> pt table_entry result" where
  "unmap_pt s e = rfor pte_try_unmap [p1_index s ..< p1_index e + 1]"

definition unmap_pd :: "nat \<Rightarrow> nat \<Rightarrow> nat \<Rightarrow> nat \<Rightarrow> pd table_entry \<Rightarrow> pd table_entry result" where
  "unmap_pd i4 i3 s e =
     rfor (\<lambda>i2. with_existing i2
         (unmap_pt (max s (from_page_table_indices i4 i3 i2 0))
            (min e (from_page_table_indices i4 i3 i2 511))))
       [p2_index s ..< p2_index e + 1]"

definition unmap_pdp :: "nat \<Rightarrow> nat \<Rightarrow> nat \<Rightarrow> pdp table_entry \<Rightarrow> pdp table_entry result" where
  "unmap_pdp i4 s e =
     rfor (\<lambda>i3. with_existing i3
         (unmap_pd i4 i3 (max s (from_page_table_indices i4 i3 0 0))
            (min e (from_page_table_indices i4 i3 511 511))))
       [p3_index s ..< p3_index e + 1]"

text \<open>The range of the pages to unmap, as a pair of bounds.\<close>

datatype bound = Included nat | Excluded nat | Unbounded

definition try_unmap_user_pages :: "bound \<Rightarrow> bound \<Rightarrow> pml4 \<Rightarrow> pml4 result" where
  "try_unmap_user_pages sb eb T =
     (let s = min (case sb of Included p \<Rightarrow> p | Excluded p \<Rightarrow> p + 1 | Unbounded \<Rightarrow> 0) LAST_USER_PAGE in
      case (case eb of Included p \<Rightarrow> Some p | Excluded p \<Rightarrow> (if p = 0 then None else Some (p - 1))
              | Unbounded \<Rightarrow> Some LAST_USER_PAGE) of
        None \<Rightarrow> Ok T
      | Some e \<Rightarrow>
          let e = min e LAST_USER_PAGE in
          if e < s then Ok T
          else rfor (\<lambda>i4. with_existing4 i4
                 (unmap_pdp i4 (max s (from_page_table_indices i4 0 0 0))
                    (min e (from_page_table_indices i4 511 511 511))))
               [p4_index s ..< p4_index e + 1] T)"

text \<open>\<^verbatim>\<open>freeze\<close> clears the write bit of every mapped page, level by level.\<close>

definition freeze_pt :: "pt \<Rightarrow> pt" where
  "freeze_pt t = (\<lambda>i. if i < 512 then t i AND NOT (2 ^ WRITE_BIT) else t i)"

definition freeze_table :: "('c \<Rightarrow> 'c) \<Rightarrow> nat \<Rightarrow> 'c table \<Rightarrow> 'c table" where
  "freeze_table f n T =
     (\<lambda>i. if i < n then map_option (\<lambda>e. e\<lparr>child := f (child e)\<rparr>) (T i) else T i)"

definition freeze_userspace :: "pml4 \<Rightarrow> pml4" where
  "freeze_userspace = freeze_table (freeze_table (freeze_table freeze_pt 512) 512) 256"

text \<open>\<^verbatim>\<open>entry_for_page\<close>, whose guards leave the counts as they were.\<close>

definition entry_for_page :: "nat \<Rightarrow> pml4 \<Rightarrow> u64 option" where
  "entry_for_page p T =
     (case T (p4_index p) of None \<Rightarrow> None | Some e4 \<Rightarrow>
     (case child e4 (p3_index p) of None \<Rightarrow> None | Some e3 \<Rightarrow>
     (case child e3 (p2_index p) of None \<Rightarrow> None | Some e2 \<Rightarrow>
        entry_try_from (child e2 (p1_index p)))))"

section \<open>The invariant\<close>

text \<open>
  An entry is closed when nobody is inside its table: its count is then the number of the
  table's entries less one, so there is at least one. While a guard is held it is open.
\<close>

definition user_entry :: "'c table_entry \<Rightarrow> bool" where
  "user_entry e \<longleftrightarrow> euser e \<and> \<not> eglobal e"

definition pt_ok :: "pt \<Rightarrow> bool" where
  "pt_ok t \<longleftrightarrow> (\<forall>i. t i \<noteq> 0 \<longrightarrow> i < 512 \<and> bit (t i) PRESENT_BIT)"

definition leaf_open :: "pt table_entry \<Rightarrow> bool" where
  "leaf_open e \<longleftrightarrow> user_entry e \<and> pt_ok (child e) \<and> refcount e = card {i. child e i \<noteq> 0}"

definition leaf_closed :: "pt table_entry \<Rightarrow> bool" where
  "leaf_closed e \<longleftrightarrow> user_entry e \<and> pt_ok (child e) \<and> refcount e + 1 = card {i. child e i \<noteq> 0}"

definition table_ok :: "('c table_entry \<Rightarrow> bool) \<Rightarrow> nat \<Rightarrow> 'c table \<Rightarrow> bool" where
  "table_ok cl n T \<longleftrightarrow> dom T \<subseteq> {..<n} \<and> (\<forall>i e. T i = Some e \<longrightarrow> cl e)"

definition node_open :: "('c table_entry \<Rightarrow> bool) \<Rightarrow> 'c table table_entry \<Rightarrow> bool" where
  "node_open cl P \<longleftrightarrow> user_entry P \<and> table_ok cl 512 (child P) \<and> refcount P = card (dom (child P))"

definition node_closed :: "('c table_entry \<Rightarrow> bool) \<Rightarrow> 'c table table_entry \<Rightarrow> bool" where
  "node_closed cl P \<longleftrightarrow> user_entry P \<and> table_ok cl 512 (child P) \<and> refcount P + 1 = card (dom (child P))"

abbreviation pde_closed :: "pd table_entry \<Rightarrow> bool" where "pde_closed \<equiv> node_closed leaf_closed"
abbreviation pdpe_closed :: "pdp table_entry \<Rightarrow> bool" where "pdpe_closed \<equiv> node_closed pde_closed"

definition pml4_ok :: "pml4 \<Rightarrow> bool" where
  "pml4_ok = table_ok pdpe_closed 256"

text \<open>What a table maps, by page number.\<close>

definition leaf_view :: "pt \<Rightarrow> nat \<Rightarrow> u64" where
  "leaf_view t p = t (p1_index p)"

definition table_view :: "nat \<Rightarrow> ('c \<Rightarrow> nat \<Rightarrow> u64) \<Rightarrow> 'c table \<Rightarrow> nat \<Rightarrow> u64" where
  "table_view k v T p = (case T (idx k p) of None \<Rightarrow> 0 | Some e \<Rightarrow> v (child e) p)"

definition pml4_view :: "pml4 \<Rightarrow> nat \<Rightarrow> u64" where
  "pml4_view = table_view 3 (table_view 2 (table_view 1 leaf_view))"

text \<open>An operation on the pages of a set.\<close>

definition updates :: "(nat \<Rightarrow> u64) \<Rightarrow> (nat \<Rightarrow> u64) \<Rightarrow> nat set \<Rightarrow> (nat \<Rightarrow> u64) \<Rightarrow> bool" where
  "updates v v' S f \<longleftrightarrow> (\<forall>q. v' q = (if q \<in> S then f q else v q))"

section \<open>Levels\<close>

text \<open>
  What a level promises to the one above it: entering a closed entry opens it, leaving an
  open one closes it or, when its table has become empty, frees it.
\<close>

locale level =
  fixes opn cls :: "'c table_entry \<Rightarrow> bool" and view :: "'c \<Rightarrow> nat \<Rightarrow> u64" and zero :: 'c
  assumes enter_closed: "cls e \<Longrightarrow> \<exists>e'. enter e = Ok e' \<and> opn e' \<and> child e' = child e"
    and leave_open: "opn e \<Longrightarrow> leave e = None \<and> view (child e) = (\<lambda>_. 0) \<or>
      (\<exists>e'. leave e = Some e' \<and> cls e' \<and> child e' = child e)"
    and fresh_open: "opn \<lparr>refcount = 0, euser = True, eglobal = False, child = zero\<rparr>"
    and zero_view: "view zero = (\<lambda>_. 0)"
    and closed_user: "cls e \<Longrightarrow> user_entry e"
begin

text \<open>The work of a guard: visit the open entry and drop the guard.\<close>

lemma visit_view:
  assumes "T i = Some e" "updates (view (child e)) (view (child e')) S f"
    and "\<And>q. idx k q = i \<Longrightarrow> table_view k view (T(i := x)) q = view (child e') q"
  shows "updates (table_view k view T) (table_view k view (T(i := x))) {q. idx k q = i \<and> q \<in> S} f"
  using assms by (auto simp: updates_def table_view_def)

lemma visit_drop:
  assumes u: "user_entry P" and T: "dom (child P) \<subseteq> {..<512}" "child P i = Some e" "opn e"
    and cl: "\<And>j e. j \<noteq> i \<Longrightarrow> child P j = Some e \<Longrightarrow> cls e" and rc: "refcount P = card (dom (child P))"
    and body: "\<exists>e'. body e = Ok e' \<and> opn e' \<and> updates (view (child e)) (view (child e')) S f"
  shows "\<exists>P'. rbind (visit i body P) (drop_guard i) = Ok P' \<and> node_open cls P' \<and>
    updates (table_view k view (child P)) (table_view k view (child P')) {q. idx k q = i \<and> q \<in> S} f"
proof -
  obtain e' where b: "body e = Ok e'" "opn e'" "updates (view (child e)) (view (child e')) S f"
    using body by blast
  have visit: "visit i body P = Ok (P\<lparr>child := (child P)(i \<mapsto> e')\<rparr>)"
    using b(1) T(2) by (simp add: visit_def)
  note up = visit_view [where T = "child P", OF T(2) b(3)]
  have i: "i \<in> dom (child P)" using T(2) by blast
  have fin: "finite (dom (child P))" using T(1) finite_subset by blast
  from leave_open [OF b(2)] show ?thesis
  proof
    assume l: "leave e' = None \<and> view (child e') = (\<lambda>_. 0)"
    let ?P = "P\<lparr>refcount := refcount P - 1, child := (child P)(i := None)\<rparr>"
    have rc0: "0 < refcount P" using rc i fin by (auto simp: card_gt_0_iff)
    have "node_open cls ?P"
      using u T(1) cl rc i fin by (auto simp: node_open_def table_ok_def user_entry_def split: if_splits)
    moreover have "updates (table_view k view (child P)) (table_view k view (child ?P)) {q. idx k q = i \<and> q \<in> S} f"
      by (simp, rule up) (use l in \<open>simp add: table_view_def\<close>)
    moreover have "drop_guard i (P\<lparr>child := (child P)(i \<mapsto> e')\<rparr>) = Ok ?P"
      using l rc0 by (simp add: drop_guard_def leave_def [of "P\<lparr>child := _\<rparr>"])
    ultimately show ?thesis using visit by auto
  next
    assume "\<exists>e2. leave e' = Some e2 \<and> cls e2 \<and> child e2 = child e'"
    then obtain e2 where l: "leave e' = Some e2" "cls e2" "child e2 = child e'" by blast
    have "node_open cls (P\<lparr>child := (child P)(i \<mapsto> e2)\<rparr>)"
      using u T(1) cl rc i l(2) by (auto simp: node_open_def table_ok_def user_entry_def insert_absorb)
    moreover have "updates (table_view k view (child P)) (table_view k view ((child P)(i \<mapsto> e2)))
        {q. idx k q = i \<and> q \<in> S} f"
      by (rule up) (use l in \<open>simp add: table_view_def\<close>)
    ultimately show ?thesis using visit l by (simp add: drop_guard_def)
  qed
qed

lemma with_existing_Ok:
  assumes P: "node_open cls P"
    and body: "\<And>e. opn e \<Longrightarrow> \<exists>e'. body e = Ok e' \<and> opn e' \<and> updates (view (child e)) (view (child e')) S (\<lambda>_. 0)"
  shows "\<exists>P'. with_existing i body P = Ok P' \<and> node_open cls P' \<and>
    updates (table_view k view (child P)) (table_view k view (child P')) {q. idx k q = i \<and> q \<in> S} (\<lambda>_. 0)"
proof (cases "child P i")
  case None
  then show ?thesis using P by (simp add: with_existing_def acquire_existing_def updates_def table_view_def)
next
  case (Some e)
  then obtain e1 where e1: "enter e = Ok e1" "opn e1" "child e1 = child e"
    using P enter_closed [of e] by (auto simp: node_open_def table_ok_def)
  let ?P = "P\<lparr>child := (child P)(i \<mapsto> e1)\<rparr>"
  have "\<exists>P'. rbind (visit i body ?P) (drop_guard i) = Ok P' \<and> node_open cls P' \<and>
      updates (table_view k view (child ?P)) (table_view k view (child P')) {q. idx k q = i \<and> q \<in> S} (\<lambda>_. 0)"
    by (rule visit_drop [where e = e1])
      (use P Some e1 body [OF e1(2)] insert_absorb [OF domI [where m = "child P", OF Some]] in
        \<open>auto simp: node_open_def table_ok_def user_entry_def\<close>)
  moreover have "table_view k view (child ?P) = table_view k view (child P)"
    using Some e1(3) by (auto simp: table_view_def fun_eq_iff)
  ultimately show ?thesis using Some e1(1) by (simp add: with_existing_def acquire_existing_def)
qed

text \<open>The flags of a user page.\<close>

lemma with_table_Ok:
  assumes P: "node_open cls P" and i: "i < 512" and fl: "has_flags fl USER" "\<not> has_flags fl GLOBAL"
    and body: "\<And>e. opn e \<Longrightarrow> \<exists>e'. body e = Ok e' \<and> opn e' \<and> updates (view (child e)) (view (child e')) S f"
  shows "\<exists>P'. with_table l zero fl i body P = Ok P' \<and> node_open cls P' \<and>
    updates (table_view k view (child P)) (table_view k view (child P')) {q. idx k q = i \<and> q \<in> S} f"
proof -
  have fin: "finite (dom (child P))" using P finite_subset by (auto simp: node_open_def table_ok_def)
  have c: "card (dom (child P)) \<le> 512"
    using P card_mono [of "{..<512}" "dom (child P)"] by (simp add: node_open_def table_ok_def)
  show ?thesis
  proof (cases "child P i")
    case None
    let ?e = "\<lparr>refcount = 0, euser = True, eglobal = False, child = zero\<rparr>"
    let ?P = "P\<lparr>refcount := refcount P + 1, child := (child P)(i \<mapsto> ?e)\<rparr>"
    have "\<exists>P'. rbind (visit i body ?P) (drop_guard i) = Ok P' \<and> node_open cls P' \<and>
        updates (table_view k view (child ?P)) (table_view k view (child P')) {q. idx k q = i \<and> q \<in> S} f"
      by (rule visit_drop [where e = ?e])
        (use P i None fin fresh_open body [OF fresh_open] in \<open>auto simp: node_open_def table_ok_def user_entry_def domIff\<close>)
    moreover have "table_view k view (child ?P) = table_view k view (child P)"
      using None zero_view by (auto simp: table_view_def fun_eq_iff)
    moreover have "acquire l zero fl i P = Ok ?P"
      using None fl P c by (simp add: acquire_def acquire_entry_def Let_def enter_def node_open_def)
    ultimately show ?thesis by (simp add: with_table_def)
  next
    case (Some e)
    then obtain e1 where e1: "enter e = Ok e1" "opn e1" "child e1 = child e" "user_entry e"
      using P enter_closed [of e] closed_user by (auto simp: node_open_def table_ok_def)
    let ?P = "P\<lparr>child := (child P)(i \<mapsto> e1)\<rparr>"
    have "\<exists>P'. rbind (visit i body ?P) (drop_guard i) = Ok P' \<and> node_open cls P' \<and>
        updates (table_view k view (child ?P)) (table_view k view (child P')) {q. idx k q = i \<and> q \<in> S} f"
      by (rule visit_drop [where e = e1])
        (use P Some e1 body [OF e1(2)] insert_absorb [OF domI [where m = "child P", OF Some]] in
          \<open>auto simp: node_open_def table_ok_def user_entry_def\<close>)
    moreover have "table_view k view (child ?P) = table_view k view (child P)"
      using Some e1(3) by (auto simp: table_view_def fun_eq_iff)
    moreover have "acquire l zero fl i P = Ok ?P"
      using Some e1 fl by (simp add: acquire_def acquire_entry_def Let_def user_entry_def)
    ultimately show ?thesis by (simp add: with_table_def)
  qed
qed

text \<open>At the top.\<close>

lemma visit4_drop:
  assumes T: "dom T \<subseteq> {..<256}" "T i = Some e" "opn e" and cl: "\<And>j e. j \<noteq> i \<Longrightarrow> T j = Some e \<Longrightarrow> cls e"
    and body: "\<exists>e'. body e = Ok e' \<and> opn e' \<and> updates (view (child e)) (view (child e')) S f"
  shows "\<exists>T'. rbind (visit4 i body T) (drop_guard4 i) = Ok T' \<and> Page_Walk.table_ok cls 256 T' \<and>
    updates (table_view k view T) (table_view k view T') {q. idx k q = i \<and> q \<in> S} f"
proof -
  obtain e' where b: "body e = Ok e'" "opn e'" "updates (view (child e)) (view (child e')) S f"
    using body by blast
  have eq: "rbind (visit4 i body T) (drop_guard4 i) = Ok (T(i := leave e'))"
    using b(1) T(2) by (simp add: visit4_def drop_guard4_def)
  have l: "leave e' = None \<and> view (child e') = (\<lambda>_. 0) \<or>
      (\<exists>e2. leave e' = Some e2 \<and> cls e2 \<and> child e2 = child e')" by (rule leave_open [OF b(2)])
  then have "Page_Walk.table_ok cls 256 (T(i := leave e'))"
    using T cl by (auto simp: table_ok_def split: if_splits)
  moreover have "updates (table_view k view T) (table_view k view (T(i := leave e'))) {q. idx k q = i \<and> q \<in> S} f"
    by (rule visit_view [where T = T, OF T(2) b(3)]) (use l in \<open>auto simp: table_view_def\<close>)
  ultimately show ?thesis using eq by blast
qed

lemma with_existing4_Ok:
  assumes T: "Page_Walk.table_ok cls 256 T"
    and body: "\<And>e. opn e \<Longrightarrow> \<exists>e'. body e = Ok e' \<and> opn e' \<and> updates (view (child e)) (view (child e')) S (\<lambda>_. 0)"
  shows "\<exists>T'. with_existing4 i body T = Ok T' \<and> Page_Walk.table_ok cls 256 T' \<and>
    updates (table_view k view T) (table_view k view T') {q. idx k q = i \<and> q \<in> S} (\<lambda>_. 0)"
proof (cases "T i")
  case None
  then show ?thesis using T by (simp add: with_existing4_def updates_def table_view_def)
next
  case (Some e)
  then obtain e1 where e1: "enter e = Ok e1" "opn e1" "child e1 = child e"
    using T enter_closed [of e] by (auto simp: table_ok_def)
  have "\<exists>T'. rbind (visit4 i body (T(i \<mapsto> e1))) (drop_guard4 i) = Ok T' \<and> Page_Walk.table_ok cls 256 T' \<and>
      updates (table_view k view (T(i \<mapsto> e1))) (table_view k view T') {q. idx k q = i \<and> q \<in> S} (\<lambda>_. 0)"
    by (rule visit4_drop [where e = e1]) (use T Some e1 body [OF e1(2)] in \<open>auto simp: table_ok_def\<close>)
  moreover have "table_view k view (T(i \<mapsto> e1)) = table_view k view T"
    using Some e1(3) by (auto simp: table_view_def fun_eq_iff)
  ultimately show ?thesis using Some e1(1) by (simp add: with_existing4_def)
qed

lemma with_table4_Ok:
  assumes T: "Page_Walk.table_ok cls 256 T" and i: "i < 256" and fl: "has_flags fl USER" "\<not> has_flags fl GLOBAL"
    and body: "\<And>e. opn e \<Longrightarrow> \<exists>e'. body e = Ok e' \<and> opn e' \<and> updates (view (child e)) (view (child e')) S f"
  shows "\<exists>T'. with_table4 zero fl i body T = Ok T' \<and> Page_Walk.table_ok cls 256 T' \<and>
    updates (table_view k view T) (table_view k view T') {q. idx k q = i \<and> q \<in> S} f"
proof -
  obtain b e1 where a: "acquire_entry Level4 zero fl (T i) = Ok (b, e1)" and e1: "opn e1"
    "view (child e1) = (case T i of None \<Rightarrow> (\<lambda>_. 0) | Some e \<Rightarrow> view (child e))"
  proof (cases "T i")
    case None
    then show ?thesis using that fl fresh_open zero_view by (simp add: acquire_entry_def Let_def)
  next
    case (Some e)
    then have "cls e" using T by (auto simp: table_ok_def)
    with enter_closed [of e] closed_user [of e] obtain e1
      where "enter e = Ok e1" "opn e1" "child e1 = child e" "user_entry e" by blast
    with Some that fl show ?thesis by (simp add: acquire_entry_def Let_def user_entry_def)
  qed
  have "\<exists>T'. rbind (visit4 i body (T(i \<mapsto> e1))) (drop_guard4 i) = Ok T' \<and> Page_Walk.table_ok cls 256 T' \<and>
      updates (table_view k view (T(i \<mapsto> e1))) (table_view k view T') {q. idx k q = i \<and> q \<in> S} f"
    by (rule visit4_drop [where e = e1]) (use T i e1 body [OF e1(1)] in \<open>auto simp: table_ok_def\<close>)
  moreover have "table_view k view (T(i \<mapsto> e1)) = table_view k view T"
    using e1(2) by (auto simp: table_view_def fun_eq_iff split: option.splits)
  ultimately show ?thesis using a by (simp add: with_table4_def)
qed

text \<open>The level above is a level again.\<close>

lemma node_enter:
  "node_closed cls e \<Longrightarrow> \<exists>e'. enter e = Ok e' \<and> node_open cls e' \<and> child e' = child e"
  using card_mono [of "{..<512}" "dom (child e)"]
  by (auto simp: node_closed_def node_open_def table_ok_def enter_def user_entry_def)

lemma node_leave:
  assumes "node_open cls e"
  shows "leave e = None \<and> table_view k view (child e) = (\<lambda>_. 0) \<or>
    (\<exists>e'. leave e = Some e' \<and> node_closed cls e' \<and> child e' = child e)"
proof (cases "refcount e = 0")
  case True
  have "finite (dom (child e))" using assms finite_subset by (auto simp: node_open_def table_ok_def)
  with assms True have "dom (child e) = {}" by (simp add: node_open_def)
  with True show ?thesis by (simp add: leave_def table_view_def fun_eq_iff)
next
  case False
  with assms show ?thesis by (auto simp: leave_def node_open_def node_closed_def user_entry_def)
qed

lemma node_fresh: "node_open cls \<lparr>refcount = 0, euser = True, eglobal = False, child = Map.empty\<rparr>"
  by (simp add: node_open_def table_ok_def user_entry_def)

end

lemma leaf_finite: "pt_ok t \<Longrightarrow> {i. t i \<noteq> 0} \<subseteq> {..<512}"
  by (auto simp: pt_ok_def)

interpretation leaf: level leaf_open leaf_closed leaf_view "\<lambda>_. 0"
proof
  fix e :: "pt table_entry"
  show "leaf_closed e \<Longrightarrow> \<exists>e'. enter e = Ok e' \<and> leaf_open e' \<and> child e' = child e"
    using card_mono [of "{..<512}" "{i. child e i \<noteq> 0}"] leaf_finite [of "child e"]
    by (auto simp: leaf_closed_def leaf_open_def enter_def user_entry_def)
  show "leave e = None \<and> leaf_view (child e) = (\<lambda>_. 0) \<or>
      (\<exists>e'. leave e = Some e' \<and> leaf_closed e' \<and> child e' = child e)" if e: "leaf_open e"
  proof (cases "refcount e = 0")
    case True
    have "finite {i. child e i \<noteq> 0}"
      using e leaf_finite [of "child e"] finite_subset by (auto simp: leaf_open_def)
    with e True have "{i. child e i \<noteq> 0} = {}" by (simp add: leaf_open_def)
    with True show ?thesis by (auto simp: leave_def leaf_view_def fun_eq_iff)
  next
    case False
    with e show ?thesis by (auto simp: leave_def leaf_open_def leaf_closed_def user_entry_def)
  qed
  show "leaf_open \<lparr>refcount = 0, euser = True, eglobal = False, child = \<lambda>_. 0\<rparr>"
    by (simp add: leaf_open_def pt_ok_def user_entry_def)
  show "leaf_view (\<lambda>_. 0) = (\<lambda>_. 0)" by (simp add: leaf_view_def fun_eq_iff)
  show "leaf_closed e \<Longrightarrow> user_entry e" by (simp add: leaf_closed_def)
qed

lemma empty_view: "table_view k v Map.empty = (\<lambda>_. 0)"
  by (simp add: table_view_def fun_eq_iff)

lemma node_closed_user: "node_closed cls e \<Longrightarrow> user_entry e"
  by (simp add: node_closed_def)

interpretation pde: level "node_open leaf_closed" pde_closed "table_view 1 leaf_view" Map.empty
  by (rule level.intro) (erule leaf.node_enter, erule leaf.node_leave, rule leaf.node_fresh,
      rule empty_view, erule node_closed_user)

interpretation pdpe: level "node_open pde_closed" pdpe_closed "table_view 2 (table_view 1 leaf_view)" Map.empty
  by (rule level.intro) (erule pde.node_enter, erule pde.node_leave, rule pde.node_fresh,
      rule empty_view, erule node_closed_user)

section \<open>The lowest level and the loops\<close>

lemma pte_set_page_Ok:
  assumes e: "leaf_open e" and i: "i < 512" and v: "bit v PRESENT_BIT"
  shows "\<exists>e'. pte_set_page i v e = Ok e' \<and> leaf_open e' \<and>
    updates (leaf_view (child e)) (leaf_view (child e')) {q. p1_index q = i} (\<lambda>_. v)"
proof -
  let ?I = "{j. child e j \<noteq> 0}"
  have v0: "v \<noteq> 0" using v by auto
  have fin: "?I \<subseteq> {..<512}" using e leaf_finite by (simp add: leaf_open_def)
  then have c: "card ?I \<le> 512" "finite ?I" using card_mono [of "{..<512}" ?I] finite_subset by auto
  have I: "{j. ((child e)(i := v)) j \<noteq> 0} = insert i ?I" using v0 by auto
  have up: "updates (leaf_view (child e)) (leaf_view ((child e)(i := v))) {q. p1_index q = i} (\<lambda>_. v)"
    by (simp add: updates_def leaf_view_def)
  have ok: "pt_ok ((child e)(i := v))" using e i v by (simp add: leaf_open_def pt_ok_def)
  show ?thesis
  proof (cases "child e i = 0")
    case True
    then have "card (insert i ?I) = card ?I + 1" using c(2) by simp
    with True e c(1) ok up I show ?thesis
      by (simp add: pte_set_page_def enter_def leaf_open_def user_entry_def Let_def del: fun_upd_apply)
  next
    case False
    then have "insert i ?I = ?I" by auto
    with False e ok up I show ?thesis
      by (simp add: pte_set_page_def leaf_open_def user_entry_def Let_def del: fun_upd_apply)
  qed
qed

lemma pte_try_unmap_Ok:
  assumes e: "leaf_open e"
  shows "\<exists>e'. pte_try_unmap i e = Ok e' \<and> leaf_open e' \<and>
    updates (leaf_view (child e)) (leaf_view (child e')) {q. p1_index q = i} (\<lambda>_. 0)"
proof -
  let ?I = "{j. child e j \<noteq> 0}"
  have "?I \<subseteq> {..<512}" using e leaf_finite by (simp add: leaf_open_def)
  then have fin: "finite ?I" using finite_subset by auto
  have I: "{j. ((child e)(i := 0)) j \<noteq> 0} = ?I - {i}" by auto
  have up: "updates (leaf_view (child e)) (leaf_view ((child e)(i := 0))) {q. p1_index q = i} (\<lambda>_. 0)"
    by (simp add: updates_def leaf_view_def)
  have ok: "pt_ok ((child e)(i := 0))" using e by (simp add: leaf_open_def pt_ok_def)
  show ?thesis
  proof (cases "child e i = 0")
    case True
    then have "?I - {i} = ?I" by auto
    with True e ok up I show ?thesis
      by (simp add: pte_try_unmap_def entry_try_from_def leaf_open_def user_entry_def Let_def del: fun_upd_apply)
  next
    case False
    then have i: "i \<in> ?I" "entry_try_from (child e i) \<noteq> None"
      using e by (auto simp: leaf_open_def pt_ok_def entry_try_from_def)
    from i(1) fin have "card ?I \<noteq> 0" by auto
    then have rc: "refcount e \<noteq> 0" using e unfolding leaf_open_def by metis
    let ?e = "e\<lparr>refcount := refcount e - 1, child := (child e)(i := 0)\<rparr>"
    have "card (?I - {i}) = card ?I - 1" using i(1) by (rule card_Diff_singleton)
    then have "leaf_open ?e" using e ok I unfolding leaf_open_def user_entry_def by simp
    moreover have "pte_try_unmap i e = Ok ?e"
      using i(2) rc by (auto simp: pte_try_unmap_def leave_def Let_def)
    ultimately show ?thesis using up by (intro exI [of _ ?e]) simp
  qed
qed

lemma rfor_updates:
  assumes "\<And>i s. i \<in> set is \<Longrightarrow> I s \<Longrightarrow> \<exists>s'. f i s = Ok s' \<and> I s' \<and> updates (v s) (v s') (S i) (\<lambda>_. 0)"
    and "I s"
  shows "\<exists>s'. rfor f is s = Ok s' \<and> I s' \<and> updates (v s) (v s') (\<Union>i\<in>set is. S i) (\<lambda>_. 0)"
  using assms
proof (induction "is" arbitrary: s)
  case Nil
  then show ?case by (simp add: updates_def)
next
  case (Cons i "is")
  obtain s1 where s1: "f i s = Ok s1" "I s1" "updates (v s) (v s1) (S i) (\<lambda>_. 0)"
    using Cons.prems by (meson list.set_intros(1))
  obtain s2 where "rfor f is s1 = Ok s2" "I s2" "updates (v s1) (v s2) (\<Union>i\<in>set is. S i) (\<lambda>_. 0)"
    using Cons.IH [OF _ s1(2)] Cons.prems(1) by (metis list.set_intros(2))
  with s1 show ?case by (auto simp: updates_def)
qed

text \<open>The pages the loops of each level run over.\<close>

definition range1 :: "nat \<Rightarrow> nat \<Rightarrow> nat set" where
  "range1 s e = {q. p1_index s \<le> p1_index q \<and> p1_index q \<le> p1_index e}"

definition range_up :: "nat \<Rightarrow> (nat \<Rightarrow> nat \<Rightarrow> nat \<Rightarrow> nat set) \<Rightarrow> nat \<Rightarrow> nat \<Rightarrow> nat \<Rightarrow> nat set" where
  "range_up k R b s e = {q. idx k s \<le> idx k q \<and> idx k q \<le> idx k e \<and>
     (let lo = (b * 512 + idx k q) * 512 ^ k in
      q \<in> R (b * 512 + idx k q) (max s lo) (min e (lo + 512 ^ k - 1)))}"

abbreviation range2 :: "nat \<Rightarrow> nat \<Rightarrow> nat \<Rightarrow> nat set" where "range2 \<equiv> range_up 1 (\<lambda>_. range1)"
abbreviation range3 :: "nat \<Rightarrow> nat \<Rightarrow> nat \<Rightarrow> nat set" where "range3 \<equiv> range_up 2 range2"
abbreviation range4 :: "nat \<Rightarrow> nat \<Rightarrow> nat \<Rightarrow> nat set" where "range4 \<equiv> range_up 3 range3"

lemma unmap_pt_Ok:
  assumes "leaf_open e"
  shows "\<exists>e'. unmap_pt s t e = Ok e' \<and> leaf_open e' \<and>
    updates (leaf_view (child e)) (leaf_view (child e')) (range1 s t) (\<lambda>_. 0)"
proof -
  have "\<exists>e'. unmap_pt s t e = Ok e' \<and> leaf_open e' \<and>
      updates (leaf_view (child e)) (leaf_view (child e'))
        (\<Union>i\<in>set [p1_index s ..< p1_index t + 1]. {q. p1_index q = i}) (\<lambda>_. 0)"
    unfolding unmap_pt_def by (rule rfor_updates) (use pte_try_unmap_Ok assms in blast)+
  moreover have "(\<Union>i\<in>set [p1_index s ..< p1_index t + 1]. {q. p1_index q = i}) = range1 s t"
    by (auto simp: range1_def)
  ultimately show ?thesis by simp
qed

lemma range_up_Union:
  "(\<Union>i\<in>set [idx k s ..< idx k t + 1]. {q. idx k q = i \<and> q \<in> R (b * 512 + i)
      (max s ((b * 512 + i) * 512 ^ k)) (min t ((b * 512 + i) * 512 ^ k + 512 ^ k - 1))}) =
   range_up k R b s t"
  by (auto simp: range_up_def Let_def)

lemma from_indices:
  "from_page_table_indices i4 i3 i2 0 = ((i4 * 512 + i3) * 512 + i2) * 512 ^ 1"
  "from_page_table_indices i4 i3 i2 511 = ((i4 * 512 + i3) * 512 + i2) * 512 ^ 1 + 512 ^ 1 - 1"
  "from_page_table_indices i4 i3 0 0 = (i4 * 512 + i3) * 512 ^ 2"
  "from_page_table_indices i4 i3 511 511 = (i4 * 512 + i3) * 512 ^ 2 + 512 ^ 2 - 1"
  "from_page_table_indices i4 0 0 0 = (0 * 512 + i4) * 512 ^ 3"
  "from_page_table_indices i4 511 511 511 = (0 * 512 + i4) * 512 ^ 3 + 512 ^ 3 - 1"
  by (simp_all add: from_page_table_indices_def)

lemma unmap_pd_Ok:
  assumes "node_open leaf_closed e"
  shows "\<exists>e'. unmap_pd i4 i3 s t e = Ok e' \<and> node_open leaf_closed e' \<and>
    updates (table_view 1 leaf_view (child e)) (table_view 1 leaf_view (child e'))
      (range2 (i4 * 512 + i3) s t) (\<lambda>_. 0)"
  unfolding unmap_pd_def from_indices(1,2) range_up_Union [symmetric]
  by (rule rfor_updates, rule leaf.with_existing_Ok) (use unmap_pt_Ok assms in blast)+

lemma unmap_pdp_Ok:
  assumes "node_open pde_closed e"
  shows "\<exists>e'. unmap_pdp i4 s t e = Ok e' \<and> node_open pde_closed e' \<and>
    updates (table_view 2 (table_view 1 leaf_view) (child e))
      (table_view 2 (table_view 1 leaf_view) (child e')) (range3 i4 s t) (\<lambda>_. 0)"
  unfolding unmap_pdp_def from_indices(3,4) range_up_Union [symmetric, of 2]
  by (rule rfor_updates, rule pde.with_existing_Ok) (use unmap_pd_Ok assms in blast)+

lemma unmap_pml4_Ok:
  assumes "pml4_ok T"
  shows "\<exists>T'. rfor (\<lambda>i4. with_existing4 i4
        (unmap_pdp i4 (max s (from_page_table_indices i4 0 0 0))
           (min t (from_page_table_indices i4 511 511 511)))) [p4_index s ..< p4_index t + 1] T = Ok T' \<and>
    pml4_ok T' \<and> updates (pml4_view T) (pml4_view T') (range4 0 s t) (\<lambda>_. 0)"
  unfolding from_indices(5,6) range_up_Union [symmetric, of 3] pml4_view_def pml4_ok_def
  by (rule rfor_updates, rule pdpe.with_existing4_Ok)
    (use unmap_pdp_Ok assms [unfolded pml4_ok_def] in \<open>auto simp only: mult_0 add_0\<close>)

text \<open>
  Within a block of pages that share the indices above, these are exactly the pages between
  the first and the last.
\<close>

lemma block_idx: "x div 512 ^ Suc k = b \<Longrightarrow> x div 512 ^ k = b * 512 + idx k x"
  by (auto simp: idx_def div_mult2_eq mult.commute [of 512])

lemma range1_block:
  assumes "s div 512 ^ 1 = b" "t div 512 ^ 1 = b" "q div 512 ^ 1 = b"
  shows "q \<in> range1 s t \<longleftrightarrow> s \<le> q \<and> q \<le> t"
  using block_idx [of s 0 b] block_idx [of t 0 b] block_idx [of q 0 b] assms
  by (auto simp: range1_def)

lemma div_block: "0 < W \<Longrightarrow> x div W = c \<longleftrightarrow> c * W \<le> x \<and> x \<le> c * W + W - 1" for W x c :: nat
proof
  assume W: "0 < W" and "x div W = c"
  with div_times_less_eq_dividend [of x W] dividend_less_div_times [OF W, of x]
  show "c * W \<le> x \<and> x \<le> c * W + W - 1" by auto
next
  assume "0 < W" "c * W \<le> x \<and> x \<le> c * W + W - 1"
  then show "x div W = c" by (intro div_nat_eqI) (auto simp: mult.commute)
qed

lemma range_up_block:
  assumes blocks: "s div 512 ^ Suc k = b" "t div 512 ^ Suc k = b" "q div 512 ^ Suc k = b" and le: "s \<le> t"
    and R: "\<And>b s t. s div 512 ^ k = b \<Longrightarrow> t div 512 ^ k = b \<Longrightarrow> q div 512 ^ k = b \<Longrightarrow> s \<le> t \<Longrightarrow>
      q \<in> R b s t \<longleftrightarrow> s \<le> q \<and> q \<le> t"
  shows "q \<in> range_up k R b s t \<longleftrightarrow> s \<le> q \<and> q \<le> t"
proof -
  define W where "W = (512 ^ k :: nat)"
  define c where "c = b * 512 + idx k q"
  have W: "0 < W" by (simp add: W_def)
  have d: "s div W = b * 512 + idx k s" "t div W = b * 512 + idx k t" "q div W = c"
    using block_idx blocks unfolding W_def c_def by blast+
  have mem: "q \<in> range_up k R b s t \<longleftrightarrow> s div W \<le> c \<and> c \<le> t div W \<and>
      q \<in> R c (max s (c * W)) (min t (c * W + W - 1))"
    unfolding d(1,2) by (simp add: range_up_def Let_def W_def c_def)
  have q: "c * W \<le> q" "q \<le> c * W + W - 1" using div_block [OF W] d(3) by blast+
  have R': "q \<in> R c (max s (c * W)) (min t (c * W + W - 1)) \<longleftrightarrow> s \<le> q \<and> q \<le> t"
    if st: "s \<le> c * W + W - 1" "c * W \<le> t"
  proof -
    have "max s (c * W) div W = c" "min t (c * W + W - 1) div W = c"
      using div_block [OF W, of _ c] st q by auto
    moreover have "max s (c * W) \<le> min t (c * W + W - 1)" using st q le by simp
    ultimately show ?thesis using R [of "max s (c * W)" c "min t (c * W + W - 1)"] d(3) q
      by (simp add: W_def)
  qed
  have st: "s div W \<le> c \<Longrightarrow> s \<le> c * W + W - 1" "c \<le> t div W \<Longrightarrow> c * W \<le> t"
    using dividend_less_div_times [OF W, of s] div_times_less_eq_dividend [of t W]
      mult_le_mono1 [of "s div W" c W] mult_le_mono1 [of c "t div W" W] by linarith+
  have "s div W \<le> c" "c \<le> t div W" if "s \<le> q" "q \<le> t"
    using div_le_mono [OF that(1), of W] div_le_mono [OF that(2), of W] d(3) by auto
  with mem R' st show ?thesis by blast
qed

lemma range4_block:
  assumes "s < 512 ^ 4" "t < 512 ^ 4" "q < 512 ^ 4" "s \<le> t"
  shows "q \<in> range4 0 s t \<longleftrightarrow> s \<le> q \<and> q \<le> t"
proof -
  have up: "s div 512 ^ Suc k = b \<Longrightarrow> t div 512 ^ Suc k = b \<Longrightarrow> q div 512 ^ Suc k = b \<Longrightarrow> s \<le> t \<Longrightarrow>
      (\<And>b s t. s div 512 ^ k = b \<Longrightarrow> t div 512 ^ k = b \<Longrightarrow> q div 512 ^ k = b \<Longrightarrow> s \<le> t \<Longrightarrow>
        q \<in> R b s t \<longleftrightarrow> s \<le> q \<and> q \<le> t) \<Longrightarrow> q \<in> range_up k R b s t \<longleftrightarrow> s \<le> q \<and> q \<le> t" for k b s t R
    by (rule range_up_block)
  have 1: "q \<in> range1 s t \<longleftrightarrow> s \<le> q \<and> q \<le> t"
    if "s div 512 ^ 1 = b" "t div 512 ^ 1 = b" "q div 512 ^ 1 = b" for b s t
    using range1_block that by blast
  have 2: "q \<in> range2 b s t \<longleftrightarrow> s \<le> q \<and> q \<le> t"
    if "s div 512 ^ 2 = b" "t div 512 ^ 2 = b" "q div 512 ^ 2 = b" "s \<le> t" for b s t
    by (rule up) (use that 1 in \<open>auto simp: numeral_2_eq_2\<close>)
  have 3: "q \<in> range3 b s t \<longleftrightarrow> s \<le> q \<and> q \<le> t"
    if "s div 512 ^ 3 = b" "t div 512 ^ 3 = b" "q div 512 ^ 3 = b" "s \<le> t" for b s t
    by (rule up) (use that 2 in \<open>auto simp: numeral_3_eq_3\<close>)
  show ?thesis
    by (rule up, use assms in simp, use assms in simp, use assms in simp, rule assms(4), rule 3)
qed

lemma indices_inj:
  assumes "p < 512 ^ 4" "q < 512 ^ 4"
    and "p4_index q = p4_index p" "p3_index q = p3_index p" "p2_index q = p2_index p" "p1_index q = p1_index p"
  shows "q = p"
proof -
  have step: "q div 512 ^ Suc k = p div 512 ^ Suc k \<Longrightarrow> idx k q = idx k p \<Longrightarrow> q div 512 ^ k = p div 512 ^ k" for k
    using block_idx [of q k] block_idx [of p k] by simp
  have "q div 512 ^ Suc 3 = p div 512 ^ Suc 3" using assms(1,2) by simp
  from step [OF this assms(3)] have "q div 512 ^ Suc 2 = p div 512 ^ Suc 2" by simp
  from step [OF this assms(4)] have "q div 512 ^ Suc 1 = p div 512 ^ Suc 1" by (simp add: numeral_2_eq_2)
  from step [OF this assms(5)] have "q div 512 ^ Suc 0 = p div 512 ^ Suc 0" by simp
  from step [OF this assms(6)] show ?thesis by simp
qed

section \<open>Properties\<close>

lemma set_page_spec:
  assumes "pml4_ok T" and "bit v PRESENT_BIT" and "bit v USER_BIT" and "\<not> bit v GLOBAL_BIT"
    and "p < 512 ^ 4"
  shows "if p4_index p < 256
    then \<exists>T'. set_page p v T = Ok T' \<and> pml4_ok T' \<and>
      (\<forall>q < 512 ^ 4. pml4_view T' q = (if q = p then v else pml4_view T q))
    else set_page p v T = Err Fault"
proof (cases "p4_index p < 256")
  case True
  have lt: "idx k x < 512" for k x by (simp add: idx_def)
  have fl: "has_flags (entry_flags v) USER" "\<not> has_flags (entry_flags v) GLOBAL"
    using assms(3,4) by (auto simp: has_flag_bits bit_entry_flags entry_bits)
  let ?S = "{q. p4_index q = p4_index p \<and> q \<in> {q. p3_index q = p3_index p \<and>
    q \<in> {q. p2_index q = p2_index p \<and> q \<in> {q. p1_index q = p1_index p}}}}"
  have "\<exists>T'. set_page p v T = Ok T' \<and> Page_Walk.table_ok pdpe_closed 256 T' \<and>
      updates (pml4_view T) (pml4_view T') ?S (\<lambda>_. v)"
    unfolding set_page_def check_user_page_def Let_def pml4_view_def ensure_def if_P [OF True]
    by (rule pdpe.with_table4_Ok [OF assms(1) [unfolded pml4_ok_def] True fl],
        rule pde.with_table_Ok [OF _ lt fl], assumption,
        rule leaf.with_table_Ok [OF _ lt fl], assumption,
        rule pte_set_page_Ok [OF _ lt assms(2)])
  then obtain T' where T': "set_page p v T = Ok T'" "pml4_ok T'" "updates (pml4_view T) (pml4_view T') ?S (\<lambda>_. v)"
    by (auto simp: pml4_ok_def)
  moreover have "q \<in> ?S \<longleftrightarrow> q = p" if "q < 512 ^ 4" for q
    using indices_inj [OF assms(5) that] by auto
  ultimately show ?thesis using True by (auto simp: updates_def)
qed (simp add: set_page_def check_user_page_def)

text \<open>
  C28. Mapping a user page changes the entry of that page and of no other, sets up the
  tables that are missing, never runs into one of the assertions on the way, and leaves no
  empty table behind. A page of the upper half is refused.
\<close>

theorem set_page_refines:
  assumes "pml4_ok T" and "bit v PRESENT_BIT" and "bit v USER_BIT" and "\<not> bit v GLOBAL_BIT"
    and "p < 512 ^ 4"
  shows "if p4_index p < 256
    then \<exists>T'. set_page p v T = Ok T' \<and> pml4_ok T' \<and>
      (\<forall>q < 512 ^ 4. pml4_view T' q = (if q = p then v else pml4_view T q))
    else set_page p v T = Err Fault"
  using assms by (rule set_page_spec)

theorem set_page_refines_witness:
  "\<exists>T'. set_page 7 0x1007 Map.empty = Ok T' \<and> pml4_ok T' \<and>
    (\<forall>q < 512 ^ 4. pml4_view T' q = (if q = 7 then 0x1007 else pml4_view Map.empty q))"
  using set_page_refines [of Map.empty "0x1007" 7]
  by (simp add: pml4_ok_def table_ok_def entry_bits idx_def)

lemma try_unmap_spec:
  assumes "pml4_ok T"
  shows "\<exists>T'. try_unmap_user_pages (Included s) (Included e) T = Ok T' \<and> pml4_ok T' \<and>
    (\<forall>q \<le> LAST_USER_PAGE. pml4_view T' q =
       (if min s LAST_USER_PAGE \<le> q \<and> q \<le> e then 0 else pml4_view T q))"
proof (cases "min e LAST_USER_PAGE < min s LAST_USER_PAGE")
  case True
  then show ?thesis using assms by (auto simp: try_unmap_user_pages_def Let_def)
next
  case False
  let ?s = "min s LAST_USER_PAGE" and ?e = "min e LAST_USER_PAGE"
  have "try_unmap_user_pages (Included s) (Included e) T = rfor (\<lambda>i4. with_existing4 i4
      (unmap_pdp i4 (max ?s (from_page_table_indices i4 0 0 0))
         (min ?e (from_page_table_indices i4 511 511 511)))) [p4_index ?s ..< p4_index ?e + 1] T"
    by (simp only: try_unmap_user_pages_def Let_def bound.case option.case False if_False)
  with unmap_pml4_Ok [OF assms, of ?s ?e]
  obtain T' where T': "try_unmap_user_pages (Included s) (Included e) T = Ok T'" "pml4_ok T'"
    "updates (pml4_view T) (pml4_view T') (range4 0 ?s ?e) (\<lambda>_. 0)" by metis
  moreover have "q \<in> range4 0 ?s ?e \<longleftrightarrow> ?s \<le> q \<and> q \<le> e" if "q \<le> LAST_USER_PAGE" for q
    using range4_block [of ?s ?e q] that False by (auto simp: LAST_USER_PAGE_def)
  ultimately show ?thesis by (auto simp: updates_def)
qed

text \<open>
  C27. Unmapping a range of user pages removes the entries of exactly the pages of the range,
  whatever its bounds, frees the tables that become empty, and never runs into one of the
  assertions on the way.
\<close>

theorem try_unmap_user_pages_refines:
  assumes "pml4_ok T"
  shows "\<exists>T'. try_unmap_user_pages (Included s) (Included e) T = Ok T' \<and> pml4_ok T' \<and>
    (\<forall>q \<le> LAST_USER_PAGE. pml4_view T' q =
       (if min s LAST_USER_PAGE \<le> q \<and> q \<le> e then 0 else pml4_view T q))"
  using assms by (rule try_unmap_spec)

theorem try_unmap_user_pages_refines_witness:
  "\<exists>T'. try_unmap_user_pages (Included 3) (Included 9) Map.empty = Ok T' \<and> pml4_ok T' \<and>
    (\<forall>q \<le> LAST_USER_PAGE. pml4_view T' q =
       (if min 3 LAST_USER_PAGE \<le> q \<and> q \<le> 9 then 0 else pml4_view Map.empty q))"
  by (rule try_unmap_user_pages_refines) (simp add: pml4_ok_def table_ok_def)

lemma freeze_pt_view:
  "pt_ok t \<Longrightarrow> leaf_view (freeze_pt t) q = leaf_view t q AND NOT (2 ^ WRITE_BIT)"
  by (simp add: leaf_view_def freeze_pt_def idx_def)

lemma freeze_pt_ok:
  assumes "pt_ok t"
  shows "pt_ok (freeze_pt t)" "{i. freeze_pt t i \<noteq> 0} = {i. t i \<noteq> 0}"
proof -
  have "freeze_pt t i = 0 \<longleftrightarrow> t i = 0" for i
  proof
    assume z: "freeze_pt t i = 0"
    show "t i = 0"
    proof (rule ccontr)
      assume "t i \<noteq> 0"
      then have "bit (freeze_pt t i) PRESENT_BIT"
        using assms by (simp add: pt_ok_def freeze_pt_def bit_simps entry_bits)
      with z show False by simp
    qed
  qed (simp add: freeze_pt_def)
  then show "{i. freeze_pt t i \<noteq> 0} = {i. t i \<noteq> 0}" by simp
  show "pt_ok (freeze_pt t)"
    using assms \<open>\<And>i. freeze_pt t i = 0 \<longleftrightarrow> t i = 0\<close>
    by (auto simp: pt_ok_def freeze_pt_def bit_simps entry_bits)
qed

lemma freeze_leaf: "leaf_closed e \<Longrightarrow> leaf_closed (e\<lparr>child := freeze_pt (child e)\<rparr>)"
  using freeze_pt_ok [of "child e"] by (simp add: leaf_closed_def user_entry_def)

lemma dom_freeze_table: "dom (freeze_table f n T) = dom T"
  by (auto simp: freeze_table_def dom_def)

lemma freeze_table_ok:
  "(\<And>e. cls e \<Longrightarrow> cls (e\<lparr>child := f (child e)\<rparr>)) \<Longrightarrow> Page_Walk.table_ok cls m T \<Longrightarrow>
   Page_Walk.table_ok cls m (freeze_table f n T)"
  unfolding table_ok_def dom_freeze_table by (auto simp: freeze_table_def split: if_splits)

lemma freeze_node:
  "(\<And>e. cls e \<Longrightarrow> cls (e\<lparr>child := f (child e)\<rparr>)) \<Longrightarrow> node_closed cls e \<Longrightarrow>
   node_closed cls (e\<lparr>child := freeze_table f n (child e)\<rparr>)"
  using freeze_table_ok [of cls f 512 "child e" n] dom_freeze_table [of f n "child e"]
  by (simp add: node_closed_def user_entry_def)

lemma freeze_view:
  assumes "\<And>e q. cls e \<Longrightarrow> view (f (child e)) q = view (child e) q AND NOT (2 ^ WRITE_BIT)"
    and "Page_Walk.table_ok cls m T" "m \<le> n"
  shows "table_view k view (freeze_table f n T) q = table_view k view T q AND NOT (2 ^ WRITE_BIT)"
proof (cases "T (idx k q)")
  case (Some e)
  then have "idx k q < n" "cls e" using assms(2,3) by (auto simp: table_ok_def)
  with Some assms(1) show ?thesis by (simp add: table_view_def freeze_table_def)
qed (simp add: table_view_def freeze_table_def)

lemma freeze_spec:
  assumes "pml4_ok T"
  shows "pml4_ok (freeze_userspace T) \<and>
    pml4_view (freeze_userspace T) q = pml4_view T q AND NOT (2 ^ WRITE_BIT) \<and>
    \<not> bit (pml4_view (freeze_userspace T) q) WRITE_BIT"
proof -
  have pde: "pde_closed e \<Longrightarrow> pde_closed (e\<lparr>child := freeze_table freeze_pt 512 (child e)\<rparr>)" for e
    by (rule freeze_node [of leaf_closed freeze_pt, OF freeze_leaf])
  have pdpe: "pdpe_closed e \<Longrightarrow>
      pdpe_closed (e\<lparr>child := freeze_table (freeze_table freeze_pt 512) 512 (child e)\<rparr>)" for e
    by (rule freeze_node [of pde_closed "freeze_table freeze_pt 512", OF pde])
  have 1: "leaf_closed e \<Longrightarrow> leaf_view (freeze_pt (child e)) q = leaf_view (child e) q AND NOT (2 ^ WRITE_BIT)" for e q
    by (rule freeze_pt_view) (simp add: leaf_closed_def)
  have 2: "pde_closed e \<Longrightarrow> table_view 1 leaf_view (freeze_table freeze_pt 512 (child e)) q =
      table_view 1 leaf_view (child e) q AND NOT (2 ^ WRITE_BIT)" for e q
    by (rule freeze_view [of leaf_closed leaf_view freeze_pt 512, OF 1]) (simp_all add: node_closed_def)
  have 3: "pdpe_closed e \<Longrightarrow> table_view 2 (table_view 1 leaf_view)
        (freeze_table (freeze_table freeze_pt 512) 512 (child e)) q =
      table_view 2 (table_view 1 leaf_view) (child e) q AND NOT (2 ^ WRITE_BIT)" for e q
    by (rule freeze_view [of pde_closed "table_view 1 leaf_view" "freeze_table freeze_pt 512" 512, OF 2]) (simp_all add: node_closed_def)
  have "pml4_view (freeze_userspace T) q = pml4_view T q AND NOT (2 ^ WRITE_BIT)"
    unfolding pml4_view_def freeze_userspace_def
    by (rule freeze_view [of pdpe_closed "table_view 2 (table_view 1 leaf_view)"
          "freeze_table (freeze_table freeze_pt 512) 512" 256, OF 3]) (use assms in \<open>simp_all add: pml4_ok_def\<close>)
  moreover have "pml4_ok (freeze_userspace T)"
    unfolding pml4_ok_def freeze_userspace_def
    by (rule freeze_table_ok [of pdpe_closed "freeze_table (freeze_table freeze_pt 512) 512", OF pdpe]) (use assms in \<open>simp_all add: pml4_ok_def\<close>)
  ultimately show ?thesis by (simp add: bit_simps entry_bits)
qed

text \<open>
  Freezing the user space takes the write permission from every mapped page and changes
  nothing else: every entry keeps its frame and its other bits.
\<close>

theorem freeze_userspace_refines:
  assumes "pml4_ok T"
  shows "pml4_ok (freeze_userspace T) \<and>
    pml4_view (freeze_userspace T) q = pml4_view T q AND NOT (2 ^ WRITE_BIT) \<and>
    \<not> bit (pml4_view (freeze_userspace T) q) WRITE_BIT"
  using assms by (rule freeze_spec)

theorem freeze_userspace_refines_witness:
  "pml4_ok (freeze_userspace Map.empty) \<and>
   pml4_view (freeze_userspace Map.empty) 4 = pml4_view Map.empty 4 AND NOT (2 ^ WRITE_BIT) \<and>
   \<not> bit (pml4_view (freeze_userspace Map.empty) 4) WRITE_BIT"
  by (rule freeze_userspace_refines) (simp add: pml4_ok_def table_ok_def)

end
