(* ===== verification/Address_Space.thy ===== *)
theory Address_Space
  imports Mappings Page_Walk
begin

text \<open>
  Address spaces (\<^verbatim>\<open>VirtualMemory\<close> in \<^verbatim>\<open>tee/kernel/src/user/process/memory.rs\<close>,
  \<^verbatim>\<open>UserPage\<close> in \<^verbatim>\<open>tee/kernel/src/memory/page/user.rs\<close>): mapping, unmapping, protecting and
  discarding memory, the break, page faults and forking. The state is the address space
  with its page tables, the heap the pages live on, and the files. Files are trait objects:
  the function \<open>fp\<close> that hands out their pages and the type of their state are parameters.
\<close>

section \<open>The state\<close>

text \<open>The backing by a file has the file, the offset from which it is zero, whether it is shared,
  and whether it is padded with zeroes.\<close>

datatype backing =
    ZeroBacking
  | FileBacking nat nat bool bool
  | TrampolineCode

record memory_usage =
  maxrss :: u64
  minflt :: u64
  majflt :: u64
  rss :: u64

record vmem =
  mappings :: "backing mappings"
  brk_end :: nat
  pagetables :: pml4
  usage :: memory_usage

record 'f mem =
  vm :: vmem
  hp :: heap
  fs :: 'f
  trampoline :: kernel_page

type_synonym 'f file_page = "nat \<Rightarrow> nat \<Rightarrow> bool \<Rightarrow> (heap \<times> 'f, kernel_page) stateful"

definition VirtualMemory_new :: vmem where
  "VirtualMemory_new = \<lparr>mappings = [], brk_end = 0, pagetables = Map.empty,
     usage = \<lparr>maxrss = 0, minflt = 0, majflt = 0, rss = 0\<rparr>\<rparr>"

section \<open>Memory usage\<close>

definition usage_fork :: "memory_usage \<Rightarrow> memory_usage" where
  "usage_fork u = \<lparr>maxrss = rss u, minflt = 0, majflt = 0, rss = rss u\<rparr>"

definition record_minor_page_fault :: "memory_usage \<Rightarrow> memory_usage" where
  "record_minor_page_fault u = u\<lparr>minflt := minflt u + 1\<rparr>"

definition record_major_page_fault :: "memory_usage \<Rightarrow> memory_usage" where
  "record_major_page_fault u = u\<lparr>majflt := majflt u + 1\<rparr>"

definition increase_rss :: "memory_usage \<Rightarrow> (memory_usage, 'e) outcome" where
  "increase_rss u =
     rbind (wadd (rss u) 1) (\<lambda>n. Ok (u\<lparr>rss := rss u + 1, maxrss := max (maxrss u) n\<rparr>))"

definition decrease_rss :: "nat \<Rightarrow> memory_usage \<Rightarrow> memory_usage" where
  "decrease_rss delta u = u\<lparr>rss := rss u - of_nat delta\<rparr>"

section \<open>Access to the parts of the state\<close>

definition on_hp :: "(heap, 'a, 'e) failing \<Rightarrow> ('f mem, 'a, 'e) failing" where
  "on_hp f s = (case f (hp s) of (r, h) \<Rightarrow> (r, s\<lparr>hp := h\<rparr>))"

definition on_files :: "(heap \<times> 'f, 'a, 'e) failing \<Rightarrow> ('f mem, 'a, 'e) failing" where
  "on_files f s = (case f (hp s, fs s) of (r, (h, x)) \<Rightarrow> (r, s\<lparr>hp := h, fs := x\<rparr>))"

definition get_vm :: "('f mem, vmem, 'e) failing" where
  "get_vm s = (Ok (vm s), s)"

definition modify_vm :: "(vmem \<Rightarrow> vmem) \<Rightarrow> ('f mem, unit, 'e) failing" where
  "modify_vm g s = (Ok (), s\<lparr>vm := g (vm s)\<rparr>)"

definition modify_usage :: "(memory_usage \<Rightarrow> memory_usage) \<Rightarrow> ('f mem, unit, 'e) failing" where
  "modify_usage g = modify_vm (\<lambda>v. v\<lparr>usage := g (usage v)\<rparr>)"

definition modify_tables :: "(pml4 \<Rightarrow> pml4 result) \<Rightarrow> ('f mem, unit) stateful" where
  "modify_tables g s =
     (case g (pagetables (vm s)) of
        Ok T \<Rightarrow> (Ok (), s\<lparr>vm := (vm s)\<lparr>pagetables := T\<rparr>\<rparr>)
      | Err e \<Rightarrow> (Err e, s)
      | Panic \<Rightarrow> (Panic, s))"

definition smap_err :: "('e \<Rightarrow> 'd) \<Rightarrow> ('s, 'a, 'e) failing \<Rightarrow> ('s, 'a, 'd) failing" where
  "smap_err g f s =
     (case f s of (Ok x, t) \<Rightarrow> (Ok x, t) | (Err e, t) \<Rightarrow> (Err (g e), t) | (Panic, t) \<Rightarrow> (Panic, t))"

fun sfor_each :: "('i \<Rightarrow> ('s, unit, 'e) failing) \<Rightarrow> 'i list \<Rightarrow> ('s, unit, 'e) failing" where
  "sfor_each f [] = sret ()"
| "sfor_each f (i # is) = sbind (f i) (\<lambda>_. sfor_each f is)"

text \<open>Dropping a user page drops its kernel page.\<close>

definition drop_user_pages :: "user_page list \<Rightarrow> ('f mem, unit) stateful" where
  "drop_user_pages us = on_hp (sfor_each (\<lambda>u. drop_page (upage u)) us)"

section \<open>Unmapping and mapping\<close>

text \<open>\<^verbatim>\<open>record_unmapping\<close>, after which the mapping is dropped.\<close>

definition remove_mapping :: "backing mapping \<Rightarrow> ('f mem, unit) stateful" where
  "remove_mapping m =
     sbind (modify_usage (decrease_rss (length (somes (mpages m))))) (\<lambda>_.
       drop_user_pages (somes (mpages m)))"

definition unmap :: "va_add \<Rightarrow> nat \<Rightarrow> nat \<Rightarrow> ('f mem, unit) stateful" where
  "unmap va addr len =
     (if len = 0 then sret ()
      else sbind (slift (va addr (len - 1))) (\<lambda>last.
        let start_page = addr div 4096; end_page = last div 4096 in
        sbind (modify_tables (try_unmap_user_pages (Included start_page) (Included end_page))) (\<lambda>_.
        sbind get_vm (\<lambda>v.
          case cursor_at start_page (mappings v) of (pre, post) \<Rightarrow>
          sbind (slift (unmap_loop va start_page end_page post)) (\<lambda>(ms, removed).
          sbind (modify_vm (\<lambda>v. v\<lparr>mappings := pre @ ms\<rparr>)) (\<lambda>_.
            sfor_each remove_mapping removed))))))"

datatype bias = Fixed nat | Dynamic abi

definition mmap ::
  "va_add \<Rightarrow> bias \<Rightarrow> nat \<Rightarrow> u8 \<Rightarrow> backing \<Rightarrow> nat \<Rightarrow> bool \<Rightarrow> ('f mem, nat) stateful" where
  "mmap va bias len perms b off sh =
     sbind (slift (rassert (len \<noteq> 0) (Ok ()))) (\<lambda>_.
     sbind (case bias of Fixed a \<Rightarrow> sret a
       | Dynamic abi \<Rightarrow> sbind get_vm (\<lambda>v. slift (find_free_address va len abi (mappings v)))) (\<lambda>addr.
     sbind (slift (va addr len)) (\<lambda>last.
       let start_page = addr div 4096; end_page = (last - 1) div 4096 in
       sbind (unmap va addr len) (\<lambda>_.
       sbind (modify_vm (\<lambda>v. v\<lparr>mappings := bt_insert start_page
           \<lparr>backing = b, page_offset = off, permissions = perms, shared = sh,
            mpages = replicate (end_page - start_page + 1) None\<rparr> (mappings v)\<rparr>)) (\<lambda>_.
         sret addr)))))"

definition mmap_zero :: "va_add \<Rightarrow> bias \<Rightarrow> nat \<Rightarrow> u8 \<Rightarrow> ('f mem, nat) stateful" where
  "mmap_zero va bias len perms = mmap va bias len perms ZeroBacking 0 False"

definition bias_page_offset :: "bias \<Rightarrow> nat" where
  "bias_page_offset bias = (case bias of Fixed a \<Rightarrow> a mod 4096 | Dynamic _ \<Rightarrow> 0)"

text \<open>\<open>st\<close> is the outcome of \<^verbatim>\<open>file.stat()\<close>, whose result only shows up in listings.\<close>

definition mmap_file_with_zeros ::
  "va_add \<Rightarrow> bias \<Rightarrow> nat \<Rightarrow> nat \<Rightarrow> nat \<Rightarrow> unit result \<Rightarrow> nat \<Rightarrow> u8 \<Rightarrow> bool \<Rightarrow> bool
   \<Rightarrow> ('f mem, nat) stateful" where
  "mmap_file_with_zeros va bias file_sz mem_sz f st offset perms sh pad =
     sbind (slift (ensure (offset mod 4096 = bias_page_offset bias) Inval (Ok ()))) (\<lambda>_.
     sbind (slift st) (\<lambda>_.
     sbind (slift (uadd offset file_sz)) (\<lambda>zero.
       mmap va bias mem_sz perms (FileBacking f zero sh pad) (offset div 4096) sh)))"

definition mmap_file ::
  "va_add \<Rightarrow> bias \<Rightarrow> nat \<Rightarrow> nat \<Rightarrow> unit result \<Rightarrow> nat \<Rightarrow> u8 \<Rightarrow> bool \<Rightarrow> ('f mem, nat) stateful" where
  "mmap_file va bias len f st offset perms sh =
     mmap_file_with_zeros va bias len (align_up len 4096) f st offset perms sh False"

definition allocate_stack :: "va_add \<Rightarrow> bias \<Rightarrow> nat \<Rightarrow> ('f mem, nat) stateful" where
  "allocate_stack va bias len = mmap_zero va bias len (PERM_READ OR PERM_WRITE)"

definition SIGRETURN_TRAMPOLINE_PAGE :: nat where
  "SIGRETURN_TRAMPOLINE_PAGE = 0x7ffff000"

definition map_sigreturn_trampoline :: "va_add \<Rightarrow> ('f mem, nat) stateful" where
  "map_sigreturn_trampoline va =
     mmap va (Fixed SIGRETURN_TRAMPOLINE_PAGE) 4096 (PERM_READ OR PERM_EXECUTE) TrampolineCode 0 False"

definition mprotect :: "va_add \<Rightarrow> nat \<Rightarrow> nat \<Rightarrow> u8 \<Rightarrow> ('f mem, unit) stateful" where
  "mprotect va addr len perms =
     (if len = 0 then sret ()
      else sbind (slift (ensure (addr mod 4096 = 0) Inval (Ok ()))) (\<lambda>_.
        sbind (slift (va addr (len - 1))) (\<lambda>last.
        let start_page = addr div 4096; end_page = last div 4096 in
        sbind (modify_tables (try_unmap_user_pages (Included start_page) (Included end_page))) (\<lambda>_.
        sbind get_vm (\<lambda>v.
          case cursor_at start_page (mappings v) of (pre, post) \<Rightarrow>
          sbind (slift (mprotect_loop va perms start_page end_page post)) (\<lambda>ms.
            modify_vm (\<lambda>v. v\<lparr>mappings := pre @ ms\<rparr>)))))))"

text \<open>The outcome of the loop is returned after its changes are in place.\<close>

definition discard_pages :: "va_add \<Rightarrow> nat \<Rightarrow> nat \<Rightarrow> ('f mem, unit) stateful" where
  "discard_pages va addr len =
     sbind (slift (ensure (addr mod 4096 = 0) Inval (Ok ()))) (\<lambda>_.
     sbind (slift (va addr len)) (\<lambda>last.
     sbind (slift (ensure (last mod 4096 = 0) Inval (Ok ()))) (\<lambda>_.
       let start_page = addr div 4096; end_page = last div 4096 in
       sbind (modify_tables (try_unmap_user_pages (Included start_page) (Excluded end_page))) (\<lambda>_.
       sbind get_vm (\<lambda>v.
         case cursor_at start_page (mappings v) of (pre, post) \<Rightarrow>
         case discard_loop va start_page end_page post of (r, ms, dropped) \<Rightarrow>
         sbind (modify_vm (\<lambda>v. v\<lparr>mappings := pre @ ms\<rparr>)) (\<lambda>_.
         sbind (modify_usage (decrease_rss (length dropped))) (\<lambda>_.
         sbind (drop_user_pages dropped) (\<lambda>_. slift r))))))))"

section \<open>The break\<close>

definition init_brk :: "nat \<Rightarrow> ('f mem, unit) stateful" where
  "init_brk brk = modify_vm (\<lambda>v. v\<lparr>brk_end := brk\<rparr>)"

definition is_free :: "va_add \<Rightarrow> nat \<Rightarrow> nat \<Rightarrow> ('f mem, bool) stateful" where
  "is_free va addr len =
     (if len = 0 then sret True
      else sbind (slift (va addr (len - 1))) (\<lambda>last.
        sbind get_vm (\<lambda>v. slift (is_free_pages va (addr div 4096) (last div 4096) (mappings v)))))"

definition set_brk_end :: "va_add \<Rightarrow> nat \<Rightarrow> ('f mem, unit) stateful" where
  "set_brk_end va brk =
     sbind get_vm (\<lambda>v. let old = brk_end v in
     sbind (modify_vm (\<lambda>v. v\<lparr>brk_end := brk\<rparr>)) (\<lambda>_.
       if old < brk then
         sbind (is_free va old (brk - old)) (\<lambda>free.
           if \<not> free then sbind (modify_vm (\<lambda>v. v\<lparr>brk_end := old\<rparr>)) (\<lambda>_. slift (Err NoMem))
           else sbind (mmap_zero va (Fixed old) (brk - old) (PERM_WRITE OR PERM_READ)) (\<lambda>_. sret ()))
       else if old = brk then sret ()
       else unmap va brk (old - brk)))"

section \<open>Page faults\<close>

datatype page_fault_error = Unmapped error_kind | MissingPermissions error_kind | Other error_kind

fun fault_error :: "page_fault_error \<Rightarrow> error_kind" where
  "fault_error (Unmapped e) = e"
| "fault_error (MissingPermissions e) = e"
| "fault_error (Other e) = e"

text \<open>\<^verbatim>\<open>Backing::get_initial_page\<close>. A page that cannot be zeroed is dropped.\<close>

definition zero_tail :: "nat \<Rightarrow> kernel_page \<Rightarrow> (heap, kernel_page) stateful" where
  "zero_tail start p h =
     (case zero_range (start, PAGE) False p h of
        (Err e, h') \<Rightarrow> sbind (drop_page p) (\<lambda>_. slift (Err e)) h'
      | r \<Rightarrow> r)"

definition clone_trampoline :: "('f mem, kernel_page) stateful" where
  "clone_trampoline s =
     sbind (on_hp (clone (trampoline s))) (\<lambda>(p, q) s. (Ok q, s\<lparr>trampoline := p\<rparr>)) s"

definition get_initial_page :: "'f file_page \<Rightarrow> backing \<Rightarrow> nat \<Rightarrow> ('f mem, kernel_page) stateful" where
  "get_initial_page fp b offset =
     (case b of
        ZeroBacking \<Rightarrow> sret zeroed
      | FileBacking f zero sh pad \<Rightarrow>
          sbind (slift (rassert (offset * 0x1000 < usize_bound) (Ok (zero - offset * 0x1000)))) (\<lambda>start.
            if start = 0 then slift (ensure pad Acces (Ok zeroed))
            else if start \<le> 0xfff then
              sbind (on_files (fp f offset sh)) (\<lambda>p.
                if \<not> sh then on_hp (zero_tail start p) else sret p)
            else on_files (fp f offset sh))
      | TrampolineCode \<Rightarrow> sbind (slift (rassert (offset = 0) (Ok ()))) (\<lambda>_. clone_trampoline))"

definition find_mapping :: "nat \<Rightarrow> 'b mappings \<Rightarrow> (nat \<times> 'b mapping) option" where
  "find_mapping q ms =
     (let below = takeWhile (\<lambda>x. fst x \<le> q) ms in if below = [] then None else Some (last below))"

definition set_slot :: "nat \<Rightarrow> nat \<Rightarrow> user_page option \<Rightarrow> 'b mappings \<Rightarrow> 'b mappings" where
  "set_slot p i x ms =
     map (\<lambda>(k, m). (k, if k = p then m\<lparr>mpages := (mpages m)[i := x]\<rparr> else m)) ms"

text \<open>\<^verbatim>\<open>Mapping::get_page\<close> of the mapping \<open>m\<close> at page \<open>p\<close>.\<close>

definition mapping_get_page ::
  "'f file_page \<Rightarrow> nat \<Rightarrow> backing mapping \<Rightarrow> nat \<Rightarrow> ('f mem, user_page, page_fault_error) failing" where
  "mapping_get_page fp p m i =
     (if npages m \<le> i then slift (Err (Unmapped Fault))
      else case mpages m ! i of
        Some u \<Rightarrow> sret u
      | None \<Rightarrow>
          sbind (slift (uadd (page_offset m) i)) (\<lambda>offset.
          sbind (smap_err Other (get_initial_page fp (backing m) offset)) (\<lambda>kp.
          let u = UserPage_new kp (permissions m) (shared m) in
          sbind (modify_vm (\<lambda>v. v\<lparr>mappings := set_slot p i (Some u) (mappings v)\<rparr>)) (\<lambda>_.
          sbind (modify_usage record_major_page_fault) (\<lambda>_.
          sbind get_vm (\<lambda>v.
          sbind (slift (increase_rss (usage v))) (\<lambda>us.
          sbind (modify_usage (\<lambda>_. us)) (\<lambda>_. sret u))))))))"

text \<open>The write fault of \<^verbatim>\<open>map_page\<close>: the page is unmapped before it is made mutable.\<close>

definition make_page_mut :: "nat \<Rightarrow> nat \<Rightarrow> user_page \<Rightarrow> ('f mem, user_page) stateful" where
  "make_page_mut page p u =
     sbind (modify_tables (try_unmap_user_pages (Included page) (Included page))) (\<lambda>_.
     sbind (on_hp (make_mut (ushared u) (upage u))) (\<lambda>kp.
       let u' = u\<lparr>upage := kp\<rparr> in
       sbind (modify_vm (\<lambda>v. v\<lparr>mappings := set_slot p (page - p) (Some u') (mappings v)\<rparr>)) (\<lambda>_. sret u')))"

definition map_page ::
  "'f file_page \<Rightarrow> (addr \<Rightarrow> nat) \<Rightarrow> nat \<Rightarrow> u8 \<Rightarrow> ('f mem, unit, page_fault_error) failing" where
  "map_page fp loc page required =
     sbind (modify_usage record_minor_page_fault) (\<lambda>_.
     sbind get_vm (\<lambda>v.
     sbind (slift (ok_or (find_mapping page (mappings v)) (Unmapped Fault))) (\<lambda>(p, m).
     sbind (mapping_get_page fp p m (page - p)) (\<lambda>u.
       if uperms u AND (PERM_READ OR PERM_WRITE) = 0 then slift (Err (MissingPermissions Fault))
       else
         sbind (if has_flags required WRITABLE \<and> has_flags (uperms u) PERM_WRITE
                then smap_err Other (make_page_mut page p u) else sret u) (\<lambda>u.
         sbind (smap_err Other (slift (user_page_entry loc u))) (\<lambda>entry.
           if \<not> has_flags (entry_flags entry) required then slift (Err (MissingPermissions Fault))
           else smap_err Other (modify_tables (set_page page entry))))))))"

text \<open>The bits of the error code of a page fault.\<close>

definition CAUSED_BY_WRITE :: u64 where "CAUSED_BY_WRITE = 2 ^ 1"
definition INSTRUCTION_FETCH :: u64 where "INSTRUCTION_FETCH = 2 ^ 4"

definition handle_page_fault ::
  "'f file_page \<Rightarrow> (addr \<Rightarrow> nat) \<Rightarrow> nat \<Rightarrow> u64 \<Rightarrow> ('f mem, unit, page_fault_error) failing" where
  "handle_page_fault fp loc addr code =
     map_page fp loc (addr div 4096)
       (put_flags EXECUTABLE (has_flags code INSTRUCTION_FETCH)
         (put_flags WRITABLE (has_flags code CAUSED_BY_WRITE) 0))"

definition map_addrs ::
  "'f file_page \<Rightarrow> (addr \<Rightarrow> nat) \<Rightarrow> va_add \<Rightarrow> nat \<Rightarrow> nat \<Rightarrow> u8 \<Rightarrow> ('f mem, unit) stateful" where
  "map_addrs fp loc va addr len required =
     sbind (slift (rassert (len \<noteq> 0) (va addr (len - 1)))) (\<lambda>last.
       sfor_each (\<lambda>page. smap_err fault_error (map_page fp loc page required))
         [addr div 4096 ..< last div 4096 + 1])"

section \<open>Forking\<close>

text \<open>
  \<^verbatim>\<open>Mapping::clone\<close> page by page. Cloning a page may give the original a reference count, so
  the loops return the pages of the parent with those of the child; on an error both are as
  far as the loops got.
\<close>

type_synonym slots = "user_page option list"

fun clone_pages :: "slots \<Rightarrow> heap \<Rightarrow> unit result \<times> slots \<times> slots \<times> heap" where
  "clone_pages [] h = (Ok (), [], [], h)"
| "clone_pages (None # us) h = (case clone_pages us h of (r, ps, cs, h') \<Rightarrow> (r, None # ps, None # cs, h'))"
| "clone_pages (Some u # us) h =
     (case clone (upage u) h of
        (Ok (p, q), h1) \<Rightarrow>
          (case clone_pages us h1 of (r, ps, cs, h') \<Rightarrow>
             (r, Some (u\<lparr>upage := p\<rparr>) # ps, Some (u\<lparr>upage := q\<rparr>) # cs, h'))
      | (Err e, h1) \<Rightarrow> (Err e, Some u # us, replicate (length us + 1) None, h1)
      | (Panic, h1) \<Rightarrow> (Panic, Some u # us, replicate (length us + 1) None, h1))"

fun clone_mappings ::
  "'b mappings \<Rightarrow> heap \<Rightarrow> unit result \<times> 'b mappings \<times> 'b mappings \<times> heap" where
  "clone_mappings [] h = (Ok (), [], [], h)"
| "clone_mappings ((p, m) # ms) h =
     (case clone_pages (mpages m) h of
        (Ok _, ps, cs, h1) \<Rightarrow>
          (case clone_mappings ms h1 of (r, pms, cms, h') \<Rightarrow>
             (r, (p, m\<lparr>mpages := ps\<rparr>) # pms, (p, m\<lparr>mpages := cs\<rparr>) # cms, h'))
      | (r, ps, cs, h1) \<Rightarrow> (r, (p, m\<lparr>mpages := ps\<rparr>) # ms, [(p, m\<lparr>mpages := cs\<rparr>)], h1))"

text \<open>\<^verbatim>\<open>VirtualMemory::clone\<close>. When it fails, what there is of the child is dropped.\<close>

definition vm_clone :: "('f mem, vmem) stateful" where
  "vm_clone s =
     (let v = vm s in
      case clone_mappings (mappings v) (hp s) of (r, pms, cms, h) \<Rightarrow>
      let s' = s\<lparr>vm := v\<lparr>mappings := pms, pagetables := freeze_userspace (pagetables v)\<rparr>, hp := h\<rparr> in
      case r of
        Ok _ \<Rightarrow> (Ok \<lparr>mappings = cms, brk_end = brk_end v, pagetables = Map.empty,
                   usage = usage_fork (usage v)\<rparr>, s')
      | Err e \<Rightarrow> sbind (drop_user_pages (concat (map (somes \<circ> mpages \<circ> snd) cms))) (\<lambda>_. slift (Err e)) s'
      | Panic \<Rightarrow> (Panic, s'))"

text \<open>\<^verbatim>\<open>Drop for VirtualMemory\<close>.\<close>

definition vm_drop :: "va_add \<Rightarrow> ('f mem, unit) stateful" where
  "vm_drop va = unmap va 0 (2 ^ 64 - 1)"

section \<open>System calls\<close>

definition PROT_READ :: u64 where "PROT_READ = 2 ^ 0"
definition PROT_WRITE :: u64 where "PROT_WRITE = 2 ^ 1"
definition PROT_EXEC :: u64 where "PROT_EXEC = 2 ^ 2"

definition perms_of_prot :: "u64 \<Rightarrow> u8" where
  "perms_of_prot prot =
     put_flags PERM_READ (has_flags prot PROT_READ)
       (put_flags PERM_WRITE (has_flags prot PROT_WRITE)
         (put_flags PERM_EXECUTE (has_flags prot PROT_EXEC) 0))"

definition sys_mprotect :: "va_add \<Rightarrow> nat \<Rightarrow> nat \<Rightarrow> u64 \<Rightarrow> ('f mem, nat) stateful" where
  "sys_mprotect va addr len prot = sbind (mprotect va addr len (perms_of_prot prot)) (\<lambda>_. sret 0)"

definition sys_munmap :: "va_add \<Rightarrow> nat \<Rightarrow> nat \<Rightarrow> ('f mem, nat) stateful" where
  "sys_munmap va addr len =
     sbind (slift (ensure (addr mod 0x1000 = 0) Inval (Ok ()))) (\<lambda>_.
     sbind (unmap va addr len) (\<lambda>_. sret 0))"

text \<open>\<open>vnew\<close> is \<^verbatim>\<open>VirtAddr::new\<close>, which panics on an address that is not canonical. The outcome
  of \<open>set_brk_end\<close> is ignored.\<close>

definition sys_brk :: "(nat \<Rightarrow> nat result) \<Rightarrow> va_add \<Rightarrow> nat \<Rightarrow> ('f mem, nat) stateful" where
  "sys_brk vnew va brk =
     sbind (slift (ensure (brk mod 0x1000 = 0) Inval (Ok ()))) (\<lambda>_.
     sbind (if brk \<noteq> 0
            then sbind (slift (vnew brk)) (\<lambda>b s.
                   case set_brk_end va b s of (Panic, t) \<Rightarrow> (Panic, t) | (_, t) \<Rightarrow> (Ok (), t))
            else sret ()) (\<lambda>_.
     sbind get_vm (\<lambda>v. sret (brk_end v))))"

datatype advice = DontNeed | Free

definition sys_madvise :: "va_add \<Rightarrow> nat \<Rightarrow> nat \<Rightarrow> advice \<Rightarrow> ('f mem, nat) stateful" where
  "sys_madvise va addr len advice =
     (case advice of DontNeed \<Rightarrow> sbind (discard_pages va addr len) (\<lambda>_. sret 0) | Free \<Rightarrow> sret 0)"

definition MAP_SHARED :: u64 where "MAP_SHARED = 0x1"
definition MAP_PRIVATE :: u64 where "MAP_PRIVATE = 0x2"
definition MAP_SHARED_VALIDATE :: u64 where "MAP_SHARED_VALIDATE = 0x3"
definition MAP_FIXED :: u64 where "MAP_FIXED = 0x10"
definition MAP_ANONYMOUS :: u64 where "MAP_ANONYMOUS = 0x20"

text \<open>\<open>lookup\<close> parses the descriptor and looks it up; it returns the file and the outcome of
  its \<^verbatim>\<open>stat\<close>.\<close>

definition sys_mmap ::
  "va_add \<Rightarrow> (nat \<Rightarrow> (nat \<times> unit result) result) \<Rightarrow> abi \<Rightarrow> nat \<Rightarrow> nat \<Rightarrow> u64 \<Rightarrow> u64 \<Rightarrow> nat \<Rightarrow> nat
   \<Rightarrow> ('f mem, nat) stateful" where
  "sys_mmap va lookup abi addr len prot flags fd offset =
     (let bias = (if has_flags flags MAP_FIXED then Fixed addr else Dynamic abi);
          perms = perms_of_prot prot;
          map_file = (\<lambda>sh. sbind (slift (lookup fd)) (\<lambda>(f, st). mmap_file va bias len f st offset perms sh)) in
      sbind (slift (ensure (len \<noteq> 0) Inval (Ok ()))) (\<lambda>_.
      sbind (slift (ensure (len < 2 ^ 47) NoMem (Ok ()))) (\<lambda>_.
      sbind (slift (ensure (has_flags flags MAP_ANONYMOUS \<longrightarrow> offset mod 0x1000 = 0) Inval (Ok ()))) (\<lambda>_.
      sbind (slift (ensure (case bias of Fixed a \<Rightarrow> a mod 0x1000 = 0 | Dynamic _ \<Rightarrow> True) Inval (Ok ()))) (\<lambda>_.
        if has_flags flags MAP_SHARED_VALIDATE then slift Panic
        else if has_flags flags MAP_SHARED then
          sbind (slift (rassert (\<not> has_flags flags MAP_ANONYMOUS) (Ok ()))) (\<lambda>_. map_file True)
        else if has_flags flags MAP_PRIVATE then
          (if has_flags flags MAP_ANONYMOUS then mmap_zero va bias len perms else map_file False)
        else slift (Err Inval))))))"

definition sys_mmap2 ::
  "va_add \<Rightarrow> (nat \<Rightarrow> (nat \<times> unit result) result) \<Rightarrow> abi \<Rightarrow> nat \<Rightarrow> nat \<Rightarrow> u64 \<Rightarrow> u64 \<Rightarrow> nat \<Rightarrow> nat
   \<Rightarrow> ('f mem, nat) stateful" where
  "sys_mmap2 va lookup abi addr len prot flags fd offset =
     sbind (slift (rassert (offset * 4096 < usize_bound) (Ok ()))) (\<lambda>_.
       sys_mmap va lookup abi addr len prot flags fd (offset * 4096))"

end
