(* ===== verification/Page_Buffer.thy ===== *)
theory Page_Buffer
  imports Kernel_Page
begin

text \<open>
  Byte buffers made of pages (\<^verbatim>\<open>tee/kernel/src/memory/page/buffer.rs\<close>), the contents
  of regular files. The state of an operation is the heap and the buffer. The abstract
  view of a buffer is the list of its bytes up to its length; the theorems show that
  reading, writing and truncating do to it what they do to a flat file.
\<close>

section \<open>The buffer\<close>

record buffer =
  len :: nat
  bpages :: "kernel_page list"

type_synonym bstate = "heap \<times> buffer"

definition Buffer_new :: buffer where
  "Buffer_new = \<lparr>len = 0, bpages = []\<rparr>"

definition on_heap :: "(heap, 'a) stateful \<Rightarrow> (bstate, 'a) stateful" where
  "on_heap m s = (case m (fst s) of (r, h) \<Rightarrow> (r, (h, snd s)))"

text \<open>\<^verbatim>\<open>self.pages[i]\<close>, read or updated in place.\<close>

definition page_at :: "nat \<Rightarrow> (bstate, kernel_page) stateful" where
  "page_at i s = (if i < length (bpages (snd s)) then Ok (bpages (snd s) ! i) else Panic, s)"

definition set_page :: "nat \<Rightarrow> kernel_page \<Rightarrow> (bstate, unit) stateful" where
  "set_page i p s = (Ok (), (fst s, (snd s)\<lparr>bpages := (bpages (snd s))[i := p]\<rparr>))"

definition with_page :: "nat \<Rightarrow> (kernel_page \<Rightarrow> (heap, kernel_page) stateful) \<Rightarrow> (bstate, unit) stateful" where
  "with_page i f = sbind (page_at i) (\<lambda>p. sbind (on_heap (f p)) (set_page i))"

fun sfor :: "('i \<Rightarrow> ('s, unit) stateful) \<Rightarrow> 'i list \<Rightarrow> ('s, unit) stateful" where
  "sfor f [] = sret ()"
| "sfor f (i # is) = sbind (f i) (\<lambda>_. sfor f is)"

section \<open>Operations\<close>

definition reserve :: "nat \<Rightarrow> (bstate, unit) stateful" where
  "reserve additional s =
     (if additional = 0 then (Ok (), s)
      else sbind (slift (uadd (len (snd s)) additional)) (\<lambda>total_len (h, b).
        let num_pages = div_ceil total_len PAGE; new_pages = num_pages - length (bpages b) in
        sbind (if new_pages = 0 then sret () else on_heap may_alloc) (\<lambda>_ (h, b).
          (Ok (), (h, b\<lparr>bpages := bpages b @ replicate new_pages zeroed\<rparr>))) (h, b)) s)"

text \<open>\<^verbatim>\<open>Vec::drain(n..)\<close> on the pages: panics beyond the end, drops what it removes.\<close>

definition drain :: "nat \<Rightarrow> (bstate, unit) stateful" where
  "drain n s =
     (if length (bpages (snd s)) < n then (Panic, s)
      else sbind (on_heap (sfor drop_page (drop n (bpages (snd s))))) (\<lambda>_ (h, b).
        (Ok (), (h, b\<lparr>bpages := take n (bpages b)\<rparr>))) s)"

definition reserve_zeroed :: "nat \<Rightarrow> (bstate, unit) stateful" where
  "reserve_zeroed additional s =
     (if additional = 0 then (Ok (), s)
      else let l = len (snd s) in
        sbind (if l mod PAGE \<noteq> 0 then with_page (l div PAGE) (zero_range (l mod PAGE, PAGE) True)
               else sret ()) (\<lambda>_.
        sbind (drain (div_ceil l PAGE)) (\<lambda>_. reserve additional)) s)"

text \<open>
  The part of page \<open>i\<close> that lies between the byte indices \<open>start\<close> and \<open>en\<close> (inclusive):
  where it starts in the buffer, and the first and last index within the page.
\<close>

definition copy_range :: "nat \<Rightarrow> nat \<Rightarrow> nat \<Rightarrow> (nat \<times> nat \<times> nat) result" where
  "copy_range start en i =
     (let page_start = i * PAGE; page_end = (i + 1) * PAGE - 1;
          copy_start = max page_start start; copy_end = min page_end en in
      rassert (copy_start \<le> copy_end)
        (Ok (copy_start, copy_start - page_start, copy_end - page_start)))"

definition read_page :: "nat \<Rightarrow> nat \<Rightarrow> nat \<Rightarrow> nat \<Rightarrow> bytes \<Rightarrow> (bstate, bytes) stateful" where
  "read_page offset start en i buf =
     sbind (slift (copy_range start en i)) (\<lambda>(copy_start, s, e).
     sbind (slift (index (s, e + 1))) (\<lambda>(s, n).
     sbind (page_at i) (\<lambda>p.
     sbind (on_heap (load_page (content p))) (\<lambda>bs.
       sret (overlay buf (copy_start - offset) (slice bs s n))))))"

fun read_pages :: "nat \<Rightarrow> nat \<Rightarrow> nat \<Rightarrow> nat list \<Rightarrow> bytes \<Rightarrow> (bstate, bytes) stateful" where
  "read_pages offset start en [] buf = sret buf"
| "read_pages offset start en (i # is) buf =
     sbind (read_page offset start en i buf) (read_pages offset start en is)"

text \<open>The pages \<^verbatim>\<open>enumerate().take(end_page).skip(start_page)\<close> runs over.\<close>

definition page_range :: "nat \<Rightarrow> nat \<Rightarrow> buffer \<Rightarrow> nat list" where
  "page_range start en b = [start div PAGE ..< min (div_ceil (en + 1) PAGE) (length (bpages b))]"

text \<open>\<open>read\<close> returns the number of bytes read and the caller's buffer as it is afterwards.\<close>

definition read :: "nat \<Rightarrow> bytes \<Rightarrow> (bstate, nat \<times> bytes) stateful" where
  "read offset buf s =
     (let n = min (len (snd s) - offset) (length buf) in
      if n = 0 then (Ok (0, buf), s)
      else let en = offset + n - 1 in
        sbind (read_pages offset offset en (page_range offset en (snd s)) buf)
          (\<lambda>buf'. sret (n, buf')) s)"

definition write_page :: "nat \<Rightarrow> nat \<Rightarrow> nat \<Rightarrow> bytes \<Rightarrow> nat \<Rightarrow> (bstate, unit) stateful" where
  "write_page offset start en buf i =
     sbind (slift (copy_range start en i)) (\<lambda>(copy_start, s, e).
     sbind (with_page i (make_mut True)) (\<lambda>_.
     sbind (slift (index (s, e + 1))) (\<lambda>(s, n).
     sbind (page_at i) (\<lambda>p.
       on_heap (write_slice p s (slice buf (copy_start - offset) n))))))"

definition set_len :: "nat \<Rightarrow> (bstate, unit) stateful" where
  "set_len n s = (Ok (), (fst s, (snd s)\<lparr>len := n\<rparr>))"

definition buffer_write :: "nat \<Rightarrow> bytes \<Rightarrow> (bstate, nat) stateful" where
  "buffer_write offset buf s =
     sbind (reserve_zeroed (offset - len (snd s))) (\<lambda>_.
       if buf = [] then sret 0
       else sbind (slift (uadd offset (length buf))) (\<lambda>total s.
         sbind (reserve (total - len (snd s))) (\<lambda>_ s.
           let en = total - 1 in
           sbind (sfor (write_page offset offset en buf) (page_range offset en (snd s))) (\<lambda>_ s.
           sbind (set_len (max (len (snd s)) total)) (\<lambda>_. sret (length buf)) s) s) s)) s"

definition truncate :: "nat \<Rightarrow> (bstate, unit) stateful" where
  "truncate n s = sbind (reserve_zeroed (n - len (snd s))) (\<lambda>_. set_len n) s"

definition get_page :: "nat \<Rightarrow> bool \<Rightarrow> (bstate, kernel_page) stateful" where
  "get_page i shared s =
     sbind (slift (ensure (i < length (bpages (snd s))) Acces (Ok ()))) (\<lambda>_.
     sbind (reserve_zeroed ((i + 1) * PAGE - len (snd s))) (\<lambda>_.
     sbind (if shared then with_page i (make_mut True) else sret ()) (\<lambda>_.
     sbind (page_at i) (\<lambda>p.
     sbind (on_heap (clone p)) (\<lambda>(p', q).
     sbind (set_page i p') (\<lambda>_. sret q)))))) s"

section \<open>The invariant and the abstract view\<close>

text \<open>
  \<open>M\<close> are the handles outside the buffer, for instance the pages a process has mapped.
  Within the buffer only the zero page may occur twice.
\<close>

definition nz_distinct :: "kernel_page list \<Rightarrow> bool" where
  "nz_distinct ps \<longleftrightarrow>
     (\<forall>i j. i < length ps \<longrightarrow> j < length ps \<longrightarrow> i \<noteq> j \<longrightarrow> content (ps ! i) \<noteq> 0 \<longrightarrow>
        content (ps ! i) \<noteq> content (ps ! j))"

definition buf_inv :: "bstate \<Rightarrow> kernel_page multiset \<Rightarrow> bool" where
  "buf_inv s M \<longleftrightarrow>
     kp_inv (fst s) (mset (bpages (snd s)) + M) \<and> nz_distinct (bpages (snd s)) \<and>
     len (snd s) \<le> PAGE * length (bpages (snd s))"

definition all_bytes :: "bstate \<Rightarrow> bytes" where
  "all_bytes s = concat (map (view (fst s)) (bpages (snd s)))"

definition flat :: "bstate \<Rightarrow> bytes" where
  "flat s = take (len (snd s)) (all_bytes s)"

text \<open>A handle that shows a page of the buffer sees what is written to it; the others see
  nothing.\<close>

definition shares :: "buffer \<Rightarrow> kernel_page \<Rightarrow> bool" where
  "shares b q \<longleftrightarrow> (\<exists>p \<in> set (bpages b). content p \<noteq> 0 \<and> content p = content q)"

definition unseen :: "kernel_page multiset \<Rightarrow> bstate \<Rightarrow> bstate \<Rightarrow> bool" where
  "unseen M s t \<longleftrightarrow> (\<forall>q. q \<in># M \<longrightarrow> \<not> shares (snd s) q \<longrightarrow>
     view (fst t) q = view (fst s) q \<and> \<not> shares (snd t) q)"

lemma unseen_refl [simp]: "unseen M s s"
  by (simp add: unseen_def)

lemma unseen_trans: "unseen M s t \<Longrightarrow> unseen M t u \<Longrightarrow> unseen M s u"
  unfolding unseen_def by metis

lemma buf_page_lengths: "buf_inv s M \<Longrightarrow> x \<in> set (map (view (fst s)) (bpages (snd s))) \<Longrightarrow> length x = PAGE"
  using kp_inv_page(2) [of "fst s" "mset (bpages (snd s)) + M"] by (auto simp: buf_inv_def)

lemma length_all_bytes: "buf_inv s M \<Longrightarrow> length (all_bytes s) = PAGE * length (bpages (snd s))"
  unfolding all_bytes_def using length_concat_blocks [of "map (view (fst s)) (bpages (snd s))" PAGE]
    buf_page_lengths [of s M] by simp

lemma length_flat: "buf_inv s M \<Longrightarrow> length (flat s) = len (snd s)"
  using length_all_bytes [of s M] by (simp add: flat_def buf_inv_def)

lemma nth_all_bytes:
  "buf_inv s M \<Longrightarrow> k < PAGE * length (bpages (snd s)) \<Longrightarrow>
   all_bytes s ! k = view (fst s) (bpages (snd s) ! (k div PAGE)) ! (k mod PAGE)"
  unfolding all_bytes_def
  using nth_concat_blocks [of "map (view (fst s)) (bpages (snd s))" PAGE k] buf_page_lengths [of s M]
    less_mult_imp_div_less [of k "length (bpages (snd s))" PAGE]
  by (simp add: mult.commute)

text \<open>The handles other than page \<open>i\<close>.\<close>

abbreviation rest :: "buffer \<Rightarrow> nat \<Rightarrow> kernel_page multiset \<Rightarrow> kernel_page multiset" where
  "rest b i M \<equiv> mset (bpages b) - {#bpages b ! i#} + M"

lemma rest_add: "i < length (bpages b) \<Longrightarrow> mset (bpages b) + M = add_mset (bpages b ! i) (rest b i M)"
  by (simp add: nth_mem)

lemma rest_update:
  "i < length (bpages b) \<Longrightarrow> mset ((bpages b)[i := p]) + M = add_mset p (rest b i M)"
  by (simp add: mset_update)

lemma in_rest:
  assumes "i < length (bpages b)" "j < length (bpages b)" "i \<noteq> j"
  shows "bpages b ! j \<in># rest b i M"
proof -
  let ?x = "bpages b ! j"
  let ?p = "?x\<lparr>content := Suc (content ?x)\<rparr>"
  have "(bpages b)[i := ?p] ! j = ?x" "j < length ((bpages b)[i := ?p])" using assms(2,3) by simp_all
  then have "?x \<in># add_mset ?p (mset (bpages b) - {#bpages b ! i#})"
    using mset_update [OF assms(1), of ?p] by (metis nth_mem_mset)
  moreover have "?x \<noteq> ?p" by (metis n_not_Suc_n kernel_page.select_convs(1) kernel_page.surjective
      kernel_page.update_convs(1))
  ultimately show ?thesis by auto
qed

subsection \<open>Replacing one page\<close>

lemma view_zero: "kp_inv h M \<Longrightarrow> content q = 0 \<Longrightarrow> view h q = zero_bytes"
  by (simp add: view_def kp_inv_def heap_ok_def)

lemma nz_distinctD:
  "nz_distinct ps \<Longrightarrow> i < length ps \<Longrightarrow> j < length ps \<Longrightarrow> i \<noteq> j \<Longrightarrow> content (ps ! i) \<noteq> 0 \<Longrightarrow>
   content (ps ! i) \<noteq> content (ps ! j)"
  unfolding nz_distinct_def by blast

lemma nz_distinct_update:
  assumes "nz_distinct ps" "i < length ps"
    and "\<And>j. j < length ps \<Longrightarrow> j \<noteq> i \<Longrightarrow> content p \<noteq> 0 \<Longrightarrow> content (ps ! j) \<noteq> content p"
  shows "nz_distinct (ps[i := p])"
  unfolding nz_distinct_def
proof (intro allI impI)
  fix j k assume jk: "j < length (ps[i := p])" "k < length (ps[i := p])" "j \<noteq> k" "content (ps[i := p] ! j) \<noteq> 0"
  show "content (ps[i := p] ! j) \<noteq> content (ps[i := p] ! k)"
    using jk nz_distinctD [OF assms(1), of j k] assms(3) [of j] assms(3) [of k]
    by (cases "j = i"; cases "k = i") auto
qed

text \<open>
  The effect of an operation on page \<open>i\<close> that keeps the pages of the other handles, apart
  from those that show the same page.
\<close>

lemma buf_replace_page:
  assumes inv: "buf_inv (h, b) M" and i: "i < length (bpages b)"
    and h': "kp_inv h' (add_mset p (rest b i M))"
    and oth: "\<And>q. q \<in># rest b i M \<Longrightarrow> content q \<noteq> content p \<Longrightarrow> view h' q = view h q"
    and p: "p = bpages b ! i \<or> reference_count p = None \<and> content p \<noteq> 0"
  defines "t \<equiv> (h', b\<lparr>bpages := (bpages b)[i := p]\<rparr>)"
  shows "buf_inv t M" "unseen M (h, b) t"
    "all_bytes t = concat ((map (view h) (bpages b))[i := view h' p])"
proof -
  have nz: "nz_distinct (bpages b)" using inv by (simp add: buf_inv_def)
  have kp: "kp_inv h (mset (bpages b) + M)" using inv by (simp add: buf_inv_def)
  have fresh: "content q \<noteq> content p" if "reference_count p = None" "content p \<noteq> 0" "q \<in># rest b i M" for q
    using kp_inv_unique [OF h' that(2,1)] that(3) by blast
  have other: "content (bpages b ! j) \<noteq> content p" if "j < length (bpages b)" "j \<noteq> i" "content p \<noteq> 0" for j
    using that p nz_distinctD [OF nz i that(1)] fresh [OF _ that(3) in_rest [OF i that(1)]] by fastforce
  have "nz_distinct ((bpages b)[i := p])"
    by (rule nz_distinct_update [OF nz i]) (rule other)
  with inv i h' show "buf_inv t M" by (simp add: buf_inv_def t_def rest_update)
  have vj: "view h' (bpages b ! j) = view h (bpages b ! j)" if "j < length (bpages b)" "j \<noteq> i" for j
  proof (cases "content p = content (bpages b ! j)")
    case True
    then have "content (bpages b ! j) = 0" using other [OF that] by auto
    then show ?thesis using view_zero [OF kp] view_zero [OF h'] by simp
  next
    case False
    then show ?thesis using oth in_rest [OF i that(1)] that(2) by simp
  qed
  have "map (view h') ((bpages b)[i := p]) = (map (view h) (bpages b))[i := view h' p]"
    by (rule nth_equalityI) (use vj i in \<open>auto simp: nth_list_update\<close>)
  then show "all_bytes t = concat ((map (view h) (bpages b))[i := view h' p])"
    by (simp add: all_bytes_def t_def)
  show "unseen M (h, b) t"
    unfolding unseen_def
  proof (intro allI impI conjI)
    fix q assume q: "q \<in># M" "\<not> shares (snd (h, b)) q"
    have "q \<in># rest b i M" using q(1) by (metis union_iff)
    moreover have "bpages b ! i \<in> set (bpages b)" using i by simp
    ultimately have ne: "content q \<noteq> content p" if "content p \<noteq> 0"
      using p q(2) that fresh [OF _ that] by (fastforce simp: shares_def)
    then show "view (fst t) q = view (fst (h, b)) q"
      using oth [of q] q(1) view_zero [OF kp, of q] view_zero [OF h', of q]
      by (cases "content p = 0"; cases "content q = 0") (auto simp: t_def)
    show "\<not> shares (snd t) q"
      using q(2) ne by (auto simp: shares_def t_def dest!: in_set_update)
  qed
qed

lemma with_page_eqs:
  assumes "i < length (bpages b)"
  shows "f (bpages b ! i) h = (Ok p, h') \<Longrightarrow>
      with_page i f (h, b) = (Ok (), (h', b\<lparr>bpages := (bpages b)[i := p]\<rparr>))"
    and "f (bpages b ! i) h = (Err e, h') \<Longrightarrow> with_page i f (h, b) = (Err e, (h', b))"
  using assms by (simp_all add: with_page_def sbind_def page_at_def on_heap_def set_page_def)

lemma buf_inv_oom: "buf_inv (h\<lparr>oom := fs\<rparr>, b) M \<longleftrightarrow> buf_inv (h, b) M"
  by (simp add: buf_inv_def)

lemma unseen_oom: "unseen M (h, b) (h\<lparr>oom := fs\<rparr>, b)"
  by (simp add: unseen_def)

lemma all_bytes_oom: "all_bytes (h\<lparr>oom := fs\<rparr>, b) = all_bytes (h, b)"
proof -
  have "view (h\<lparr>oom := fs\<rparr>) = view h" by (rule ext) simp
  then show ?thesis by (simp add: all_bytes_def)
qed

lemmas buf_oom = buf_inv_oom unseen_oom all_bytes_oom

lemma buf_rest:
  assumes "buf_inv (h, b) M" "i < length (bpages b)"
  shows "kp_inv h (add_mset (bpages b ! i) (rest b i M))"
  using assms(1) unfolding buf_inv_def fst_conv snd_conv rest_add [OF assms(2)] by blast

lemma make_mut_page:
  assumes inv: "buf_inv (h, b) M" and i: "i < length (bpages b)"
  obtains h' p where
    "with_page i (make_mut True) (h, b) = (Ok (), (h', b\<lparr>bpages := (bpages b)[i := p]\<rparr>))"
    "buf_inv (h', b\<lparr>bpages := (bpages b)[i := p]\<rparr>) M"
    "unseen M (h, b) (h', b\<lparr>bpages := (bpages b)[i := p]\<rparr>)"
    "all_bytes (h', b\<lparr>bpages := (bpages b)[i := p]\<rparr>) = all_bytes (h, b)" "content p \<noteq> 0"
  | fs where "with_page i (make_mut True) (h, b) = (Err NoMem, (h\<lparr>oom := fs\<rparr>, b))"
proof (rule make_mut_cases [OF buf_rest [OF inv i], of True])
  fix h' p
  assume m: "make_mut True (bpages b ! i) h = (Ok p, h')" "kp_inv h' (add_mset p (rest b i M))"
    "content p \<noteq> 0" "view h' p = view h (bpages b ! i)" "\<And>q. q \<in># rest b i M \<Longrightarrow> view h' q = view h q"
    "True \<Longrightarrow> content (bpages b ! i) \<noteq> 0 \<Longrightarrow> p = bpages b ! i \<and> h' = h"
    "\<not> True \<or> content (bpages b ! i) = 0 \<Longrightarrow> reference_count p = None"
  note rep = buf_replace_page [OF inv i m(2), of]
  have p: "p = bpages b ! i \<or> reference_count p = None \<and> content p \<noteq> 0" using m(3,6,7) by blast
  have "(map (view h) (bpages b))[i := view h' p] = map (view h) (bpages b)"
    using m(4) i by (simp add: list_update_same_conv)
  with rep [OF m(5) p] show thesis
    by (intro that(1) [OF with_page_eqs(1) [where f = "make_mut True", OF i m(1)]])
      (simp_all add: all_bytes_def m(3))
next
  fix fs assume "make_mut True (bpages b ! i) h = (Err NoMem, h\<lparr>oom := fs\<rparr>)"
  from with_page_eqs(2) [where f = "make_mut True", OF i this] show thesis by (rule that(2))
qed

lemma zero_page_tail:
  assumes inv: "buf_inv (h, b) M" and i: "i < length (bpages b)" and a: "a < PAGE"
  obtains h' where "with_page i (zero_range (a, PAGE) True) (h, b) = (Ok (), (h', b))"
    "buf_inv (h', b) M" "unseen M (h, b) (h', b)"
    "all_bytes (h', b) = overlay (all_bytes (h, b)) (i * PAGE + a) (replicate (PAGE - a) 0)"
  | fs where "with_page i (zero_range (a, PAGE) True) (h, b) = (Err NoMem, (h\<lparr>oom := fs\<rparr>, b))"
proof (rule zero_range_cases [OF buf_rest [OF inv i] order_refl, of a True])
  fix h' p
  assume z: "zero_range (a, PAGE) True (bpages b ! i) h = (Ok p, h')"
    "kp_inv h' (add_mset p (rest b i M))"
    "view h' p = (if a < PAGE then overlay (view h (bpages b ! i)) a (replicate (PAGE - a) 0)
       else view h (bpages b ! i))"
    "\<And>q. q \<in># rest b i M \<Longrightarrow> content q \<noteq> content p \<Longrightarrow> view h' q = view h q"
    "content (bpages b ! i) \<noteq> 0 \<Longrightarrow> True \<Longrightarrow> p = bpages b ! i"
    "content (bpages b ! i) = 0 \<Longrightarrow> p = bpages b ! i"
  then have p: "p = bpages b ! i" by blast
  have same: "b\<lparr>bpages := (bpages b)[i := p]\<rparr> = b" using p by simp
  have "concat ((map (view h) (bpages b))[i := view h' p]) =
      overlay (all_bytes (h, b)) (i * PAGE + a) (replicate (PAGE - a) 0)"
    using overlay_concat_blocks [of "map (view h) (bpages b)" PAGE i a "replicate (PAGE - a) 0"]
      buf_page_lengths [OF inv] i a z(3) by (simp add: all_bytes_def)
  with buf_replace_page [OF inv i z(2,4), of] p show thesis
    by (intro that(1) [of h']) (use with_page_eqs(1) [where f = "zero_range (a, PAGE) True", OF i z(1)] same in simp_all)
next
  fix fs assume "zero_range (a, PAGE) True (bpages b ! i) h = (Err NoMem, h\<lparr>oom := fs\<rparr>)"
  from with_page_eqs(2) [where f = "zero_range (a, PAGE) True", OF i this] show thesis by (rule that(2))
qed

lemma write_slice_page:
  assumes inv: "buf_inv (h, b) M" and i: "i < length (bpages b)" and nz: "content (bpages b ! i) \<noteq> 0"
    and a: "a + length src \<le> PAGE"
  obtains h' where "write_slice (bpages b ! i) a src h = (Ok (), h')"
    "buf_inv (h', b) M" "unseen M (h, b) (h', b)"
    "all_bytes (h', b) = overlay (all_bytes (h, b)) (i * PAGE + a) src"
proof -
  have mem: "bpages b ! i \<in># add_mset (bpages b ! i) (rest b i M)" by simp
  obtain h' where w: "write_slice (bpages b ! i) a src h = (Ok (), h')"
    "kp_inv h' (add_mset (bpages b ! i) (rest b i M))"
    "view h' (bpages b ! i) = overlay (view h (bpages b ! i)) a src"
    "\<And>q. content q \<noteq> content (bpages b ! i) \<Longrightarrow> view h' q = view h q"
    by (rule write_slice_spec [OF buf_rest [OF inv i] mem nz a]) blast
  note rep = buf_replace_page [OF inv i w(2) w(4) disjI1 [OF refl]]
  have "concat ((map (view h) (bpages b))[i := view h' (bpages b ! i)]) =
      overlay (all_bytes (h, b)) (i * PAGE + a) src"
    using overlay_concat_blocks [of "map (view h) (bpages b)" PAGE i a src]
      buf_page_lengths [OF inv] i a w(3) by (simp add: all_bytes_def)
  with rep w(1) show thesis by (intro that [of h']) simp_all
qed

subsection \<open>Reserving and dropping pages\<close>

lemma kp_inv_zeroes: "kp_inv h M \<Longrightarrow> kp_inv h (mset (replicate n zeroed) + M)"
  by (induction n) (simp_all add: kp_inv_zeroed)

lemma concat_replicate_zero: "concat (replicate n zero_bytes) = replicate (n * PAGE) 0"
  by (induction n) (simp_all add: zero_bytes_def replicate_add)

lemma nth_zeroes: "nz_distinct ps \<Longrightarrow> nz_distinct (ps @ replicate n zeroed)"
  unfolding nz_distinct_def by (auto simp: nth_append zeroed_def)

lemma buf_append_zeroed:
  assumes inv: "buf_inv (h, b) M"
    and t_def: "t = (h, b\<lparr>bpages := bpages b @ replicate n zeroed\<rparr>)"
  shows "buf_inv t M" "unseen M (h, b) t" "all_bytes t = all_bytes (h, b) @ replicate (n * PAGE) 0"
proof -
  have kp: "kp_inv h (mset (bpages b) + M)" using inv by (simp add: buf_inv_def)
  have "mset (bpages b @ replicate n zeroed) + M = mset (replicate n zeroed) + (mset (bpages b) + M)"
    by simp
  with kp_inv_zeroes [OF kp, of n] nth_zeroes inv show "buf_inv t M"
    by (simp add: buf_inv_def t_def ac_simps)
  show "unseen M (h, b) t" by (auto simp: unseen_def shares_def t_def zeroed_def)
  have "view h zeroed = zero_bytes" using view_zero [OF kp, of zeroed] by (simp add: zeroed_def)
  then show "all_bytes t = all_bytes (h, b) @ replicate (n * PAGE) 0"
    by (simp add: all_bytes_def t_def concat_replicate_zero)
qed

text \<open>What \<open>reserve\<close> and \<open>reserve_zeroed\<close> have in common.\<close>

definition grown :: "kernel_page multiset \<Rightarrow> bstate \<Rightarrow> bstate \<Rightarrow> bool" where
  "grown M s t \<longleftrightarrow> buf_inv t M \<and> unseen M s t \<and> len (snd t) = len (snd s) \<and> flat t = flat s"

lemma grown_refl: "buf_inv s M \<Longrightarrow> grown M s s"
  by (simp add: grown_def)

lemma grown_trans: "grown M s t \<Longrightarrow> grown M t u \<Longrightarrow> grown M s u"
  by (auto simp: grown_def intro: unseen_trans)

lemma grown_oom: "buf_inv (h, b) M \<Longrightarrow> grown M (h, b) (h\<lparr>oom := fs\<rparr>, b)"
  by (simp add: grown_def buf_oom flat_def)

lemma flat_append: "buf_inv s M \<Longrightarrow> len (snd t) = len (snd s) \<Longrightarrow> all_bytes t = all_bytes s @ zs \<Longrightarrow> flat t = flat s"
  using length_all_bytes [of s M] by (simp add: flat_def buf_inv_def)

lemma reserve_cases:
  assumes inv: "buf_inv (h, b) M" and bound: "0 < additional \<Longrightarrow> len b + additional < usize_bound"
  obtains t n where "reserve additional (h, b) = (Ok (), t)" "grown M (h, b) t"
    "all_bytes t = all_bytes (h, b) @ replicate n 0"
    "0 < additional \<Longrightarrow> len b + additional \<le> PAGE * length (bpages (snd t))"
    "length (bpages b) \<le> length (bpages (snd t))"
  | fs where "reserve additional (h, b) = (Err NoMem, (h\<lparr>oom := fs\<rparr>, b))"
proof -
  note ok = that(1) and err = that(2)
  define n where "n = div_ceil (len b + additional) PAGE - length (bpages b)"
  let ?b = "b\<lparr>bpages := bpages b @ replicate n zeroed\<rparr>"
  have cap: "len b + additional \<le> PAGE * length (bpages ?b)"
  proof -
    have "div_ceil (len b + additional) PAGE \<le> length (bpages ?b)" by (simp add: n_def)
    then show ?thesis
      using div_ceil_le_iff [of PAGE "len b + additional" "length (bpages ?b)"] by (simp add: mult.commute)
  qed
  have done_: thesis if "additional \<noteq> 0" "reserve additional (h, b) = (Ok (), (h\<lparr>oom := fs\<rparr>, ?b))" for fs
  proof -
    have inv': "buf_inv (h\<lparr>oom := fs\<rparr>, b) M" using inv by (simp add: buf_oom)
    note app = buf_append_zeroed [OF inv' refl, of n]
    have "all_bytes (h\<lparr>oom := fs\<rparr>, ?b) = all_bytes (h, b) @ replicate (n * PAGE) 0"
      using app(3) by (simp add: all_bytes_oom)
    moreover from this have "flat (h\<lparr>oom := fs\<rparr>, ?b) = flat (h, b)"
      by (intro flat_append [OF inv]) simp_all
    moreover have "unseen M (h, b) (h\<lparr>oom := fs\<rparr>, ?b)"
      by (rule unseen_trans [OF unseen_oom app(2)])
    ultimately show thesis
      by (intro ok [OF that(2)]) (use app(1) cap in \<open>auto simp: grown_def\<close>)
  qed
  have res: "reserve additional (h, b) = sbind (if n = 0 then sret () else on_heap may_alloc) (\<lambda>_ (h, b).
      (Ok (), (h, b\<lparr>bpages := bpages b @ replicate n zeroed\<rparr>))) (h, b)" if "additional \<noteq> 0"
    using that bound by (simp add: reserve_def sbind_def uadd_def n_def Let_def)
  show thesis
  proof (cases "additional = 0")
    case True
    then have "reserve additional (h, b) = (Ok (), (h, b))" by (simp add: reserve_def)
    then show thesis by (rule ok [of _ 0]) (use True grown_refl [OF inv] in auto)
  next
    case nz: False
    show thesis
    proof (cases "n = 0")
      case True
      have "h\<lparr>oom := oom h\<rparr> = h" by simp
      with done_ [OF nz, of "oom h"] res [OF nz] True show thesis by (simp add: sbind_def)
    next
      case False
      show thesis
      proof (rule may_alloc_cases [of h])
        fix fs assume "may_alloc h = (Ok (), h\<lparr>oom := fs\<rparr>)"
        with done_ [OF nz, of fs] res [OF nz] False show thesis by (simp add: sbind_def on_heap_def)
      next
        fix fs assume "may_alloc h = (Err NoMem, h\<lparr>oom := fs\<rparr>)"
        with err [of fs] res [OF nz] False show thesis by (simp add: sbind_def on_heap_def)
      qed
    qed
  qed
qed

lemma drop_pages:
  "kp_inv h (mset ps + M) \<Longrightarrow>
   \<exists>h'. sfor drop_page ps h = (Ok (), h') \<and> kp_inv h' M \<and> (\<forall>q. q \<in># M \<longrightarrow> view h' q = view h q)"
proof (induction ps arbitrary: h)
  case (Cons p ps)
  from Cons.prems have "kp_inv h (add_mset p (mset ps + M))" by simp
  from drop_page_spec [OF this] obtain h1 where h1: "drop_page p h = (Ok (), h1)"
    "kp_inv h1 (mset ps + M)" "\<forall>q. q \<in># mset ps + M \<longrightarrow> view h1 q = view h q" by blast
  from Cons.IH [OF h1(2)] obtain h' where "sfor drop_page ps h1 = (Ok (), h')" "kp_inv h' M"
    "\<forall>q. q \<in># M \<longrightarrow> view h' q = view h1 q" by blast
  with h1 show ?case by (auto simp: sbind_def)
qed simp

lemma take_concat_blocks:
  "(\<And>x. x \<in> set xss \<Longrightarrow> length x = k) \<Longrightarrow> take (k * n) (concat xss) = concat (take n xss)"
proof (induction xss arbitrary: n)
  case (Cons x xss)
  then show ?case by (cases n) simp_all
qed simp

lemma drain_spec:
  assumes inv: "buf_inv (h, b) M" and n: "len b \<le> PAGE * n" "n \<le> length (bpages b)"
  obtains h' where "drain n (h, b) = (Ok (), (h', b\<lparr>bpages := take n (bpages b)\<rparr>))"
    "grown M (h, b) (h', b\<lparr>bpages := take n (bpages b)\<rparr>)"
    "all_bytes (h', b\<lparr>bpages := take n (bpages b)\<rparr>) = take (PAGE * n) (all_bytes (h, b))"
proof -
  let ?b = "b\<lparr>bpages := take n (bpages b)\<rparr>"
  have kp: "kp_inv h (mset (drop n (bpages b)) + (mset (take n (bpages b)) + M))"
    using inv by (simp add: buf_inv_def flip: add.assoc mset_append append_take_drop_id)
      (metis append_take_drop_id mset_append union_commute)
  from drop_pages [OF this] obtain h' where h': "sfor drop_page (drop n (bpages b)) h = (Ok (), h')"
    "kp_inv h' (mset (take n (bpages b)) + M)"
    "\<forall>q. q \<in># mset (take n (bpages b)) + M \<longrightarrow> view h' q = view h q" by blast
  have d: "drain n (h, b) = (Ok (), (h', ?b))"
    using h'(1) n by (simp add: drain_def sbind_def on_heap_def)
  have nz: "nz_distinct (take n (bpages b))" using inv by (auto simp: buf_inv_def nz_distinct_def)
  have inv': "buf_inv (h', ?b) M" using h'(2) nz n by (simp add: buf_inv_def)
  have un: "unseen M (h, b) (h', ?b)"
    using h'(3) by (fastforce simp: unseen_def shares_def dest: in_set_takeD)
  have "map (view h') (take n (bpages b)) = take n (map (view h) (bpages b))"
    using h'(3) by (simp add: take_map)
  then have ab: "all_bytes (h', ?b) = take (PAGE * n) (all_bytes (h, b))"
    using take_concat_blocks [of "map (view h) (bpages b)" PAGE n] buf_page_lengths [OF inv]
    by (simp add: all_bytes_def)
  then have "flat (h', ?b) = flat (h, b)" using n by (simp add: flat_def min_def)
  with d inv' un ab show thesis by (intro that) (auto simp: grown_def)
qed

lemma div_ceil_pad:
  assumes "0 < b" "a mod b \<noteq> 0"
  shows "b * div_ceil a b = a + (b - a mod b)"
proof -
  define q where "q = b * (a div b)"
  define m where "m = a mod b"
  have "a = q + m" by (simp add: q_def m_def)
  moreover have "m < b" "m \<noteq> 0" using assms by (auto simp: m_def)
  moreover have "b * div_ceil a b = q + b" using assms by (simp add: div_ceil_def q_def)
  ultimately show ?thesis unfolding m_def [symmetric] by linarith
qed

text \<open>After \<open>reserve_zeroed\<close> everything behind the end of the file is zero.\<close>

lemma reserve_zeroed_cases:
  assumes inv: "buf_inv (h, b) M" and bound: "0 < additional \<Longrightarrow> len b + additional < usize_bound"
  obtains t where "reserve_zeroed additional (h, b) = (Ok (), t)" "grown M (h, b) t"
    "0 < additional \<Longrightarrow> len b + additional \<le> PAGE * length (bpages (snd t))"
    "0 < additional \<Longrightarrow> \<exists>n. all_bytes t = flat (h, b) @ replicate n 0"
    "additional = 0 \<Longrightarrow> t = (h, b)"
  | t where "reserve_zeroed additional (h, b) = (Err NoMem, t)" "grown M (h, b) t"
proof -
  note ok = that(1) and err = that(2)
  let ?l = "len b" and ?i = "len b div PAGE" and ?a = "len b mod PAGE" and ?n = "div_ceil (len b) PAGE"
  have cap: "?l \<le> PAGE * length (bpages b)" using inv by (simp add: buf_inv_def)
  have n: "?l \<le> PAGE * ?n" "?n \<le> length (bpages b)"
    using div_ceil_mult_ge [of PAGE ?l] div_ceil_le_iff [of PAGE ?l "length (bpages b)"] cap
    by (simp_all add: mult.commute)
  have rest: thesis if nz: "additional \<noteq> 0" and h1: "buf_inv (h1, b) M" "unseen M (h, b) (h1, b)"
    and z: "\<exists>k. take (PAGE * ?n) (all_bytes (h1, b)) = flat (h, b) @ replicate k 0"
    and res: "reserve_zeroed additional (h, b) =
      sbind (drain ?n) (\<lambda>_. reserve additional) (h1, b)" for h1
  proof -
    obtain h2 where d: "drain ?n (h1, b) = (Ok (), (h2, b\<lparr>bpages := take ?n (bpages b)\<rparr>))"
      "grown M (h1, b) (h2, b\<lparr>bpages := take ?n (bpages b)\<rparr>)"
      "all_bytes (h2, b\<lparr>bpages := take ?n (bpages b)\<rparr>) = take (PAGE * ?n) (all_bytes (h1, b))"
      by (rule drain_spec [OF h1(1) n])
    let ?b = "b\<lparr>bpages := take ?n (bpages b)\<rparr>"
    from z obtain k where k: "all_bytes (h2, ?b) = flat (h, b) @ replicate k 0" using d(3) by auto
    have f1: "flat (h1, b) = flat (h, b)"
      using k d(2,3) length_flat [OF inv] by (simp add: grown_def flat_def)
    have g: "grown M (h, b) (h2, ?b)" using d(2) h1 f1 by (auto simp: grown_def intro: unseen_trans)
    have inv2: "buf_inv (h2, ?b) M" using g by (simp add: grown_def)
    have b2: "0 < additional \<Longrightarrow> len ?b + additional < usize_bound" using bound by simp
    show thesis
    proof (rule reserve_cases [OF inv2 b2])
      fix t m
      assume r: "reserve additional (h2, ?b) = (Ok (), t)" "grown M (h2, ?b) t"
        "all_bytes t = all_bytes (h2, ?b) @ replicate m 0"
        "0 < additional \<Longrightarrow> len ?b + additional \<le> PAGE * length (bpages (snd t))"
      have "\<exists>n. all_bytes t = flat (h, b) @ replicate n 0"
        by (rule exI [of _ "k + m"]) (use r(3) k in \<open>simp add: replicate_add\<close>)
      moreover have "reserve_zeroed additional (h, b) = (Ok (), t)"
        using r(1) d(1) res by (simp add: sbind_def)
      ultimately show thesis
        using ok [of t] grown_trans [OF g r(2)] r(4) nz by simp
    next
      fix fs assume "reserve additional (h2, ?b) = (Err NoMem, (h2\<lparr>oom := fs\<rparr>, ?b))"
      with d(1) res grown_trans [OF g grown_oom [OF inv2, of fs]] show thesis
        by (intro err [of "(h2\<lparr>oom := fs\<rparr>, ?b)"]) (auto simp: sbind_def)
    qed
  qed
  show thesis
  proof (cases "additional = 0")
    case True
    then show thesis using grown_refl [OF inv] by (intro ok [of "(h, b)"]) (auto simp: reserve_zeroed_def)
  next
    case nz: False
    show thesis
    proof (cases "?a = 0")
      case True
      then have "PAGE * ?n = ?l" by (auto simp: div_ceil_def)
      then show thesis
        using True nz by (intro rest [OF nz inv unseen_refl])
          (auto simp: flat_def reserve_zeroed_def sbind_def Let_def intro: exI [of _ 0])
    next
      case False
      have "?i < length (bpages b)" using cap False by (simp add: div_less_iff_less_mult le_less)
          (metis False mod_mult_self1_is_0 less_mult_imp_div_less mult.commute nat_less_le)
      moreover have "?a < PAGE" by simp
      ultimately show thesis
      proof (rule zero_page_tail [OF inv])
        fix h1
        assume w: "with_page ?i (zero_range (?a, PAGE) True) (h, b) = (Ok (), (h1, b))"
          "buf_inv (h1, b) M" "unseen M (h, b) (h1, b)"
          "all_bytes (h1, b) = overlay (all_bytes (h, b)) (?i * PAGE + ?a) (replicate (PAGE - ?a) 0)"
        have "PAGE * ?n = ?l + (PAGE - ?a)"
          using False by (intro div_ceil_pad) simp_all
        moreover have "?i * PAGE + ?a = ?l" by (rule div_mult_mod_eq)
        ultimately have "take (PAGE * ?n) (all_bytes (h1, b)) = flat (h, b) @ replicate (PAGE - ?a) 0"
          using w(4) length_all_bytes [OF inv] n by (simp add: overlay_def flat_def)
        moreover have "reserve_zeroed additional (h, b) = sbind (drain ?n) (\<lambda>_. reserve additional) (h1, b)"
          using nz False w(1) by (simp add: reserve_zeroed_def sbind_def Let_def)
        ultimately show thesis using rest [OF nz w(2,3)] by blast
      next
        fix fs assume "with_page ?i (zero_range (?a, PAGE) True) (h, b) = (Err NoMem, (h\<lparr>oom := fs\<rparr>, b))"
        with nz False grown_oom [OF inv, of fs] show thesis
          by (intro err [of "(h\<lparr>oom := fs\<rparr>, b)"]) (auto simp: reserve_zeroed_def sbind_def Let_def)
      qed
    qed
  qed
qed

subsection \<open>The copy loops\<close>

lemma copy_range_Ok:
  assumes "i * PAGE \<le> en" "start < (i + 1) * PAGE" "start \<le> en"
  shows "copy_range start en i =
    Ok (max (i * PAGE) start, max (i * PAGE) start - i * PAGE, min ((i + 1) * PAGE - 1) en - i * PAGE)"
  using assms by (auto simp: copy_range_def Let_def)

lemma copy_range_mem:
  "max (i * PAGE) start \<le> k \<and> k \<le> min ((i + 1) * PAGE - 1) en \<longleftrightarrow> start \<le> k \<and> k \<le> en \<and> k div PAGE = i"
proof -
  have "k div PAGE = i \<longleftrightarrow> i * PAGE \<le> k \<and> k \<le> (i + 1) * PAGE - 1"
    by (auto simp: div_nat_eqI)
  then show ?thesis by auto
qed

text \<open>\<open>P\<close> are the pages written so far.\<close>

definition wrote ::
  "kernel_page multiset \<Rightarrow> nat \<Rightarrow> nat \<Rightarrow> bytes \<Rightarrow> nat set \<Rightarrow> bstate \<Rightarrow> bstate \<Rightarrow> bool" where
  "wrote M offset en buf P s t \<longleftrightarrow>
     buf_inv t M \<and> unseen M s t \<and> len (snd t) = len (snd s) \<and>
     length (bpages (snd t)) = length (bpages (snd s)) \<and>
     (\<forall>k < PAGE * length (bpages (snd s)). all_bytes t ! k =
        (if offset \<le> k \<and> k \<le> en \<and> k div PAGE \<in> P then buf ! (k - offset) else all_bytes s ! k))"

lemma wrote_refl: "buf_inv s M \<Longrightarrow> wrote M offset en buf {} s s"
  by (simp add: wrote_def)

lemma wrote_trans: "wrote M offset en buf P s t \<Longrightarrow> wrote M offset en buf Q t u \<Longrightarrow> wrote M offset en buf (P \<union> Q) s u"
  unfolding wrote_def by (auto intro: unseen_trans)

lemma write_page_cases:
  assumes inv: "buf_inv (h, b) M" and i: "i < length (bpages b)"
    and en: "offset \<le> en" "en + 1 = offset + length buf" and r: "i * PAGE \<le> en" "offset < (i + 1) * PAGE"
  obtains t where "write_page offset offset en buf i (h, b) = (Ok (), t)" "wrote M offset en buf {i} (h, b) t"
  | t where "write_page offset offset en buf i (h, b) = (Err NoMem, t)" "wrote M offset en buf {} (h, b) t"
proof -
  note ok = that(1) and err = that(2)
  define cs where "cs = max (i * PAGE) offset"
  define ce where "ce = min ((i + 1) * PAGE - 1) en"
  define src where "src = slice buf (cs - offset) (ce - i * PAGE + 1 - (cs - i * PAGE))"
  have le: "i * PAGE \<le> cs" "cs \<le> ce" "ce \<le> en" "offset \<le> cs" "ce \<le> i * PAGE + PAGE - 1"
    using r en(1) by (auto simp: cs_def ce_def)
  have rng: "copy_range offset en i = Ok (cs, cs - i * PAGE, ce - i * PAGE)"
    using copy_range_Ok [OF r en(1)] by (simp add: cs_def ce_def)
  have len_src: "length src = ce - cs + 1"
    using le en(2) by (simp add: src_def slice_def)
  have src_nth: "src ! j = buf ! (cs - offset + j)" if "j < length src" for j
    using that le en(2) by (simp add: src_def slice_def)
  have idx: "index (cs - i * PAGE, ce - i * PAGE + 1) =
      Ok (cs - i * PAGE, ce - i * PAGE + 1 - (cs - i * PAGE))"
  proof -
    have "ce - i * PAGE + 1 \<le> PAGE" "cs - i * PAGE \<le> PAGE" using le by linarith+
    then show ?thesis by (simp add: index_def)
  qed
  show thesis
  proof (rule make_mut_page [OF inv i])
    fix h1 p
    let ?b = "b\<lparr>bpages := (bpages b)[i := p]\<rparr>"
    assume m: "with_page i (make_mut True) (h, b) = (Ok (), (h1, ?b))" "buf_inv (h1, ?b) M"
      "unseen M (h, b) (h1, ?b)" "all_bytes (h1, ?b) = all_bytes (h, b)" "content p \<noteq> 0"
    have ib: "i < length (bpages ?b)" "bpages ?b ! i = p" using i by simp_all
    have a: "cs - i * PAGE + length src \<le> PAGE" using le len_src by simp
    obtain h2 where w: "write_slice p (cs - i * PAGE) src h1 = (Ok (), h2)" "buf_inv (h2, ?b) M"
      "unseen M (h1, ?b) (h2, ?b)" "all_bytes (h2, ?b) = overlay (all_bytes (h, b)) cs src"
      using write_slice_page [OF m(2) ib(1) _ a] ib(2) m(4,5) le(1) by (metis le_add_diff_inverse)
    have eq: "write_page offset offset en buf i (h, b) = (Ok (), (h2, ?b))"
      using rng idx m(1) w(1) ib i by (simp add: write_page_def sbind_def page_at_def on_heap_def src_def)
    have "all_bytes (h2, ?b) ! k = (if offset \<le> k \<and> k \<le> en \<and> k div PAGE = i then buf ! (k - offset)
        else all_bytes (h, b) ! k)" if k: "k < PAGE * length (bpages b)" for k
    proof -
      have "ce < PAGE * length (bpages b)" using i le(2,3,5) by simp
      then have "cs + length src \<le> length (all_bytes (h, b))"
        using len_src le(2) length_all_bytes [OF inv] by simp
      then have "all_bytes (h2, ?b) ! k = (if cs \<le> k \<and> k \<le> ce then src ! (k - cs) else all_bytes (h, b) ! k)"
        using w(4) k length_all_bytes [OF inv] len_src le(2) by (auto simp: nth_overlay)
      moreover have "src ! (k - cs) = buf ! (k - offset)" if "cs \<le> k" "k \<le> ce"
        using src_nth [of "k - cs"] that len_src le by simp
      moreover have "cs \<le> k \<and> k \<le> ce \<longleftrightarrow> offset \<le> k \<and> k \<le> en \<and> k div PAGE = i"
        unfolding cs_def ce_def by (rule copy_range_mem)
      ultimately show ?thesis by metis
    qed
    then have "wrote M offset en buf {i} (h, b) (h2, ?b)"
      using w(2) unseen_trans [OF m(3) w(3)] by (simp add: wrote_def)
    with eq show thesis by (rule ok)
  next
    fix fs assume "with_page i (make_mut True) (h, b) = (Err NoMem, (h\<lparr>oom := fs\<rparr>, b))"
    with rng have "write_page offset offset en buf i (h, b) = (Err NoMem, (h\<lparr>oom := fs\<rparr>, b))"
      by (simp add: write_page_def sbind_def)
    then show thesis by (rule err) (use inv in \<open>simp add: wrote_def buf_oom\<close>)
  qed
qed

lemma write_pages_cases:
  assumes "buf_inv s M" "\<And>i. i \<in> set is \<Longrightarrow> i < length (bpages (snd s)) \<and> i * PAGE \<le> en \<and> offset < (i + 1) * PAGE"
    and en: "offset \<le> en" "en + 1 = offset + length buf"
  shows "\<exists>P t. P \<subseteq> set is \<and> wrote M offset en buf P s t \<and>
    (sfor (write_page offset offset en buf) is s = (Ok (), t) \<and> P = set is \<or>
     sfor (write_page offset offset en buf) is s = (Err NoMem, t))"
  using assms(1,2)
proof (induction "is" arbitrary: s)
  case Nil
  then show ?case by (intro exI [of _ "{}"] exI [of _ s]) (simp add: wrote_refl)
next
  case (Cons i "is")
  obtain h b where s: "s = (h, b)" by (cases s)
  have i: "i < length (bpages b)" "i * PAGE \<le> en" "offset < (i + 1) * PAGE" using Cons.prems(2) s by auto
  have inv: "buf_inv (h, b) M" using Cons.prems(1) s by simp
  show ?case
  proof (rule write_page_cases [OF inv i(1) en i(2,3)])
    fix t assume w: "write_page offset offset en buf i (h, b) = (Ok (), t)" "wrote M offset en buf {i} (h, b) t"
    have "buf_inv t M" "length (bpages (snd t)) = length (bpages b)" using w(2) by (simp_all add: wrote_def)
    with Cons.IH [of t] Cons.prems(2) s obtain P u where P: "P \<subseteq> set is" "wrote M offset en buf P t u"
      "sfor (write_page offset offset en buf) is t = (Ok (), u) \<and> P = set is \<or>
       sfor (write_page offset offset en buf) is t = (Err NoMem, u)" by auto
    from wrote_trans [OF w(2) P(2)] P w(1) s show ?thesis
      by (intro exI [of _ "{i} \<union> P"] exI [of _ u]) (auto simp: sbind_def)
  next
    fix t assume "write_page offset offset en buf i (h, b) = (Err NoMem, t)" "wrote M offset en buf {} (h, b) t"
    with s show ?thesis by (intro exI [of _ "{}"] exI [of _ t]) (auto simp: sbind_def)
  qed
qed

lemma page_range_spec:
  assumes "offset \<le> en" "en < PAGE * length (bpages b)"
  shows "i \<in> set (page_range offset en b) \<longleftrightarrow> i * PAGE \<le> en \<and> offset < (i + 1) * PAGE"
    and "i \<in> set (page_range offset en b) \<Longrightarrow> i < length (bpages b)"
    and "offset \<le> k \<Longrightarrow> k \<le> en \<Longrightarrow> k div PAGE \<in> set (page_range offset en b)"
proof -
  have "div_ceil (en + 1) PAGE \<le> length (bpages b)"
    using div_ceil_le_iff [of PAGE "en + 1" "length (bpages b)"] assms(2) by (simp add: mult.commute)
  then have rng: "set (page_range offset en b) = {offset div PAGE ..< div_ceil (en + 1) PAGE}"
    by (simp add: page_range_def min_def)
  have hi: "i < div_ceil (en + 1) PAGE \<longleftrightarrow> i * PAGE \<le> en" for i
    using div_ceil_le_iff [of PAGE "en + 1" i] by linarith
  have lo: "offset div PAGE \<le> i \<longleftrightarrow> offset < (i + 1) * PAGE" for i
    using div_less_iff_less_mult [of PAGE offset "i + 1"] by auto
  show mem: "i \<in> set (page_range offset en b) \<longleftrightarrow> i * PAGE \<le> en \<and> offset < (i + 1) * PAGE" for i
    unfolding rng using hi lo by auto
  show "i \<in> set (page_range offset en b) \<Longrightarrow> i < length (bpages b)"
    by (simp add: page_range_def)
  assume k: "offset \<le> k" "k \<le> en"
  have "k div PAGE * PAGE \<le> k" "k < (k div PAGE + 1) * PAGE"
    using div_mult_mod_eq [of k PAGE] mod_less_divisor [of PAGE k] by simp_all
  with k show "k div PAGE \<in> set (page_range offset en b)" unfolding mem by linarith
qed

lemma read_page_spec:
  assumes inv: "buf_inv s M" and i: "i < length (bpages (snd s))"
    and en: "offset \<le> en" "en < offset + length buf" and r: "i * PAGE \<le> en" "offset < (i + 1) * PAGE"
  shows "\<exists>buf'. read_page offset offset en i buf s = (Ok buf', s) \<and> length buf' = length buf \<and>
    (\<forall>j < length buf. buf' ! j = (if offset + j \<le> en \<and> (offset + j) div PAGE = i
       then all_bytes s ! (offset + j) else buf ! j))"
proof -
  define cs where "cs = max (i * PAGE) offset"
  define ce where "ce = min ((i + 1) * PAGE - 1) en"
  let ?p = "bpages (snd s) ! i"
  define src where "src = slice (view (fst s) ?p) (cs - i * PAGE) (ce - i * PAGE + 1 - (cs - i * PAGE))"
  have le: "i * PAGE \<le> cs" "cs \<le> ce" "ce \<le> en" "offset \<le> cs" "ce \<le> i * PAGE + PAGE - 1"
    using r en(1) by (auto simp: cs_def ce_def)
  have rng: "copy_range offset en i = Ok (cs, cs - i * PAGE, ce - i * PAGE)"
    using copy_range_Ok [OF r en(1)] by (simp add: cs_def ce_def)
  have bnd: "ce - i * PAGE + 1 \<le> PAGE" "cs - i * PAGE \<le> PAGE" using le by linarith+
  have pg: "pages (fst s) (content ?p) = Some (view (fst s) ?p)" "length (view (fst s) ?p) = PAGE"
    using kp_inv_page [of "fst s" "mset (bpages (snd s)) + M" ?p] inv i by (simp_all add: buf_inv_def)
  have len_src: "length src = ce - cs + 1" using le bnd pg(2) by (simp add: src_def slice_def)
  have src_nth: "src ! (k - cs) = all_bytes s ! k" if "cs \<le> k" "k \<le> ce" for k
  proof -
    have "k div PAGE = i" using copy_range_mem [of i offset k en] that by (simp add: cs_def ce_def)
    moreover from this have "k mod PAGE = k - i * PAGE"
      using div_mult_mod_eq [of k PAGE] by linarith
    moreover have "k < PAGE * length (bpages (snd s))" using i that le by simp
    ultimately show ?thesis
      using that le len_src nth_all_bytes [OF inv, of k] pg(2) by (simp add: src_def slice_def)
  qed
  have eq: "read_page offset offset en i buf s = (Ok (overlay buf (cs - offset) src), s)"
    using rng bnd pg(1) i
    by (simp add: read_page_def sbind_def index_def page_at_def on_heap_def load_page_def src_def)
  have bound: "cs - offset + length src \<le> length buf" using len_src le en by simp
  have "overlay buf (cs - offset) src ! j = (if offset + j \<le> en \<and> (offset + j) div PAGE = i
      then all_bytes s ! (offset + j) else buf ! j)" if j: "j < length buf" for j
  proof -
    have "overlay buf (cs - offset) src ! j =
        (if cs \<le> offset + j \<and> offset + j \<le> ce then src ! (offset + j - cs) else buf ! j)"
      using nth_overlay [OF bound j] len_src le by (auto simp: add.commute)
    moreover have "cs \<le> offset + j \<and> offset + j \<le> ce \<longleftrightarrow> offset + j \<le> en \<and> (offset + j) div PAGE = i"
      using copy_range_mem [of i offset "offset + j" en] by (simp add: cs_def ce_def)
    ultimately show ?thesis using src_nth [of "offset + j"] by metis
  qed
  with eq bound show ?thesis by simp
qed

lemma read_pages_spec:
  assumes inv: "buf_inv s M" and en: "offset \<le> en" "en < offset + length buf"
    and "\<And>i. i \<in> set is \<Longrightarrow> i < length (bpages (snd s)) \<and> i * PAGE \<le> en \<and> offset < (i + 1) * PAGE"
  shows "\<exists>buf'. read_pages offset offset en is buf s = (Ok buf', s) \<and> length buf' = length buf \<and>
    (\<forall>j < length buf. buf' ! j = (if offset + j \<le> en \<and> (offset + j) div PAGE \<in> set is
       then all_bytes s ! (offset + j) else buf ! j))"
  using assms(3,4)
proof (induction "is" arbitrary: buf)
  case (Cons i "is")
  from read_page_spec [OF inv _ en(1) Cons.prems(1), of i] Cons.prems(2) obtain buf1 where
    b1: "read_page offset offset en i buf s = (Ok buf1, s)" "length buf1 = length buf"
    "\<forall>j < length buf. buf1 ! j = (if offset + j \<le> en \<and> (offset + j) div PAGE = i
       then all_bytes s ! (offset + j) else buf ! j)" by auto
  from Cons.IH [of buf1] Cons.prems b1(2) obtain buf2 where
    "read_pages offset offset en is buf1 s = (Ok buf2, s)" "length buf2 = length buf"
    "\<forall>j < length buf. buf2 ! j = (if offset + j \<le> en \<and> (offset + j) div PAGE \<in> set is
       then all_bytes s ! (offset + j) else buf1 ! j)" by auto
  with b1 show ?case by (auto simp: sbind_def)
qed simp

section \<open>Flat files\<close>

text \<open>The abstract operations on the bytes of a file.\<close>

definition flat_read :: "nat \<Rightarrow> nat \<Rightarrow> bytes \<Rightarrow> bytes" where
  "flat_read offset n f = take n (drop offset f)"

definition flat_truncate :: "nat \<Rightarrow> bytes \<Rightarrow> bytes" where
  "flat_truncate n f = take n f @ replicate (n - length f) 0"

definition flat_write :: "nat \<Rightarrow> bytes \<Rightarrow> bytes \<Rightarrow> bytes" where
  "flat_write offset bs f =
     (if bs = [] then f else flat_truncate offset f @ bs @ drop (offset + length bs) f)"

lemma nth_flat_write:
  assumes "bs \<noteq> []" "k < max (length f) (offset + length bs)"
  shows "flat_write offset bs f ! k =
    (if offset \<le> k \<and> k < offset + length bs then bs ! (k - offset)
     else if k < length f then f ! k else 0)"
proof -
  have len: "length (flat_truncate offset f) = offset" by (simp add: flat_truncate_def)
  show ?thesis
  proof (cases "k < offset")
    case True
    then show ?thesis using assms len by (simp add: flat_write_def nth_append)
        (simp add: flat_truncate_def nth_append)
  next
    case False
    then show ?thesis using assms len by (auto simp: flat_write_def nth_append)
  qed
qed

lemma length_flat_write: "bs \<noteq> [] \<Longrightarrow> length (flat_write offset bs f) = max (length f) (offset + length bs)"
  by (auto simp: flat_write_def flat_truncate_def)

lemma nth_flat: "buf_inv s M \<Longrightarrow> k < len (snd s) \<Longrightarrow> flat s ! k = all_bytes s ! k"
  by (simp add: flat_def)

section \<open>Properties\<close>

lemma buffer_read_spec:
  assumes "buf_inv s M"
  shows "\<exists>n. Page_Buffer.read offset buf s =
      (Ok (n, flat_read offset n (flat s) @ drop n buf), s) \<and>
    n = min (length (flat s) - offset) (length buf)"
proof -
  define n where "n = min (len (snd s) - offset) (length buf)"
  have len: "length (flat s) = len (snd s)" by (rule length_flat [OF assms])
  show ?thesis
  proof (cases "n = 0")
    case True
    then show ?thesis using len by (auto simp: Page_Buffer.read_def n_def flat_read_def Let_def)
  next
    case False
    define en where "en = offset + n - 1"
    have en: "offset \<le> en" "en < offset + length buf" "en + 1 = offset + n" "en < len (snd s)"
    proof -
      have "n \<le> len (snd s) - offset" "n \<le> length buf" "0 < n" using False by (simp_all add: n_def)
      then show "offset \<le> en" "en < offset + length buf" "en + 1 = offset + n" "en < len (snd s)"
        unfolding en_def by linarith+
    qed
    have cap: "en < PAGE * length (bpages (snd s))"
      using en(4) assms unfolding buf_inv_def by linarith
    note rng = page_range_spec [OF en(1) cap]
    obtain buf' where b: "read_pages offset offset en (page_range offset en (snd s)) buf s = (Ok buf', s)"
      "length buf' = length buf"
      "\<forall>j < length buf. buf' ! j = (if offset + j \<le> en \<and> (offset + j) div PAGE \<in> set (page_range offset en (snd s))
         then all_bytes s ! (offset + j) else buf ! j)"
      using read_pages_spec [OF assms en(1,2), of "page_range offset en (snd s)"] rng(1,2) by blast
    have "buf' = flat_read offset n (flat s) @ drop n buf"
    proof (rule nth_equalityI)
      show "length buf' = length (flat_read offset n (flat s) @ drop n buf)"
        using b(2) len by (simp add: flat_read_def n_def)
      fix j assume "j < length buf'"
      then have j: "j < length buf" using b(2) by simp
      have "buf' ! j = (if j < n then all_bytes s ! (offset + j) else buf ! j)"
        using b(3) j rng(3) [of "offset + j"] en(3) by auto
      moreover have "length (flat_read offset n (flat s)) = n" using len by (simp add: flat_read_def n_def)
      moreover have "flat_read offset n (flat s) ! j = all_bytes s ! (offset + j)" if "j < n"
        using that nth_flat [OF assms, of "offset + j"] len en by (simp add: flat_read_def)
      ultimately show "buf' ! j = (flat_read offset n (flat s) @ drop n buf) ! j"
        using j by (simp add: nth_append)
    qed
    moreover have "Page_Buffer.read offset buf s =
        sbind (read_pages offset offset en (page_range offset en (snd s)) buf) (\<lambda>buf'. sret (n, buf')) s"
      using False unfolding Page_Buffer.read_def Let_def en_def n_def [symmetric] by simp
    ultimately show ?thesis using b(1) len by (simp add: sbind_def n_def)
  qed
qed

text \<open>
  C24. Reading a buffer returns the bytes of the file: the count is what is left of the file
  after the offset, at most the size of the caller's buffer, whose first bytes are replaced
  by these bytes and whose rest is left alone; nothing else changes.
\<close>

theorem buffer_read_refines:
  assumes "buf_inv s M"
  shows "\<exists>n. Page_Buffer.read offset buf s =
      (Ok (n, flat_read offset n (flat s) @ drop n buf), s) \<and>
    n = min (length (flat s) - offset) (length buf)"
  by (rule buffer_read_spec [OF assms])

theorem buffer_read_refines_witness:
  "\<exists>n. Page_Buffer.read 5 [1, 2] (heap_new [], Buffer_new) =
      (Ok (n, flat_read 5 n (flat (heap_new [], Buffer_new)) @ drop n [1, 2]), (heap_new [], Buffer_new)) \<and>
    n = min (length (flat (heap_new [], Buffer_new)) - 5) (length [1, 2 :: u8])"
  by (rule buffer_read_refines [of _ "{#}"])
    (simp add: buf_inv_def Buffer_new_def kp_inv_new nz_distinct_def)

text \<open>The end of \<open>buffer_write\<close>, once the pages are reserved.\<close>

lemma write_reserved:
  assumes inv: "buf_inv (h, b) M" and bs: "bs \<noteq> []"
    and cap: "offset + length bs \<le> PAGE * length (bpages b)"
    and gap: "\<And>k. len b \<le> k \<Longrightarrow> k < offset \<Longrightarrow> all_bytes (h, b) ! k = 0"
  defines "en \<equiv> offset + length bs - 1"
  obtains t where "sfor (write_page offset offset en bs) (page_range offset en b) (h, b) = (Ok (), t)"
    "unseen M (h, b) t"
    "buf_inv (fst t, (snd t)\<lparr>len := max (len b) (offset + length bs)\<rparr>) M" "len (snd t) = len b"
    "flat (fst t, (snd t)\<lparr>len := max (len b) (offset + length bs)\<rparr>) = flat_write offset bs (flat (h, b))"
  | t where "sfor (write_page offset offset en bs) (page_range offset en b) (h, b) = (Err NoMem, t)"
    "unseen M (h, b) t" "buf_inv t M" "len (snd t) = len b"
    "\<And>k. k < len b \<Longrightarrow> k < offset \<or> offset + length bs \<le> k \<Longrightarrow> flat t ! k = flat (h, b) ! k"
proof -
  note ok = that(1) and err = that(2)
  have en: "offset \<le> en" "en + 1 = offset + length bs" "en < PAGE * length (bpages b)"
    using bs cap by (cases bs; simp add: en_def)+
  note rng = page_range_spec [OF en(1,3)]
  let ?is = "page_range offset en b"
  have "i \<in> set ?is \<Longrightarrow> i < length (bpages (snd (h, b))) \<and> i * PAGE \<le> en \<and> offset < (i + 1) * PAGE" for i
    using rng(1,2) by simp
  from write_pages_cases [OF inv this en(1,2)] obtain P t where P: "P \<subseteq> set ?is"
    and w: "wrote M offset en bs P (h, b) t"
    and res: "sfor (write_page offset offset en bs) ?is (h, b) = (Ok (), t) \<and> P = set ?is \<or>
      sfor (write_page offset offset en bs) ?is (h, b) = (Err NoMem, t)" by blast
  have wr: "buf_inv t M" "unseen M (h, b) t" "len (snd t) = len b" "length (bpages (snd t)) = length (bpages b)"
    "\<And>k. k < PAGE * length (bpages b) \<Longrightarrow> all_bytes t ! k =
        (if offset \<le> k \<and> k \<le> en \<and> k div PAGE \<in> P then bs ! (k - offset) else all_bytes (h, b) ! k)"
    using w by (auto simp: wrote_def)
  have cb: "len b \<le> PAGE * length (bpages b)" using inv by (simp add: buf_inv_def)
  from res show thesis
  proof
    assume r: "sfor (write_page offset offset en bs) ?is (h, b) = (Ok (), t) \<and> P = set ?is"
    let ?u = "(fst t, (snd t)\<lparr>len := max (len b) (offset + length bs)\<rparr>)"
    have inv': "buf_inv ?u M" using wr(1,4) cap cb by (simp add: buf_inv_def)
    have ab: "all_bytes ?u = all_bytes t" by (simp add: all_bytes_def)
    have "flat ?u = flat_write offset bs (flat (h, b))"
    proof (rule nth_equalityI)
      show "length (flat ?u) = length (flat_write offset bs (flat (h, b)))"
        using length_flat [OF inv'] length_flat [OF inv] bs by (simp add: length_flat_write)
      fix k assume "k < length (flat ?u)"
      then have k: "k < max (len b) (offset + length bs)" using length_flat [OF inv'] by simp
      then have kc: "k < PAGE * length (bpages b)" using cap cb by linarith
      have "flat ?u ! k = all_bytes t ! k" using nth_flat [OF inv', of k] k ab by simp
      moreover have "all_bytes t ! k = (if offset \<le> k \<and> k \<le> en then bs ! (k - offset) else all_bytes (h, b) ! k)"
        using wr(5) [OF kc] r rng(3) [of k] by auto
      moreover have "k \<le> en \<longleftrightarrow> k < offset + length bs" using en(2) by linarith
      ultimately show "flat ?u ! k = flat_write offset bs (flat (h, b)) ! k"
        using nth_flat_write [OF bs, of k "flat (h, b)" offset] k length_flat [OF inv]
          nth_flat [OF inv, of k] gap [of k] by auto
    qed
    with ok [of t] r wr inv' show thesis by blast
  next
    assume r: "sfor (write_page offset offset en bs) ?is (h, b) = (Err NoMem, t)"
    have "flat t ! k = flat (h, b) ! k" if k: "k < len b" "k < offset \<or> offset + length bs \<le> k" for k
    proof -
      have "all_bytes t ! k = all_bytes (h, b) ! k" using wr(5) [of k] k cb en(2) by auto
      then show ?thesis using nth_flat [OF wr(1), of k] nth_flat [OF inv, of k] wr(3) k(1) by simp
    qed
    with err [of t] r wr show thesis by blast
  qed
qed

lemma sbind_set_len: "sbind (set_len n) f s = f () (fst s, (snd s)\<lparr>len := n\<rparr>)"
  by (simp add: sbind_def set_len_def)

lemma write_not_empty:
  assumes "bs \<noteq> []" "offset + length bs < usize_bound"
  shows "buffer_write offset bs s =
    sbind (reserve_zeroed (offset - len (snd s))) (\<lambda>_ s.
      sbind (reserve (offset + length bs - len (snd s))) (\<lambda>_ s.
        sbind (sfor (write_page offset offset (offset + length bs - 1) bs)
            (page_range offset (offset + length bs - 1) (snd s))) (\<lambda>_ s.
          (Ok (length bs), (fst s, (snd s)\<lparr>len := max (len (snd s)) (offset + length bs)\<rparr>))) s) s) s"
proof -
  have "(uadd offset (length bs) :: nat result) = Ok (offset + length bs)"
    using assms(2) by (simp add: uadd_def)
  then show ?thesis
    using assms(1) by (simp add: buffer_write_def sbind_set_len Let_def)
qed

definition write_done :: "kernel_page multiset \<Rightarrow> nat \<Rightarrow> bytes \<Rightarrow> bstate \<Rightarrow> nat result \<Rightarrow> bstate \<Rightarrow> bool" where
  "write_done M offset bs s r t \<longleftrightarrow> buf_inv t M \<and> unseen M s t \<and>
     (r = Ok (length bs) \<and> flat t = flat_write offset bs (flat s) \<or>
      r = Err NoMem \<and> length (flat t) = length (flat s) \<and>
        (\<forall>k < length (flat s). k < offset \<or> offset + length bs \<le> k \<longrightarrow> flat t ! k = flat s ! k))"

lemma write_done_after: "grown M s u \<Longrightarrow> write_done M offset bs u r t \<Longrightarrow> write_done M offset bs s r t"
  unfolding write_done_def grown_def using unseen_trans by metis

lemma write_done_oom: "grown M s t \<Longrightarrow> write_done M offset bs s (Err NoMem) t"
  by (simp add: write_done_def grown_def)

lemma write_pages_done:
  assumes inv: "buf_inv (h, b) M" and bs: "bs \<noteq> []"
    and cap: "offset + length bs \<le> PAGE * length (bpages b)"
    and gap: "\<And>k. len b \<le> k \<Longrightarrow> k < offset \<Longrightarrow> all_bytes (h, b) ! k = 0"
  shows "\<exists>r t. sbind (sfor (write_page offset offset (offset + length bs - 1) bs)
      (page_range offset (offset + length bs - 1) b)) (\<lambda>_ s.
        (Ok (length bs), (fst s, (snd s)\<lparr>len := max (len (snd s)) (offset + length bs)\<rparr>))) (h, b) = (r, t) \<and>
    write_done M offset bs (h, b) r t"
proof (rule write_reserved [OF inv bs cap gap])
  fix t :: bstate
  let ?t = "(fst t, (snd t)\<lparr>len := max (len b) (offset + length bs)\<rparr>)"
  assume o: "sfor (write_page offset offset (offset + length bs - 1) bs)
      (page_range offset (offset + length bs - 1) b) (h, b) = (Ok (), t)"
    "unseen M (h, b) t" "buf_inv ?t M" "len (snd t) = len b"
    "flat ?t = flat_write offset bs (flat (h, b))"
  have "unseen M (h, b) ?t" using o(2) by (simp add: unseen_def shares_def)
  with o show ?thesis by (intro exI [of _ "Ok (length bs)"] exI [of _ ?t]) (simp add: sbind_def write_done_def)
next
  fix t
  assume "sfor (write_page offset offset (offset + length bs - 1) bs)
      (page_range offset (offset + length bs - 1) b) (h, b) = (Err NoMem, t)"
    "unseen M (h, b) t" "buf_inv t M" "len (snd t) = len b"
    "\<And>k. k < len b \<Longrightarrow> k < offset \<or> offset + length bs \<le> k \<Longrightarrow> flat t ! k = flat (h, b) ! k"
  then show ?thesis
    using length_flat [of t M] length_flat [OF inv]
    by (intro exI [of _ "Err NoMem"] exI [of _ t]) (auto simp: sbind_def write_done_def)
qed

lemma write_reserve_done:
  assumes inv: "buf_inv (h, b) M" and bs: "bs \<noteq> []" and bound: "offset + length bs < usize_bound"
    and zero: "len b < offset \<Longrightarrow> \<exists>n. all_bytes (h, b) = flat (h, b) @ replicate n 0"
  shows "\<exists>r t. sbind (reserve (offset + length bs - len b)) (\<lambda>_ s.
      sbind (sfor (write_page offset offset (offset + length bs - 1) bs)
          (page_range offset (offset + length bs - 1) (snd s))) (\<lambda>_ s.
        (Ok (length bs), (fst s, (snd s)\<lparr>len := max (len (snd s)) (offset + length bs)\<rparr>))) s) (h, b) = (r, t) \<and>
    write_done M offset bs (h, b) r t"
proof -
  let ?m = "offset + length bs - len b"
  have bound': "0 < ?m \<Longrightarrow> len b + ?m < usize_bound" using bound by simp
  show ?thesis
  proof (rule reserve_cases [OF inv bound'])
    fix fs assume "reserve ?m (h, b) = (Err NoMem, (h\<lparr>oom := fs\<rparr>, b))"
    then show ?thesis using write_done_oom [OF grown_oom [OF inv]] by (auto simp: sbind_def)
  next
    fix t n
    assume v: "reserve ?m (h, b) = (Ok (), t)" "grown M (h, b) t"
      "all_bytes t = all_bytes (h, b) @ replicate n 0"
      "0 < ?m \<Longrightarrow> len b + ?m \<le> PAGE * length (bpages (snd t))"
    obtain h2 b2 where t: "t = (h2, b2)" by (cases t)
    have g: "buf_inv (h2, b2) M" "len b2 = len b" using v(2) t by (simp_all add: grown_def)
    have cap: "offset + length bs \<le> PAGE * length (bpages b2)"
      using v(4) t g by (cases "0 < ?m") (auto simp: buf_inv_def)
    have gap: "all_bytes (h2, b2) ! k = 0" if k: "len b2 \<le> k" "k < offset" for k
    proof -
      obtain m where "all_bytes t = flat (h, b) @ replicate (m + n) 0"
        using zero k g(2) v(3) by (auto simp: replicate_add)
      moreover have "k < length (all_bytes t)" using length_all_bytes [OF g(1)] cap k(2) t by simp
      ultimately show ?thesis using k(1) g(2) length_flat [OF inv] t by (simp add: nth_append)
    qed
    from write_pages_done [OF g(1) bs cap gap] show ?thesis
      using v(1,2) t write_done_after by (fastforce simp: sbind_def [of "reserve _"])
  qed
qed

lemma buffer_write_done:
  assumes inv: "buf_inv (h, b) M" and bnd: "offset + length bs < usize_bound"
  shows "\<exists>r t. buffer_write offset bs (h, b) = (r, t) \<and> write_done M offset bs (h, b) r t"
proof -
  have bound: "0 < offset - len b \<Longrightarrow> len b + (offset - len b) < usize_bound" using bnd by simp
  show ?thesis
  proof (rule reserve_zeroed_cases [OF inv bound])
    fix t assume "reserve_zeroed (offset - len b) (h, b) = (Err NoMem, t)" "grown M (h, b) t"
    then show ?thesis using write_done_oom by (auto simp: buffer_write_def sbind_def)
  next
    fix t assume z: "reserve_zeroed (offset - len b) (h, b) = (Ok (), t)" "grown M (h, b) t"
      "0 < offset - len b \<Longrightarrow> \<exists>n. all_bytes t = flat (h, b) @ replicate n 0"
    obtain h1 b1 where t: "t = (h1, b1)" by (cases t)
    have g: "buf_inv (h1, b1) M" "len b1 = len b" "flat (h1, b1) = flat (h, b)"
      using z(2) t by (simp_all add: grown_def)
    show ?thesis
    proof (cases "bs = []")
      case True
      with z(1,2) show ?thesis
        by (intro exI [of _ "Ok 0"] exI [of _ t])
          (simp add: buffer_write_def sbind_def grown_def flat_write_def write_done_def)
    next
      case False
      have "len b1 < offset \<Longrightarrow> \<exists>n. all_bytes (h1, b1) = flat (h1, b1) @ replicate n 0"
        using z(3) g t by simp
      from write_reserve_done [OF g(1) False bnd this] show ?thesis
        using write_not_empty [OF False bnd, of "(h, b)"] z(1,2) t write_done_after
        by (fastforce simp: sbind_def [of "reserve_zeroed _"])
    qed
  qed
qed

text \<open>
  C25. Writing to a buffer writes to the file: on success the file is the old one with the
  bytes at the offset, a gap behind the old end filled with zeroes, and all bytes count as
  written. When memory runs out the length stays and so does every byte outside the range.
  Either way the invariant holds, and a page that is not one of the buffer's looks the same.
\<close>

theorem buffer_write_refines:
  assumes "buf_inv s M" and "offset + length bs < usize_bound"
  shows "\<exists>r t. buffer_write offset bs s = (r, t) \<and> buf_inv t M \<and> unseen M s t \<and>
    (r = Ok (length bs) \<and> flat t = flat_write offset bs (flat s) \<or>
     r = Err NoMem \<and> length (flat t) = length (flat s) \<and>
       (\<forall>k < length (flat s). k < offset \<or> offset + length bs \<le> k \<longrightarrow> flat t ! k = flat s ! k))"
  using buffer_write_done [of "fst s" "snd s" M offset bs] assms by (simp add: write_done_def)

theorem buffer_write_refines_witness:
  "\<exists>r t. buffer_write 2 [7, 9] (heap_new [], Buffer_new) = (r, t) \<and> buf_inv t {#} \<and>
    unseen {#} (heap_new [], Buffer_new) t \<and>
    (r = Ok (length [7, 9 :: u8]) \<and> flat t = flat_write 2 [7, 9] (flat (heap_new [], Buffer_new)) \<or>
     r = Err NoMem \<and> length (flat t) = length (flat (heap_new [], Buffer_new)) \<and>
       (\<forall>k < length (flat (heap_new [], Buffer_new)). k < 2 \<or> 2 + length [7, 9 :: u8] \<le> k \<longrightarrow>
         flat t ! k = flat (heap_new [], Buffer_new) ! k))"
  by (rule buffer_write_refines)
    (simp_all add: buf_inv_def Buffer_new_def kp_inv_new nz_distinct_def)

lemma buffer_truncate_spec:
  assumes "buf_inv s M" and "n < usize_bound"
  shows "\<exists>r t. truncate n s = (r, t) \<and> buf_inv t M \<and> unseen M s t \<and>
    (r = Ok () \<and> flat t = flat_truncate n (flat s) \<or> r = Err NoMem \<and> flat t = flat s)"
proof -
  obtain h b where s: "s = (h, b)" by (cases s)
  have inv: "buf_inv (h, b) M" using assms(1) s by simp
  have bound: "0 < n - len b \<Longrightarrow> len b + (n - len b) < usize_bound" using assms(2) by simp
  show ?thesis
  proof (rule reserve_zeroed_cases [OF inv bound])
    fix t assume "reserve_zeroed (n - len b) (h, b) = (Err NoMem, t)" "grown M (h, b) t"
    then show ?thesis using s by (auto simp: truncate_def sbind_def grown_def)
  next
    fix t assume z: "reserve_zeroed (n - len b) (h, b) = (Ok (), t)" "grown M (h, b) t"
      "0 < n - len b \<Longrightarrow> len b + (n - len b) \<le> PAGE * length (bpages (snd t))"
      "0 < n - len b \<Longrightarrow> \<exists>m. all_bytes t = flat (h, b) @ replicate m 0"
    let ?t = "(fst t, (snd t)\<lparr>len := n\<rparr>)"
    have g: "buf_inv t M" "unseen M s t" "len (snd t) = len b" "flat t = flat s"
      using z(2) s by (simp_all add: grown_def)
    have cap: "n \<le> PAGE * length (bpages (snd t))"
      using z(3) g(1,3) by (cases "0 < n - len b") (auto simp: buf_inv_def)
    have inv': "buf_inv ?t M" using g(1) cap by (simp add: buf_inv_def)
    have "unseen M s ?t" using g(2) by (simp add: unseen_def shares_def)
    moreover have ab: "all_bytes ?t = all_bytes t" by (simp add: all_bytes_def)
    have "flat ?t = flat_truncate n (flat s)"
    proof (cases "0 < n - len b")
      case True
      then obtain m where m: "all_bytes t = flat s @ replicate m 0" using z(4) s by blast
      then have "length (flat s) + m = PAGE * length (bpages (snd t))"
        using length_all_bytes [OF g(1)] by (metis length_append length_replicate)
      then show ?thesis using m ab cap True length_flat [OF assms(1)] s
        by (simp add: flat_def [of ?t] flat_truncate_def take_replicate)
    next
      case False
      then have "n \<le> len b" by simp
      then have "take n (all_bytes t) = take n (flat t)" using g(3) by (simp add: flat_def min_absorb1)
      then show ?thesis using False g(4) ab length_flat [OF assms(1)] s
        by (simp add: flat_def [of ?t] flat_truncate_def)
    qed
    ultimately show ?thesis using z(1) s inv' by (auto simp: truncate_def sbind_def set_len_def)
  qed
qed

text \<open>
  C26. Truncating a buffer sets the length of the file: it is cut off, or filled up with
  zeroes, whatever the pages held behind the old end. When memory runs out the file is as
  before.
\<close>

theorem buffer_truncate_refines:
  assumes "buf_inv s M" and "n < usize_bound"
  shows "\<exists>r t. truncate n s = (r, t) \<and> buf_inv t M \<and> unseen M s t \<and>
    (r = Ok () \<and> flat t = flat_truncate n (flat s) \<or> r = Err NoMem \<and> flat t = flat s)"
  by (rule buffer_truncate_spec [OF assms])

theorem buffer_truncate_refines_witness:
  "\<exists>r t. truncate 3 (heap_new [], Buffer_new) = (r, t) \<and> buf_inv t {#} \<and>
    unseen {#} (heap_new [], Buffer_new) t \<and>
    (r = Ok () \<and> flat t = flat_truncate 3 (flat (heap_new [], Buffer_new)) \<or>
     r = Err NoMem \<and> flat t = flat (heap_new [], Buffer_new))"
  by (rule buffer_truncate_refines)
    (simp_all add: buf_inv_def Buffer_new_def kp_inv_new nz_distinct_def)

end
