(* ===== verification/Address_Safety.thy ===== *)
theory Address_Safety
  imports Address_Space Page_Buffer
begin

text \<open>
  What the operations of an address space keep and do. An address space is well formed when
  its mappings do not overlap, its page tables are well formed and grant nothing that the
  mappings do not grant, and the resident set size counts the resident pages.
\<close>

section \<open>The invariant\<close>

text \<open>
  A page table entry points to the frame of the page; it is writable only when the mapping is
  and the page belongs to the mapping alone (or is shared on purpose); likewise executable.
\<close>

definition pte_ok :: "(addr \<Rightarrow> nat) \<Rightarrow> user_page \<Rightarrow> u64 \<Rightarrow> bool" where
  "pte_ok loc u v \<longleftrightarrow>
     bit v PRESENT_BIT \<and> bit v USER_BIT \<and> \<not> bit v GLOBAL_BIT \<and>
     entry_frame v = frame loc (upage u) \<and>
     (bit v WRITE_BIT \<longrightarrow> has_flags (uperms u) PERM_WRITE \<and> mutable (ushared u) (upage u)) \<and>
     (\<not> bit v DISABLE_EXECUTE_BIT \<longrightarrow> has_flags (uperms u) PERM_EXECUTE)"

definition backing_ok :: "backing \<Rightarrow> nat \<Rightarrow> bool" where
  "backing_ok b off \<longleftrightarrow> off * 4096 < usize_bound \<and> (b = TrampolineCode \<longrightarrow> off = 0)"

definition cell_ok :: "backing cell \<Rightarrow> bool" where
  "cell_ok c = (case c of (b, off, perms, sh, x) \<Rightarrow>
     backing_ok b off \<and> (\<forall>u. x = Some u \<longrightarrow> uperms u = perms \<and> ushared u = sh))"

definition cells_ok :: "backing mappings \<Rightarrow> bool" where
  "cells_ok ms \<longleftrightarrow> (\<forall>q c. cell ms q = Some c \<longrightarrow> cell_ok c)"

text \<open>The resident page at a page of the address space.\<close>

definition resident :: "'b mappings \<Rightarrow> nat \<Rightarrow> user_page option" where
  "resident ms q = (case cell ms q of None \<Rightarrow> None | Some (b, off, perms, sh, x) \<Rightarrow> x)"

definition tables_sound :: "(addr \<Rightarrow> nat) \<Rightarrow> 'b mappings \<Rightarrow> pml4 \<Rightarrow> bool" where
  "tables_sound loc ms T \<longleftrightarrow>
     (\<forall>q \<le> LAST_USER_PAGE. pml4_view T q \<noteq> 0 \<longrightarrow> (\<exists>u. resident ms q = Some u \<and> pte_ok loc u (pml4_view T q)))"

definition vm_ok :: "(addr \<Rightarrow> nat) \<Rightarrow> vmem \<Rightarrow> bool" where
  "vm_ok loc v \<longleftrightarrow>
     ms_ok 0 (mappings v) \<and> cells_ok (mappings v) \<and> pml4_ok (pagetables v) \<and>
     tables_sound loc (mappings v) (pagetables v) \<and>
     rss (usage v) = of_nat (size (ms_pages (mappings v)))"

definition vm_handles :: "vmem \<Rightarrow> kernel_page multiset" where
  "vm_handles v = image_mset upage (ms_pages (mappings v))"

lemma vm_okI:
  "ms_ok 0 (mappings v) \<Longrightarrow> cells_ok (mappings v) \<Longrightarrow> pml4_ok (pagetables v) \<Longrightarrow>
   tables_sound loc (mappings v) (pagetables v) \<Longrightarrow> rss (usage v) = of_nat (size (ms_pages (mappings v))) \<Longrightarrow>
   vm_ok loc v"
  by (simp add: vm_ok_def)

lemma vm_okD:
  assumes "vm_ok loc v"
  shows "ms_ok 0 (mappings v)" "cells_ok (mappings v)" "pml4_ok (pagetables v)"
    "tables_sound loc (mappings v) (pagetables v)" "rss (usage v) = of_nat (size (ms_pages (mappings v)))"
  using assms by (simp_all add: vm_ok_def)

text \<open>What follows from how an operation changed the cells and the tables.\<close>

lemma tables_sound_update:
  assumes "tables_sound loc ms T"
    and "\<And>q. q \<le> LAST_USER_PAGE \<Longrightarrow> q \<notin> S \<Longrightarrow> resident ms' q = resident ms q"
    and "\<And>q. q \<le> LAST_USER_PAGE \<Longrightarrow> pml4_view T' q = (if q \<in> S' then 0 else pml4_view T q)"
    and "S \<inter> {..LAST_USER_PAGE} \<subseteq> S'"
  shows "tables_sound loc ms' T'"
  using assms unfolding tables_sound_def by (metis IntI atMost_iff subsetD)

lemma cells_ok_update:
  assumes "cells_ok ms" and "\<And>q c. cell ms' q = Some c \<Longrightarrow> cell ms q = Some c \<or> cell_ok c"
  shows "cells_ok ms'"
  using assms unfolding cells_ok_def by blast

lemma cells_ok_map:
  assumes "cells_ok ms" and "\<And>c. cell_ok c \<Longrightarrow> cell_ok (f c)"
    and "\<And>q. cell ms' q = (if P q then map_option f (cell ms q) else cell ms q)"
  shows "cells_ok ms'"
  using assms unfolding cells_ok_def by (metis map_option_eq_Some)

section \<open>Dropping pages\<close>

lemma sfor_drop:
  assumes "kp_inv h (mset (map upage us) + N)"
  shows "\<exists>h'. sfor_each (\<lambda>u. drop_page (upage u)) us h = (Ok (), h') \<and> kp_inv h' N \<and>
    (\<forall>q. q \<in># N \<longrightarrow> view h' q = view h q)"
  using assms
proof (induction us arbitrary: h)
  case (Cons u us)
  have "kp_inv h (add_mset (upage u) (mset (map upage us) + N))" using Cons.prems by simp
  from drop_page_spec [OF this] obtain h1 where h1: "drop_page (upage u) h = (Ok (), h1)"
    "kp_inv h1 (mset (map upage us) + N)" "\<And>q. q \<in># mset (map upage us) + N \<Longrightarrow> view h1 q = view h q" by blast
  from Cons.IH [OF h1(2)] h1(1,3) show ?case by (auto simp: sbind_def)
qed simp

lemma drop_user_pages_spec:
  assumes "kp_inv (hp s) (image_mset upage (mset us) + N)"
  shows "\<exists>h. drop_user_pages us s = (Ok (), s\<lparr>hp := h\<rparr>) \<and> kp_inv h N \<and>
    (\<forall>q. q \<in># N \<longrightarrow> view h q = view (hp s) q)"
  using sfor_drop [of "hp s" us N] assms by (auto simp: drop_user_pages_def on_hp_def)

lemma remove_mappings_spec:
  assumes "kp_inv (hp s) (image_mset upage (sum_list (map mapping_pages rm)) + N)"
  shows "\<exists>h. sfor_each remove_mapping rm s =
      (Ok (), s\<lparr>hp := h, vm := (vm s)\<lparr>usage :=
         decrease_rss (size (sum_list (map mapping_pages rm))) (usage (vm s))\<rparr>\<rparr>) \<and>
    kp_inv h N \<and> (\<forall>q. q \<in># N \<longrightarrow> view h q = view (hp s) q)"
  using assms
proof (induction rm arbitrary: s)
  case Nil
  then show ?case by (intro exI [of _ "hp s"]) (simp add: decrease_rss_def)
next
  case (Cons m rm)
  let ?s = "s\<lparr>vm := (vm s)\<lparr>usage := decrease_rss (length (somes (mpages m))) (usage (vm s))\<rparr>\<rparr>"
  let ?R = "image_mset upage (sum_list (map mapping_pages rm))"
  have "kp_inv (hp ?s) (image_mset upage (mset (somes (mpages m))) + (?R + N))"
    using Cons.prems by (simp add: mapping_pages_def [of m] ac_simps)
  from drop_user_pages_spec [OF this] obtain h where h: "drop_user_pages (somes (mpages m)) ?s = (Ok (), ?s\<lparr>hp := h\<rparr>)"
    "kp_inv h (?R + N)" "\<And>q. q \<in># ?R + N \<Longrightarrow> view h q = view (hp s) q" by auto
  have rm: "remove_mapping m s = (Ok (), ?s\<lparr>hp := h\<rparr>)"
    using h(1) by (simp add: remove_mapping_def modify_usage_def modify_vm_def sbind_def)
  from h(2) have "kp_inv (hp (?s\<lparr>hp := h\<rparr>)) (?R + N)" by simp
  from Cons.IH [OF this] h(3) rm show ?case
    by (auto simp: sbind_def decrease_rss_def mapping_pages_def [of m] algebra_simps)
qed

section \<open>Ranges and frames\<close>

definition user_range :: "nat \<Rightarrow> nat \<Rightarrow> bool" where
  "user_range addr n \<longleftrightarrow> 0 < n \<and> addr + n \<le> 2 ^ 47 - 4096"

lemma user_range_pages:
  assumes "user_range addr n"
  shows "addr div 4096 \<le> (addr + n - 1) div 4096" "((addr + n - 1) div 4096 + 1) * 4096 < 2 ^ 47"
    "(addr + n - 1) div 4096 \<le> LAST_USER_PAGE"
  using assms by (auto simp: user_range_def LAST_USER_PAGE_def div_le_mono)

text \<open>The state of an address space and what else holds pages.\<close>

definition space_ok :: "(addr \<Rightarrow> nat) \<Rightarrow> kernel_page multiset \<Rightarrow> 'f mem \<Rightarrow> bool" where
  "space_ok loc N s \<longleftrightarrow> vm_ok loc (vm s) \<and> kp_inv (hp s) (vm_handles (vm s) + N)"

text \<open>An operation leaves everything else alone: the other pages, the files.\<close>

definition undisturbed :: "kernel_page multiset \<Rightarrow> 'f mem \<Rightarrow> 'f mem \<Rightarrow> bool" where
  "undisturbed N s t \<longleftrightarrow> fs t = fs s \<and> trampoline t = trampoline s \<and>
     (\<forall>q. q \<in># vm_handles (vm t) + N \<longrightarrow> view (hp t) q = view (hp s) q)"

section \<open>Unmapping\<close>

definition gap :: "nat \<Rightarrow> 'b mappings \<Rightarrow> bool" where
  "gap q ms \<longleftrightarrow> below q ms \<and> cell ms q = None"

lemma resident_cell: "cell ms' q = cell ms q \<Longrightarrow> resident ms' q = resident ms q"
  by (simp add: resident_def)

lemma modify_tables_Ok:
  "g (pagetables (vm s)) = Ok T \<Longrightarrow> modify_tables g s = (Ok (), s\<lparr>vm := (vm s)\<lparr>pagetables := T\<rparr>\<rparr>)"
  by (simp add: modify_tables_def)

lemma unmap_spec:
  fixes s :: "'f mem"
  assumes va: "va_law va" "va addr (n - 1) = Ok z" "n \<noteq> 0" "addr \<le> z"
    and sok: "space_ok loc N s"
  shows "\<exists>t. unmap va addr n s = (Ok (), t) \<and> space_ok loc N t \<and> undisturbed N s t \<and>
    (\<forall>q. cell (mappings (vm t)) q =
      (if \<not> gap (addr div 4096) (mappings (vm s)) \<and> addr div 4096 \<le> q \<and> q \<le> z div 4096 then None
       else cell (mappings (vm s)) q)) \<and>
    (\<forall>q \<le> LAST_USER_PAGE. addr div 4096 \<le> q \<and> q \<le> z div 4096 \<longrightarrow> pml4_view (pagetables (vm t)) q = 0) \<and>
    brk_end (vm t) = brk_end (vm s)"
proof -
  have ok: "vm_ok loc (vm s)" and inv: "kp_inv (hp s) (vm_handles (vm s) + N)"
    using sok by (simp_all add: space_ok_def)
  let ?s = "addr div 4096" and ?e = "z div 4096" and ?ms = "mappings (vm s)"
  have se: "?s \<le> ?e" using va(4) by (rule div_le_mono)
  obtain T where T: "try_unmap_user_pages (Included ?s) (Included ?e) (pagetables (vm s)) = Ok T" "pml4_ok T"
    "\<And>q. q \<le> LAST_USER_PAGE \<Longrightarrow> pml4_view T q =
       (if min ?s LAST_USER_PAGE \<le> q \<and> q \<le> ?e then 0 else pml4_view (pagetables (vm s)) q)"
    using try_unmap_spec [OF vm_okD(3) [OF ok], of ?s ?e] by blast
  obtain pre post where c: "cursor_at ?s ?ms = (pre, post)" by (cases "cursor_at ?s ?ms")
  note cs = cursor_at_spec [OF vm_okD(1) [OF ok] c]
  have g: "starts_in_gap ?s post \<longleftrightarrow> gap ?s ?ms" using cs(5) by (simp add: gap_def)
  have "\<exists>ms' rm. unmap_loop va ?s ?e post = Ok (ms', rm) \<and> ms_ok 0 (pre @ ms') \<and>
      ms_pages ?ms = ms_pages (pre @ ms') + sum_list (map mapping_pages rm) \<and>
      (\<forall>q. cell (pre @ ms') q = (if \<not> gap ?s ?ms \<and> ?s \<le> q \<and> q \<le> ?e then None else cell ?ms q))"
  proof (cases "gap ?s ?ms")
    case True
    with unmap_loop_gap [OF va(1) cs(3)] g cs(1) vm_okD(1) [OF ok] show ?thesis by auto
  next
    case False
    with g unmap_loop_Ok [OF va(1) cs(3) se] obtain ms' rm where
      u: "unmap_loop va ?s ?e post = Ok (ms', rm)" "unmapped (ms_end 0 pre) ?s ?e post ms' rm" by blast
    have "cell pre q = None" if "?s \<le> q" for q using cell_above [OF cs(2)] cs(4) that by simp
    then have "cell (pre @ ms') q = (if ?s \<le> q \<and> q \<le> ?e then None else cell ?ms q)" for q
      using u(2) by (auto simp: cs(1) cell_append unmapped_def split: option.splits)
    with u False cs ms_ok_join [of 0 pre ms'] show ?thesis by (auto simp: unmapped_def)
  qed
  then obtain ms' rm where u: "unmap_loop va ?s ?e post = Ok (ms', rm)" "ms_ok 0 (pre @ ms')"
    "ms_pages ?ms = ms_pages (pre @ ms') + sum_list (map mapping_pages rm)"
    "\<And>q. cell (pre @ ms') q = (if \<not> gap ?s ?ms \<and> ?s \<le> q \<and> q \<le> ?e then None else cell ?ms q)" by blast
  let ?t = "s\<lparr>vm := (vm s)\<lparr>pagetables := T, mappings := pre @ ms'\<rparr>\<rparr>"
  let ?H = "image_mset upage (ms_pages (pre @ ms'))"
  have "kp_inv (hp ?t) (image_mset upage (sum_list (map mapping_pages rm)) + (?H + N))"
    using inv u(3) by (simp add: vm_handles_def ac_simps)
  from remove_mappings_spec [OF this] obtain h where
    h: "sfor_each remove_mapping rm ?t = (Ok (), ?t\<lparr>hp := h, vm := (vm ?t)\<lparr>usage :=
         decrease_rss (size (sum_list (map mapping_pages rm))) (usage (vm ?t))\<rparr>\<rparr>)"
    "kp_inv h (?H + N)" "\<And>q. q \<in># ?H + N \<Longrightarrow> view h q = view (hp s) q" by auto
  have run: "unmap va addr n s = (Ok (), ?t\<lparr>hp := h, vm := (vm ?t)\<lparr>usage :=
         decrease_rss (size (sum_list (map mapping_pages rm))) (usage (vm ?t))\<rparr>\<rparr>)"
    using va(2,3) T(1) c u(1) h(1)
    by (simp add: unmap_def modify_tables_def sbind_def get_vm_def modify_vm_def Let_def)
  have "tables_sound loc (pre @ ms') T"
    by (rule tables_sound_update [OF vm_okD(4) [OF ok], where S = "{?s..?e}" and S' = "{min ?s LAST_USER_PAGE..?e}"])
      (use u(4) T(3) in \<open>auto intro!: resident_cell\<close>)
  moreover have "cells_ok (pre @ ms')"
    by (rule cells_ok_update [OF vm_okD(2) [OF ok]]) (use u(4) in \<open>auto split: if_splits\<close>)
  ultimately show ?thesis
    using u(2,3,4) h T(2,3) vm_okD(5) [OF ok]
    by - (intro exI, intro conjI, rule run, auto simp: space_ok_def undisturbed_def vm_ok_def vm_handles_def decrease_rss_def)
qed

text \<open>\<open>gap\<close> is the only way a fixed mapping can go wrong: then what is mapped in the range stays.\<close>

definition clears :: "nat \<Rightarrow> nat \<Rightarrow> 'b mappings \<Rightarrow> bool" where
  "clears s e ms \<longleftrightarrow> (gap s ms \<longrightarrow> unused s (e + 1) ms)"

section \<open>Mapping\<close>

text \<open>Inserting a mapping where nothing is mapped.\<close>

lemma cell_insert:
  assumes "ms_ok lo ms" "unused p (p + npages m) ms" "0 < npages m" "(p + npages m) * 4096 < 2 ^ 47" "lo \<le> p"
  shows "ms_ok lo (bt_insert p m ms) \<and>
    (\<forall>q. cell (bt_insert p m ms) q =
      (if p \<le> q \<and> q < p + npages m then Some (mapping_cell m (q - p)) else cell ms q)) \<and>
    ms_pages (bt_insert p m ms) = mapping_pages m + ms_pages ms"
  using assms
proof (induction ms arbitrary: lo)
  case Nil
  then show ?case by simp
next
  case (Cons x ms)
  obtain k y where x: "x = (k, y)" by (cases x)
  have ok: "ms_ok (k + npages y) ms" "0 < npages y" "lo \<le> k" using Cons.prems(1) x by simp_all
  have k: "cell ((k, y) # ms) k \<noteq> None" using ok(2) by simp
  have un: "\<And>q. p \<le> q \<Longrightarrow> q < p + npages m \<Longrightarrow> cell ((k, y) # ms) q = None"
    using Cons.prems(2) x by (auto simp: unused_def)
  consider "p < k" | "k < p" using un [of k] k Cons.prems(3) by (metis le_refl less_add_same_cancel1 linorder_neqE_nat)
  then show ?case
  proof cases
    case 1
    then have "p + npages m \<le> k" using un [of k] k by (metis le_less_linear less_imp_le)
    moreover have ins: "bt_insert p m ((k, y) # ms) = (p, m) # (k, y) # ms" using 1 by simp
    ultimately show ?thesis unfolding x ins using x Cons.prems by auto
  next
    case 2
    have "k + npages y \<le> p" using un [of p] 2 Cons.prems(3) by (auto split: if_splits)
    moreover have "cell ms q = None" if "p \<le> q" "q < p + npages m" for q
      using un [OF that] 2 that by (simp split: if_splits)
    then have "unused p (p + npages m) ms" by (simp add: unused_def)
    ultimately show ?thesis
      using Cons.IH [OF ok(1)] 2 x Cons.prems by (auto simp: ac_simps)
  qed
qed

lemma mapping_pages_fresh: "mpages m = replicate n None \<Longrightarrow> mapping_pages m = {#}"
  by (simp add: mapping_pages_def)

text \<open>The fresh mapping of a range.\<close>

definition mmapped :: "nat \<Rightarrow> nat \<Rightarrow> u8 \<Rightarrow> backing \<Rightarrow> nat \<Rightarrow> bool \<Rightarrow> backing mappings \<Rightarrow> backing mappings \<Rightarrow> bool" where
  "mmapped s e perms b off sh ms ms' \<longleftrightarrow>
     (\<forall>q. cell ms' q =
        (if s \<le> q \<and> q \<le> e then Some (b, off + (q - s), perms, sh, None) else cell ms q))"

lemma mmap_fixed:
  fixes s :: "'f mem"
  assumes va: "va_law va" and r: "user_range addr n" and ok: "space_ok loc N s"
    and c: "clears (addr div 4096) ((addr + n - 1) div 4096) (mappings (vm s))"
    and b: "\<And>i. i \<le> (addr + n - 1) div 4096 - addr div 4096 \<Longrightarrow> backing_ok b (off + i)"
  shows "\<exists>t. mmap va (Fixed addr) n perms b off sh s = (Ok addr, t) \<and> space_ok loc N t \<and>
    mmapped (addr div 4096) ((addr + n - 1) div 4096) perms b off sh (mappings (vm s)) (mappings (vm t)) \<and>
    undisturbed N s t \<and> brk_end (vm t) = brk_end (vm s)"
proof -
  let ?s = "addr div 4096" and ?e = "(addr + n - 1) div 4096"
  note rp = user_range_pages [OF r]
  have n: "0 < n" "addr + (n - 1) = addr + n - 1" using r by (auto simp: user_range_def)
  have vas: "va addr n = Ok (addr + n)" "va addr (n - 1) = Ok (addr + n - 1)" "addr \<le> addr + n - 1"
    using va r by (auto simp: va_law_def user_range_def)
  obtain t where t: "unmap va addr n s = (Ok (), t)" "space_ok loc N t" "undisturbed N s t"
    "\<And>q. cell (mappings (vm t)) q =
      (if \<not> gap ?s (mappings (vm s)) \<and> ?s \<le> q \<and> q \<le> ?e then None else cell (mappings (vm s)) q)"
    "\<And>q. q \<le> LAST_USER_PAGE \<Longrightarrow> ?s \<le> q \<Longrightarrow> q \<le> ?e \<Longrightarrow> pml4_view (pagetables (vm t)) q = 0"
    "brk_end (vm t) = brk_end (vm s)"
    using unmap_spec [OF va vas(2) _ vas(3) ok] n(1) by blast
  have tv: "vm_ok loc (vm t)" using t(2) by (simp add: space_ok_def)
  define m where "m = \<lparr>backing = b, page_offset = off, permissions = perms, shared = sh,
     mpages = replicate (?e - ?s + 1) None\<rparr>"
  have np: "?s + npages m = ?e + 1" "0 < npages m" using rp(1) by (simp_all add: m_def)
  have "unused ?s (?s + npages m) (mappings (vm t))"
    using t(4) c np by (auto simp: unused_def clears_def)
  from cell_insert [OF vm_okD(1) [OF tv] this np(2)] rp(2) np(1)
  have ins: "ms_ok 0 (bt_insert ?s m (mappings (vm t)))"
    "\<And>q. cell (bt_insert ?s m (mappings (vm t))) q =
      (if ?s \<le> q \<and> q \<le> ?e then Some (mapping_cell m (q - ?s)) else cell (mappings (vm t)) q)"
    "ms_pages (bt_insert ?s m (mappings (vm t))) = ms_pages (mappings (vm t))"
    by (auto simp: less_Suc_eq_le m_def mapping_pages_def)
  have mc: "mapping_cell m (q - ?s) = (b, off + (q - ?s), perms, sh, None)" if "q \<le> ?e" for q
    using that by (auto simp: mapping_cell_def m_def simp del: replicate_Suc)
  have bo: "backing_ok b (off + q - ?s)" if "?s \<le> q" "q \<le> ?e" for q
    using b [of "q - ?s"] that by (simp add: diff_le_mono)
  let ?t = "t\<lparr>vm := (vm t)\<lparr>mappings := bt_insert ?s m (mappings (vm t))\<rparr>\<rparr>"
  have run: "mmap va (Fixed addr) n perms b off sh s = (Ok addr, ?t)"
    using n(1) vas(1) t(1) by (simp add: mmap_def sbind_def Let_def modify_vm_def m_def)
  have "tables_sound loc (bt_insert ?s m (mappings (vm t))) (pagetables (vm t))"
    by (rule tables_sound_update [OF vm_okD(4) [OF tv], where S = "{?s..?e}" and S' = "{?s..?e}"])
      (use ins(2) t(5) in \<open>auto intro!: resident_cell\<close>)
  moreover have "cells_ok (bt_insert ?s m (mappings (vm t)))"
    by (rule cells_ok_update [OF vm_okD(2) [OF tv]])
      (use ins(2) mc bo in \<open>auto simp: cell_ok_def split: if_splits\<close>)
  ultimately have "vm_ok loc (vm ?t)" using ins(1,3) vm_okD [OF tv] by (simp add: vm_ok_def)
  moreover have "mmapped ?s ?e perms b off sh (mappings (vm s)) (mappings (vm ?t))"
    using ins(2) mc t(4) c by (auto simp: mmapped_def clears_def unused_def)
  ultimately show ?thesis using run t(2,3,6) ins(3)
    by (intro exI [of _ ?t]) (simp add: space_ok_def vm_handles_def undisturbed_def)
qed

lemma unused_mono: "unused s e ms \<Longrightarrow> s \<le> s' \<Longrightarrow> e' \<le> e \<Longrightarrow> unused s' e' ms"
  by (simp add: unused_def)

lemma last_page_div: "0 < n \<Longrightarrow> (k * 4096 + n - 1) div 4096 = k + div_ceil n 4096 - 1"
  by (cases n) (auto simp: div_ceil_def div_Suc)

lemma mmap_dynamic:
  fixes s :: "'f mem"
  assumes va: "va_law va" and n: "0 < n" "n < 2 ^ 46" and ok: "space_ok loc N s"
    and b: "\<And>i. i < div_ceil n 4096 \<Longrightarrow> backing_ok b (off + i)"
  shows "mmap va (Dynamic abi) n perms b off sh s = (Panic, s) \<or>
    (\<exists>k t. mmap va (Dynamic abi) n perms b off sh s = (Ok (k * 4096), t) \<and> space_ok loc N t \<and>
      unused (k - 1) (k + div_ceil n 4096 + 1) (mappings (vm s)) \<and> 0 < k \<and>
      (k + div_ceil n 4096 + 1) * 4096 < 2 ^ 47 \<and>
      mmapped k (k + div_ceil n 4096 - 1) perms b off sh (mappings (vm s)) (mappings (vm t)) \<and>
      undisturbed N s t \<and> brk_end (vm t) = brk_end (vm s))"
proof -
  let ?d = "div_ceil n 4096" and ?ms = "mappings (vm s)"
  have ms: "ms_ok 0 ?ms" using ok by (simp add: space_ok_def vm_ok_def)
  have dyn: "mmap va (Dynamic abi) n perms b off sh s =
    (case find_free_address va n abi ?ms of Ok a \<Rightarrow> mmap va (Fixed a) n perms b off sh s
     | Err e \<Rightarrow> (Err e, s) | Panic \<Rightarrow> (Panic, s))"
    using n by (simp add: mmap_def sbind_def get_vm_def split: outcome.split)
  from find_free_address_spec [OF va ms _ n(2), of abi] n(1)
  consider "find_free_address va n abi ?ms = Panic"
    | k where "find_free_address va n abi ?ms = Ok (k * 4096)" "0 < k" "unused (k - 1) (k + ?d + 1) ?ms"
      "(k + ?d + 1) * 4096 < 2 ^ 47" by auto
  then show ?thesis
  proof cases
    case 1
    then show ?thesis using dyn by simp
  next
    case (2 k)
    note d = last_page_div [OF n(1), of k]
    have nd: "n \<le> ?d * 4096" by (rule div_ceil_mult_ge) simp
    have "user_range (k * 4096) n" using n nd 2(4) by (simp add: user_range_def)
    moreover have "clears k (k + ?d - 1) ?ms"
      using unused_mono [OF 2(3), of k "k + ?d - 1 + 1"] by (simp add: clears_def)
    moreover have "backing_ok b (off + i)" if "i \<le> k + ?d - 1 - k" for i
      using that n(1) by (intro b) (auto simp: div_ceil_def split: if_splits)
    ultimately show ?thesis
      using mmap_fixed [OF va _ ok, of "k * 4096" n b off perms sh] 2 dyn unfolding d by auto
  qed
qed

section \<open>Protecting\<close>

lemma resident_set_perms:
  "cell ms' q = map_option (cell_set_perms perms) (cell ms q) \<Longrightarrow>
   resident ms' q = map_option (\<lambda>u. u\<lparr>uperms := perms\<rparr>) (resident ms q)"
  by (auto simp: resident_def cell_set_perms_def split: option.splits prod.splits)

lemma cell_ok_set_perms: "cell_ok c \<Longrightarrow> cell_ok (cell_set_perms perms c)"
  by (auto simp: cell_ok_def cell_set_perms_def split: prod.splits)

lemma mprotect_spec:
  fixes s :: "'f mem"
  assumes va: "va_law va" "va addr (n - 1) = Ok z" "n \<noteq> 0" "addr \<le> z" and al: "addr mod 4096 = 0"
    and sok: "space_ok loc N s"
  shows "\<exists>t. mprotect va addr n perms s =
      (if gap (addr div 4096) (mappings (vm s)) then Err Fault else Ok (), t) \<and>
    space_ok loc N t \<and> undisturbed N s t \<and> brk_end (vm t) = brk_end (vm s) \<and> hp t = hp s \<and>
    (\<forall>q. cell (mappings (vm t)) q =
      (if \<not> gap (addr div 4096) (mappings (vm s)) \<and> addr div 4096 \<le> q \<and> q \<le> z div 4096
       then map_option (cell_set_perms perms) (cell (mappings (vm s)) q)
       else cell (mappings (vm s)) q)) \<and>
    (\<forall>q \<le> LAST_USER_PAGE. addr div 4096 \<le> q \<and> q \<le> z div 4096 \<longrightarrow> pml4_view (pagetables (vm t)) q = 0)"
proof -
  have ok: "vm_ok loc (vm s)" and inv: "kp_inv (hp s) (vm_handles (vm s) + N)"
    using sok by (simp_all add: space_ok_def)
  let ?s = "addr div 4096" and ?e = "z div 4096" and ?ms = "mappings (vm s)"
  have se: "?s \<le> ?e" using va(4) by (rule div_le_mono)
  obtain T where T: "try_unmap_user_pages (Included ?s) (Included ?e) (pagetables (vm s)) = Ok T" "pml4_ok T"
    "\<And>q. q \<le> LAST_USER_PAGE \<Longrightarrow> pml4_view T q =
       (if min ?s LAST_USER_PAGE \<le> q \<and> q \<le> ?e then 0 else pml4_view (pagetables (vm s)) q)"
    using try_unmap_spec [OF vm_okD(3) [OF ok], of ?s ?e] by blast
  obtain pre post where c: "cursor_at ?s ?ms = (pre, post)" by (cases "cursor_at ?s ?ms")
  note cs = cursor_at_spec [OF vm_okD(1) [OF ok] c]
  have g: "starts_in_gap ?s post \<longleftrightarrow> gap ?s ?ms" using cs(5) by (simp add: gap_def)
  have run: "mprotect va addr n perms s =
    (case mprotect_loop va perms ?s ?e post of
       Ok ms \<Rightarrow> (Ok (), s\<lparr>vm := (vm s)\<lparr>pagetables := T, mappings := pre @ ms\<rparr>\<rparr>)
     | Err e \<Rightarrow> (Err e, s\<lparr>vm := (vm s)\<lparr>pagetables := T\<rparr>\<rparr>)
     | Panic \<Rightarrow> (Panic, s\<lparr>vm := (vm s)\<lparr>pagetables := T\<rparr>\<rparr>))"
    using va(2,3) al T(1) c
    by (simp add: mprotect_def modify_tables_def sbind_def get_vm_def modify_vm_def Let_def split: outcome.split)
  show ?thesis
  proof (cases "gap ?s ?ms")
    case True
    have "tables_sound loc ?ms T"
      by (rule tables_sound_update [OF vm_okD(4) [OF ok], where S = "{}" and S' = "{min ?s LAST_USER_PAGE..?e}"])
        (use T(3) in auto)
    then show ?thesis
      using run mprotect_loop_gap [OF va(1) cs(3)] g True sok T(2,3)
      by (auto simp: space_ok_def undisturbed_def vm_ok_def vm_handles_def)
  next
    case False
    with g mprotect_loop_Ok [OF va(1) cs(3) se] obtain ms' where
      u: "mprotect_loop va perms ?s ?e post = Ok ms'" "protected (ms_end 0 pre) ?s ?e perms post ms'" by blast
    have pre: "cell pre q = None" if "?s \<le> q" for q using cell_above [OF cs(2)] cs(4) that by simp
    then have cell: "cell (pre @ ms') q =
        (if ?s \<le> q \<and> q \<le> ?e then map_option (cell_set_perms perms) (cell ?ms q) else cell ?ms q)" for q
      using u(2) by (auto simp: cs(1) cell_append protected_def split: option.splits)
    have pages: "image_mset upage (ms_pages (pre @ ms')) = image_mset upage (ms_pages ?ms)"
      using u(2) by (simp add: cs(1) protected_def)
    then have size: "size (ms_pages (pre @ ms')) = size (ms_pages ?ms)" by (metis size_image_mset)
    have "tables_sound loc (pre @ ms') T"
      by (rule tables_sound_update [OF vm_okD(4) [OF ok], where S = "{?s..?e}" and S' = "{min ?s LAST_USER_PAGE..?e}"])
        (use cell T(3) in \<open>auto intro!: resident_cell\<close>)
    moreover have "cells_ok (pre @ ms')"
      by (rule cells_ok_map [OF vm_okD(2) [OF ok] cell_ok_set_perms cell])
    moreover have "ms_ok 0 (pre @ ms')" using u(2) cs(2) by (intro ms_ok_join) (simp_all add: protected_def)
    ultimately show ?thesis
      using run u(1) False sok pages size T(2,3) cell
      by (auto simp: space_ok_def undisturbed_def vm_ok_def vm_handles_def)
  qed
qed

section \<open>Discarding\<close>

lemma cell_ok_discard: "cell_ok c \<Longrightarrow> cell_ok (cell_discard c)"
  by (auto simp: cell_ok_def cell_discard_def split: prod.splits)

lemma cursor_keys:
  assumes "ms_ok 0 ms" "cursor_at p ms = (pre, post)" "post = x # ns" "(k, y) \<in> set ns"
  shows "p < k"
proof (rule cursor_at_cases [OF assms(1,2)])
  assume "post = ms" "\<And>k x. (k, x) \<in> set ms \<Longrightarrow> p < k"
  with assms(3,4) show ?thesis by (metis list.set_intros(2))
qed (use assms(3,4) in auto)

lemma try_unmap_excluded:
  assumes "pml4_ok T"
  shows "\<exists>T'. try_unmap_user_pages (Included s) (Excluded e) T = Ok T' \<and> pml4_ok T' \<and>
    (\<forall>q \<le> LAST_USER_PAGE. pml4_view T' q =
       (if min s LAST_USER_PAGE \<le> q \<and> q < e then 0 else pml4_view T q))"
proof (cases e)
  case 0
  then show ?thesis using assms by (simp add: try_unmap_user_pages_def)
next
  case (Suc e')
  have "try_unmap_user_pages (Included s) (Excluded e) T = try_unmap_user_pages (Included s) (Included e') T"
    by (simp add: Suc try_unmap_user_pages_def)
  with try_unmap_spec [OF assms, of s e'] show ?thesis by (simp add: Suc less_Suc_eq_le)
qed

lemma discard_spec:
  fixes s :: "'f mem"
  assumes va: "va_law va" "addr + n < 2 ^ 47" and al: "addr mod 4096 = 0" "n mod 4096 = 0"
    and sok: "space_ok loc N s"
  shows "\<exists>r t d. discard_pages va addr n s = (r, t) \<and> d \<le> (addr + n) div 4096 \<and> addr div 4096 \<le> d \<and>
    (r = Ok () \<and> d = (addr + n) div 4096 \<or>
     r = Err NoMem \<and> d < (addr + n) div 4096 \<and> cell (mappings (vm s)) d = None) \<and>
    space_ok loc N t \<and> undisturbed N s t \<and> brk_end (vm t) = brk_end (vm s) \<and>
    (\<forall>q. cell (mappings (vm t)) q =
      (if addr div 4096 \<le> q \<and> q < d then map_option cell_discard (cell (mappings (vm s)) q)
       else cell (mappings (vm s)) q)) \<and>
    (\<forall>q. addr div 4096 \<le> q \<and> q < d \<longrightarrow> cell (mappings (vm s)) q \<noteq> None)"
proof -
  have ok: "vm_ok loc (vm s)" and inv: "kp_inv (hp s) (vm_handles (vm s) + N)"
    using sok by (simp_all add: space_ok_def)
  let ?s = "addr div 4096" and ?e = "(addr + n) div 4096" and ?ms = "mappings (vm s)"
  have se: "?s \<le> ?e" "?e * 4096 < 2 ^ 47" "(addr + n) mod 4096 = 0"
    using va(2) al by (auto simp: div_le_mono mod_add_eq [symmetric])
  obtain T where T: "try_unmap_user_pages (Included ?s) (Excluded ?e) (pagetables (vm s)) = Ok T" "pml4_ok T"
    "\<And>q. q \<le> LAST_USER_PAGE \<Longrightarrow> pml4_view T q =
       (if min ?s LAST_USER_PAGE \<le> q \<and> q < ?e then 0 else pml4_view (pagetables (vm s)) q)"
    using try_unmap_excluded [OF vm_okD(3) [OF ok], of ?s ?e] by blast
  obtain pre post where c: "cursor_at ?s ?ms = (pre, post)" by (cases "cursor_at ?s ?ms")
  note cs = cursor_at_spec [OF vm_okD(1) [OF ok] c]
  obtain r ms' ds where l: "discard_loop va ?s ?e post = (r, ms', ds)"
    by (cases "discard_loop va ?s ?e post")
  obtain d where d: "d \<le> ?e" "discarded (ms_end 0 pre) ?s d post ms' ds"
    "r = Ok () \<and> d = ?e \<or> r = Err NoMem \<and> d < ?e \<and> cell post d = None"
    using discard_loop_spec [OF va(1) cs(3) se(1,2) _ l] cursor_keys [OF vm_okD(1) [OF ok] c] by blast
  have pre: "cell pre q = None" if "?s \<le> q" for q using cell_above [OF cs(2)] cs(4) that by simp
  then have cell: "cell (pre @ ms') q =
      (if ?s \<le> q \<and> q < d then map_option cell_discard (cell ?ms q) else cell ?ms q)" for q
    using d(2) by (auto simp: cs(1) cell_append discarded_def split: option.splits)
  have pages: "ms_pages ?ms = ms_pages (pre @ ms') + mset ds"
    using d(2) by (simp add: cs(1) discarded_def ac_simps)
  let ?t = "s\<lparr>vm := (vm s)\<lparr>pagetables := T, mappings := pre @ ms',
     usage := decrease_rss (length ds) (usage (vm s))\<rparr>\<rparr>"
  let ?H = "image_mset upage (ms_pages (pre @ ms'))"
  have "kp_inv (hp ?t) (image_mset upage (mset ds) + (?H + N))"
    using inv pages by (simp add: vm_handles_def ac_simps)
  from drop_user_pages_spec [OF this] obtain h where h: "drop_user_pages ds ?t = (Ok (), ?t\<lparr>hp := h\<rparr>)"
    "kp_inv h (?H + N)" "\<And>q. q \<in># ?H + N \<Longrightarrow> view h q = view (hp s) q" by auto
  have run: "discard_pages va addr n s = (r, ?t\<lparr>hp := h\<rparr>)"
    using va al se(3) T(1) c l h(1)
    by (simp add: discard_pages_def va_law_def modify_tables_def sbind_def get_vm_def modify_vm_def
        modify_usage_def Let_def)
  have "tables_sound loc (pre @ ms') T"
    by (rule tables_sound_update [OF vm_okD(4) [OF ok], where S = "{?s..<d}" and S' = "{min ?s LAST_USER_PAGE..<?e}"])
      (use cell T(3) d(1) in \<open>auto intro!: resident_cell\<close>)
  moreover have "cells_ok (pre @ ms')" by (rule cells_ok_map [OF vm_okD(2) [OF ok] cell_ok_discard cell])
  moreover have "ms_ok 0 (pre @ ms')" using d(2) cs(2) by (intro ms_ok_join) (simp_all add: discarded_def)
  ultimately have "space_ok loc N (?t\<lparr>hp := h\<rparr>)"
    using h T(2) vm_okD(5) [OF ok] pages by (simp add: space_ok_def vm_ok_def vm_handles_def decrease_rss_def)
  moreover have "cell ?ms d = None" if "cell post d = None"
    using that pre [of d] d(2) by (simp add: cs(1) cell_append discarded_def)
  moreover have "cell ?ms q \<noteq> None" if "?s \<le> q" "q < d" for q
    using that pre [of q] d(2) by (simp add: cs(1) cell_append discarded_def)
  moreover have "?s \<le> d" using d(2) by (simp add: discarded_def)
  ultimately show ?thesis using run d(1,3) h cell
    by (intro exI [of _ r] exI [of _ "?t\<lparr>hp := h\<rparr>"] exI [of _ d]) (auto simp: undisturbed_def vm_handles_def)
qed

section \<open>The break and the end\<close>

lemma space_ok_brk [simp]: "space_ok loc N (s\<lparr>vm := (vm s)\<lparr>brk_end := b\<rparr>\<rparr>) \<longleftrightarrow> space_ok loc N s"
  by (simp add: space_ok_def vm_ok_def vm_handles_def)

lemma undisturbed_brk [simp]:
  "undisturbed N (s\<lparr>vm := (vm s)\<lparr>brk_end := b\<rparr>\<rparr>) t \<longleftrightarrow> undisturbed N s t"
  "undisturbed N s (s\<lparr>vm := (vm s)\<lparr>brk_end := b\<rparr>\<rparr>) \<longleftrightarrow> True"
  by (simp_all add: undisturbed_def)

definition brk_free :: "nat \<Rightarrow> nat \<Rightarrow> 'b mappings \<Rightarrow> bool" where
  "brk_free s e ms \<longleftrightarrow> (\<exists>p m. (p, m) \<in> set ms \<and> p \<le> e) \<and> unused s (e + 1) ms"

lemma set_brk_end_grow:
  fixes s :: "'f mem"
  assumes va: "va_law va" and b: "brk_end (vm s) < brk" "brk \<le> 2 ^ 47 - 4096" and ok: "space_ok loc N s"
  shows "\<exists>t. set_brk_end va brk s =
      (if brk_free (brk_end (vm s) div 4096) ((brk - 1) div 4096) (mappings (vm s)) then Ok () else Err NoMem, t) \<and>
    space_ok loc N t \<and> undisturbed N s t \<and>
    (if brk_free (brk_end (vm s) div 4096) ((brk - 1) div 4096) (mappings (vm s))
     then brk_end (vm t) = brk \<and> mmapped (brk_end (vm s) div 4096) ((brk - 1) div 4096)
       (PERM_WRITE OR PERM_READ) ZeroBacking 0 False (mappings (vm s)) (mappings (vm t))
     else t = s)"
proof -
  let ?o = "brk_end (vm s)" and ?ms = "mappings (vm s)"
  let ?s = "?o div 4096" and ?e = "(brk - 1) div 4096"
  let ?u = "s\<lparr>vm := (vm s)\<lparr>brk_end := brk\<rparr>\<rparr>"
  have r: "user_range ?o (brk - ?o)" "?o + (brk - ?o) - 1 = brk - 1" "?o + (brk - ?o - 1) = brk - 1"
    using b by (auto simp: user_range_def)
  note rp = user_range_pages [OF r(1), unfolded r(2)]
  have ms: "ms_ok 0 ?ms" using ok by (simp add: space_ok_def vm_ok_def)
  have "va ?o (brk - ?o - 1) = Ok (brk - 1)" using va b r(3) by (auto simp: va_law_def)
  then have free: "is_free va ?o (brk - ?o) ?u = (Ok (brk_free ?s ?e ?ms), ?u)"
    using b is_free_pages_spec [OF va ms rp(1)]
    by (simp add: is_free_def sbind_def get_vm_def brk_free_def)
  have run: "set_brk_end va brk s =
    (if brk_free ?s ?e ?ms then sbind (mmap_zero va (Fixed ?o) (brk - ?o) (PERM_WRITE OR PERM_READ)) (\<lambda>_. sret ()) ?u
     else (Err NoMem, s))"
    using b free by (simp add: set_brk_end_def sbind_def get_vm_def modify_vm_def Let_def)
  show ?thesis
  proof (cases "brk_free ?s ?e ?ms")
    case True
    then have c: "clears (?o div 4096) ((?o + (brk - ?o) - 1) div 4096) (mappings (vm ?u))"
      using r(2) by (simp add: clears_def brk_free_def)
    have bo: "backing_ok ZeroBacking (0 + i)" if "i \<le> (?o + (brk - ?o) - 1) div 4096 - ?o div 4096" for i
      using that rp(2) unfolding r(2) backing_ok_def by simp
    from mmap_fixed [OF va r(1) _ c bo, of loc N "PERM_WRITE OR PERM_READ" False] ok r(2) obtain t where
      "mmap va (Fixed ?o) (brk - ?o) (PERM_WRITE OR PERM_READ) ZeroBacking 0 False ?u = (Ok ?o, t)"
      "space_ok loc N t" "mmapped ?s ?e (PERM_WRITE OR PERM_READ) ZeroBacking 0 False ?ms (mappings (vm t))"
      "undisturbed N s t" "brk_end (vm t) = brk" by auto
    then show ?thesis using run True by (simp add: mmap_zero_def sbind_def)
  next
    case False
    then show ?thesis using run ok by (simp add: undisturbed_def)
  qed
qed

lemma set_brk_end_shrink:
  fixes s :: "'f mem"
  assumes va: "va_law va" and b: "brk \<le> brk_end (vm s)" "brk_end (vm s) < 2 ^ 47" and ok: "space_ok loc N s"
  shows "\<exists>t. set_brk_end va brk s = (Ok (), t) \<and> space_ok loc N t \<and> undisturbed N s t \<and> brk_end (vm t) = brk \<and>
    (\<forall>q. cell (mappings (vm t)) q =
      (if brk < brk_end (vm s) \<and> \<not> gap (brk div 4096) (mappings (vm s)) \<and>
          brk div 4096 \<le> q \<and> q \<le> (brk_end (vm s) - 1) div 4096 then None
       else cell (mappings (vm s)) q))"
proof (cases "brk = brk_end (vm s)")
  case True
  then show ?thesis using ok
    by (auto simp: set_brk_end_def sbind_def get_vm_def modify_vm_def Let_def undisturbed_def)
next
  case False
  let ?o = "brk_end (vm s)"
  let ?u = "s\<lparr>vm := (vm s)\<lparr>brk_end := brk\<rparr>\<rparr>"
  have "va brk (?o - brk - 1) = Ok (?o - 1)" "?o - brk \<noteq> 0" "brk \<le> ?o - 1"
    using va b False by (auto simp: va_law_def)
  from unmap_spec [OF va this, of loc N ?u] ok obtain t where
    "unmap va brk (?o - brk) ?u = (Ok (), t)" "space_ok loc N t" "undisturbed N s t" "brk_end (vm t) = brk"
    "\<And>q. cell (mappings (vm t)) q =
      (if \<not> gap (brk div 4096) (mappings (vm s)) \<and> brk div 4096 \<le> q \<and> q \<le> (?o - 1) div 4096 then None
       else cell (mappings (vm s)) q)" by auto
  then show ?thesis using b False
    by (simp add: set_brk_end_def sbind_def get_vm_def modify_vm_def Let_def)
qed

text \<open>Dropping an address space gives all its pages back.\<close>

lemma no_gap_0: "\<not> gap 0 ms"
  by (simp add: gap_def below_def)

lemma cell_None_pages:
  assumes "ms_ok lo ms" "\<And>q. cell ms q = None"
  shows "ms = []"
proof (cases ms)
  case (Cons x ns)
  obtain p m where x: "x = (p, m)" by (cases x)
  then have "cell ms p \<noteq> None" using Cons assms(1) by simp
  with assms(2) show ?thesis by simp
qed simp

lemma cell_bound: "ms_ok lo ms \<Longrightarrow> cell ms q \<noteq> None \<Longrightarrow> q < 2 ^ 35"
proof (induction ms arbitrary: lo)
  case (Cons x ms)
  obtain p m where x: "x = (p, m)" by (cases x)
  show ?case
  proof (cases "p \<le> q \<and> q < p + npages m")
    case True
    then show ?thesis using Cons.prems x by simp
  next
    case False
    then have "cell ms q \<noteq> None" using Cons.prems(2) x by auto
    with Cons.IH [of "p + npages m"] Cons.prems(1) x show ?thesis by simp
  qed
qed simp

lemma vm_drop_spec:
  fixes s :: "'f mem"
  assumes va: "va_law va" "va 0 (2 ^ 64 - 2) = Ok (2 ^ 64 - 2)" and ok: "space_ok loc N s"
  shows "\<exists>t. vm_drop va s = (Ok (), t) \<and> space_ok loc N t \<and> undisturbed N s t \<and> mappings (vm t) = []"
proof -
  have v: "va 0 (2 ^ 64 - 1 - 1) = Ok (2 ^ 64 - 2)" "2 ^ 64 - 1 \<noteq> (0::nat)" using va(2) by simp_all
  from unmap_spec [OF va(1) v _ ok] obtain t where t: "vm_drop va s = (Ok (), t)" "space_ok loc N t" "undisturbed N s t"
    "\<And>q. cell (mappings (vm t)) q = (if q \<le> (2 ^ 64 - 2) div 4096 then None else cell (mappings (vm s)) q)"
    unfolding vm_drop_def by (auto simp: no_gap_0)
  have "cell (mappings (vm s)) q = None" if "\<not> q \<le> (2 ^ 64 - 2) div 4096" for q
    using that cell_bound [of 0 "mappings (vm s)" q] ok
    by (cases "cell (mappings (vm s)) q") (auto simp: space_ok_def vm_ok_def)
  then have "cell (mappings (vm t)) q = None" for q using t(4) [of q] by metis
  then have "mappings (vm t) = []" using cell_None_pages t(2) by (auto simp: space_ok_def vm_ok_def)
  with t show ?thesis by blast
qed

end
