(* ===== verification/Page_Faults.thy ===== *)
theory Page_Faults
  imports Address_Safety
begin

text \<open>
  Page faults and forking: what \<^verbatim>\<open>map_page\<close> and \<^verbatim>\<open>clone\<close> do to an address space, over any files
  that keep the contract of the locale \<open>file_pages\<close>, and the system of all address spaces.
\<close>

lemma sbind_sret [simp]: "sbind (sret x) f = f x"
  by (rule ext) (simp add: sbind_def)

section \<open>Slots\<close>

lemma set_slot_other: "(\<And>m. (p, m) \<notin> set ms) \<Longrightarrow> set_slot p i x ms = ms"
  by (auto simp: set_slot_def intro!: map_idI)

lemma ms_split:
  assumes ok: "ms_ok lo ms" and p: "(p, m) \<in> set ms"
  obtains pre ns where "ms = pre @ (p, m) # ns" "ms_ok lo pre" "ms_end lo pre \<le> p" "ms_ok (p + npages m) ns"
    "0 < npages m" "(p + npages m) * 4096 < 2 ^ 47"
    "\<And>i x. set_slot p i x ms = pre @ (p, m\<lparr>mpages := (mpages m)[i := x]\<rparr>) # ns"
proof -
  from p obtain pre ns where ms: "ms = pre @ (p, m) # ns" by (meson split_list)
  from ok have o: "ms_ok lo pre" "ms_end lo pre \<le> p" "ms_ok (p + npages m) ns" "0 < npages m"
    "(p + npages m) * 4096 < 2 ^ 47" by (simp_all add: ms ms_ok_append)
  have "(p, y) \<notin> set pre" for y
  proof
    assume y: "(p, y) \<in> set pre"
    then obtain a c where "pre = a @ (p, y) # c" by (meson split_list)
    then have "0 < npages y" using o(1) by (simp add: ms_ok_append)
    with ms_end_keys [OF o(1) y] o(2) show False by linarith
  qed
  moreover have "(p, y) \<notin> set ns" for y using ms_ok_keys [OF o(3), of p y] o(4) by fastforce
  ultimately have "set_slot p i x ms = pre @ (p, m\<lparr>mpages := (mpages m)[i := x]\<rparr>) # ns" for i x
    using set_slot_other [of p pre i x] set_slot_other [of p ns i x] by (simp add: ms set_slot_def)
  with o ms show thesis by (intro that) auto
qed

definition option_mset :: "'a option \<Rightarrow> 'a multiset" where
  "option_mset x = (case x of None \<Rightarrow> {#} | Some y \<Rightarrow> {#y#})"

lemma option_mset_simps [simp]: "option_mset None = {#}" "option_mset (Some y) = {#y#}"
  by (simp_all add: option_mset_def)

lemma somes_update:
  "i < length xs \<Longrightarrow> mset (somes (xs[i := x])) + option_mset (xs ! i) = mset (somes xs) + option_mset x"
proof (induction xs arbitrary: i rule: somes.induct)
  case (2 xs)
  then show ?case by (cases i; cases x) auto
next
  case (3 y xs)
  then show ?case by (cases i; cases x) (auto simp: ac_simps)
qed simp

lemma slot_spec:
  assumes ok: "ms_ok lo ms" and p: "(p, m) \<in> set ms" and i: "i < npages m"
  shows "ms_ok lo (set_slot p i x ms)"
    "cell (set_slot p i x ms) q =
      (if q = p + i then Some (backing m, page_offset m + i, permissions m, shared m, x) else cell ms q)"
    "ms_pages (set_slot p i x ms) + option_mset (mpages m ! i) = ms_pages ms + option_mset x"
    "cell ms (p + i) = Some (mapping_cell m i)"
proof -
  obtain pre ns where s: "ms = pre @ (p, m) # ns" "ms_ok lo pre" "ms_end lo pre \<le> p" "ms_ok (p + npages m) ns"
    "0 < npages m" "(p + npages m) * 4096 < 2 ^ 47"
    "\<And>i x. set_slot p i x ms = pre @ (p, m\<lparr>mpages := (mpages m)[i := x]\<rparr>) # ns" using ms_split [OF ok p] by metis
  show "ms_ok lo (set_slot p i x ms)" using s(2-6) unfolding s(7) by (simp add: ms_ok_append)
  have pre: "cell pre q = None" if "p \<le> q" for q using cell_above [OF s(2)] s(3) that by simp
  show "cell (set_slot p i x ms) q =
      (if q = p + i then Some (backing m, page_offset m + i, permissions m, shared m, x) else cell ms q)"
    using i pre [of q] unfolding s(7) unfolding s(1) cell_append by (auto simp: mapping_cell_def split: option.splits)
  show "ms_pages (set_slot p i x ms) + option_mset (mpages m ! i) = ms_pages ms + option_mset x"
    using somes_update [OF i, of x] unfolding s(7) by (simp add: s(1) mapping_pages_def ac_simps)
  show "cell ms (p + i) = Some (mapping_cell m i)" using i pre [of "p + i"] by (simp add: s(1) cell_append)
qed

lemma find_mapping_spec:
  assumes ok: "ms_ok 0 ms"
  shows "case find_mapping q ms of
      None \<Rightarrow> cell ms q = None
    | Some (p, m) \<Rightarrow> (p, m) \<in> set ms \<and> p \<le> q \<and> (npages m \<le> q - p \<longrightarrow> cell ms q = None)"
proof -
  obtain pre post where c: "cursor_at q ms = (pre, post)" by (cases "cursor_at q ms")
  note cs = cursor_at_spec [OF ok c]
  have pre: "cell pre q = None" using cell_above [OF cs(2)] cs(4) by simp
  show ?thesis
  proof (rule cursor_at_cases [OF ok c])
    assume *: "pre = []" "post = ms" "\<And>k x. (k, x) \<in> set ms \<Longrightarrow> q < k"
    then have "takeWhile (\<lambda>x. fst x \<le> q) ms = []" by (cases ms) fastforce+
    then show ?thesis using cell_keys_above [OF *(3)] by (simp add: find_mapping_def)
  next
    fix p m ns assume *: "post = (p, m) # ns" "ms = pre @ (p, m) # ns" "p \<le> q" "\<And>k x. (k, x) \<in> set ns \<Longrightarrow> q < k"
    have "takeWhile (\<lambda>x. fst x \<le> q) ms \<noteq> []" using c *(1,2,3) by (auto simp: cursor_at_def Let_def split: if_splits)
    then have "find_mapping q ms = Some (p, m)" using c *(1) by (auto simp: cursor_at_def find_mapping_def Let_def)
    then show ?thesis using * pre cell_keys_above [OF *(4)] by (auto simp: cell_append)
  qed
qed

section \<open>Entries of pages\<close>

abbreviation loc_ok :: "(addr \<Rightarrow> nat) \<Rightarrow> bool" where
  "loc_ok loc \<equiv> \<forall>a. loc a < 2 ^ 24"

lemma frame_bits:
  assumes "loc (content p) < 2 ^ 24"
  shows "bit (frame loc p) n \<Longrightarrow> 12 \<le> n \<and> n < 52"
proof -
  have f: "frame loc p = push_bit 12 (word_of_nat (0x20000000 + loc (content p)))"
    by (simp add: frame_def DYNAMIC_start_def push_bit_eq_mult)
  have "0x20000000 + loc (content p) < 2 ^ 40" using assms by simp
  then have hi: "\<not> bit (0x20000000 + loc (content p)) k" if "40 \<le> k" for k
    using that by (metis bit_take_bit_iff linorder_not_less take_bit_nat_eq_self)
  assume "bit (frame loc p) n"
  then have n: "12 \<le> n" "bit (0x20000000 + loc (content p)) (n - 12)"
    unfolding f by (auto simp: bit_push_bit_iff bit_of_nat_iff simp del: of_nat_add of_nat_numeral)
  moreover have "n < 52"
  proof (rule ccontr)
    assume "\<not> n < 52"
    then have "40 \<le> n - 12" by simp
    with hi n(2) show False by blast
  qed
  ultimately show "12 \<le> n \<and> n < 52" by simp
qed

lemma user_page_entry_Ok:
  assumes "loc (content (upage u)) < 2 ^ 24"
  shows "\<exists>e. user_page_entry loc u = Ok e \<and> pte_ok loc u e \<and>
    (has_flags (entry_flags e) WRITABLE \<longleftrightarrow> has_flags (uperms u) PERM_WRITE \<and> mutable (ushared u) (upage u)) \<and>
    (has_flags (entry_flags e) EXECUTABLE \<longleftrightarrow> has_flags (uperms u) PERM_EXECUTE)"
proof -
  let ?w = "has_flags (uperms u) PERM_WRITE \<and> mutable (ushared u) (upage u)"
    and ?x = "has_flags (uperms u) PERM_EXECUTE"
  define fl where "fl = put_flags EXECUTABLE ?x (put_flags WRITABLE ?w USER)"
  have fl: "bit fl n \<longleftrightarrow> n = 0 \<and> ?w \<or> n = 1 \<and> ?x \<or> n = 2" for n
  proof -
    have "bit USER n \<longleftrightarrow> n = 2" unfolding USER_def bit_exp_iff by (auto simp: possible_bit_def)
    then show ?thesis
      unfolding fl_def WRITABLE_def EXECUTABLE_def by (subst bit_put_flags_exp, simp)+ auto
  qed
  have run: "user_page_entry loc u = entry_new (frame loc (upage u)) fl"
    by (simp add: user_page_entry_def fl_def Let_def)
  obtain e where e: "entry_new (frame loc (upage u)) fl = (Ok e :: u64 result)"
    using fl [of 4] by (simp add: entry_new_def Let_def has_flag_bits)
  note b = entry_new_Ok [OF e]
  note fb = frame_bits [of loc "upage u", OF assms]
  have "entry_frame e = frame loc (upage u)"
    by (rule bit_word_eqI) (auto simp: bit_entry_frame b dest: fb)
  then have "pte_ok loc u e" by (simp add: pte_ok_def entry_bits b fl)
  moreover have "bit (entry_flags e) 0 \<longleftrightarrow> ?w" "bit (entry_flags e) 1 \<longleftrightarrow> ?x"
    by (simp_all add: bit_entry_flags b fl)
  ultimately show ?thesis using run e by (simp add: has_flag_bits)
qed

section \<open>The contract of files\<close>

text \<open>
  What an address space relies on when it asks a file for a page: it gets a new handle and the
  handles that do not share a page with a file keep their bytes. (A handle that does may see
  the bytes behind the end of the file being cleared.)
\<close>

definition apart :: "kernel_page multiset \<Rightarrow> kernel_page \<Rightarrow> bool" where
  "apart F q \<longleftrightarrow> content q = 0 \<or> (\<forall>p. p \<in># F \<longrightarrow> content p \<noteq> content q)"

definition stays :: "kernel_page multiset \<Rightarrow> heap \<Rightarrow> kernel_page multiset \<Rightarrow> heap \<Rightarrow> kernel_page \<Rightarrow> bool" where
  "stays F h F' h' q \<longleftrightarrow> (apart F q \<longrightarrow> view h' q = view h q \<and> apart F' q)"

lemma stays_refl [simp]: "stays F h F h q" "stays F h F (h\<lparr>oom := x\<rparr>) q"
  by (simp_all add: stays_def)

lemma stays_trans: "stays F h F' h' q \<Longrightarrow> stays F' h' F'' h'' q \<Longrightarrow> stays F h F'' h'' q"
  by (simp add: stays_def)

locale file_pages =
  fixes fp :: "'f file_page" and fhandles :: "'f \<Rightarrow> kernel_page multiset" and fok :: "'f \<Rightarrow> bool"
  assumes file_page:
    "kp_inv h (fhandles x + M) \<Longrightarrow> fok x \<Longrightarrow> fp f i sh (h, x) = (r, (h', x')) \<Longrightarrow>
     fok x' \<and> (\<forall>q. q \<in># M \<longrightarrow> stays (fhandles x) h (fhandles x') h' q) \<and>
     (case r of Ok p \<Rightarrow> kp_inv h' (add_mset p (fhandles x' + M))
      | Err e \<Rightarrow> kp_inv h' (fhandles x' + M) | Panic \<Rightarrow> False)"

text \<open>The pages outside the address spaces.\<close>

definition outside :: "('f \<Rightarrow> kernel_page multiset) \<Rightarrow> 'f mem \<Rightarrow> kernel_page multiset" where
  "outside fhandles s = add_mset (trampoline s) (fhandles (fs s))"

definition mem_inv ::
  "('f \<Rightarrow> kernel_page multiset) \<Rightarrow> ('f \<Rightarrow> bool) \<Rightarrow> (addr \<Rightarrow> nat) \<Rightarrow> kernel_page multiset \<Rightarrow> 'f mem \<Rightarrow> bool" where
  "mem_inv fhandles fok loc N s \<longleftrightarrow> space_ok loc (outside fhandles s + N) s \<and> fok (fs s)"

text \<open>What an operation that hands out a page does to the pages it leaves alone.\<close>

definition handed ::
  "('f \<Rightarrow> kernel_page multiset) \<Rightarrow> ('f \<Rightarrow> bool) \<Rightarrow> kernel_page multiset \<Rightarrow> kernel_page result \<Rightarrow> 'f mem \<Rightarrow> 'f mem \<Rightarrow> bool" where
  "handed fhandles fok M r s t \<longleftrightarrow>
     vm t = vm s \<and> fok (fs t) \<and> 
     (\<forall>q. q \<in># M \<longrightarrow> stays (fhandles (fs s)) (hp s) (fhandles (fs t)) (hp t) q) \<and>
     (case r of Ok p \<Rightarrow> kp_inv (hp t) (add_mset p (outside fhandles t + M))
      | Err e \<Rightarrow> kp_inv (hp t) (outside fhandles t + M) | Panic \<Rightarrow> False)"

lemma kp_inv_oomI: "kp_inv h M \<Longrightarrow> kp_inv (h\<lparr>oom := x\<rparr>) M"
  by simp

lemma zero_tail_spec:
  assumes inv: "kp_inv h (add_mset p M)"
  shows "\<exists>r h'. zero_tail start p h = (r, h') \<and> (\<forall>q. q \<in># M \<longrightarrow> view h' q = view h q) \<and>
    (case r of Ok q \<Rightarrow> kp_inv h' (add_mset q M) | Err e \<Rightarrow> kp_inv h' M | Panic \<Rightarrow> False)"
proof (rule zero_range_cases [OF inv order.refl, of start False])
  fix h' p'
  assume z: "zero_range (start, PAGE) False p h = (Ok p', h')" "kp_inv h' (add_mset p' M)"
    "\<And>q. \<not> False \<Longrightarrow> q \<in># M \<Longrightarrow> view h' q = view h q"
  then show ?thesis by (simp add: zero_tail_def)
next
  fix x assume "zero_range (start, PAGE) False p h = (Err NoMem, h\<lparr>oom := x\<rparr>)"
  moreover have "kp_inv (h\<lparr>oom := x\<rparr>) (add_mset p M)" using inv by simp
  from drop_page_spec [OF this] obtain h' where "drop_page p (h\<lparr>oom := x\<rparr>) = (Ok (), h')" "kp_inv h' M"
    "\<And>q. q \<in># M \<Longrightarrow> view h' q = view h q" by auto
  ultimately show ?thesis by (simp add: zero_tail_def sbind_def)
qed

lemma clone_trampoline_spec:
  fixes s :: "'f mem"
  assumes inv: "kp_inv (hp s) (outside fhandles s + M)" and f: "fok (fs s)"
  shows "\<exists>r t. clone_trampoline s = (r, t) \<and> handed fhandles fok M r s t"
proof -
  have "kp_inv (hp s) (add_mset (trampoline s) (fhandles (fs s) + M))"
    using inv by (simp add: outside_def)
  then show ?thesis
  proof (rule clone_cases)
    fix h' p'
    assume c: "clone (trampoline s) (hp s) = (Ok (p', p'), h')"
      "kp_inv h' (add_mset p' (add_mset p' (fhandles (fs s) + M)))" "pages h' = pages (hp s)"
    have "clone_trampoline s = (Ok p', s\<lparr>hp := h', trampoline := p'\<rparr>)"
      using c(1) by (simp add: clone_trampoline_def on_hp_def sbind_def)
    moreover have "handed fhandles fok M (Ok p') s (s\<lparr>hp := h', trampoline := p'\<rparr>)"
      using c(2,3) f by (simp add: handed_def outside_def view_def stays_def)
    ultimately show ?thesis by blast
  next
    fix x assume "clone (trampoline s) (hp s) = (Err NoMem, (hp s)\<lparr>oom := x\<rparr>)"
    then have "clone_trampoline s = (Err NoMem, s\<lparr>hp := (hp s)\<lparr>oom := x\<rparr>\<rparr>)"
      by (simp add: clone_trampoline_def on_hp_def sbind_def)
    moreover have "handed fhandles fok M (Err NoMem) s (s\<lparr>hp := (hp s)\<lparr>oom := x\<rparr>\<rparr>)"
      using inv f by (simp add: handed_def outside_def stays_def)
    ultimately show ?thesis by blast
  qed
qed

lemma zero_tail_mem:
  fixes s :: "'f mem"
  assumes h: "handed fhandles fok M (Ok p) s t"
  shows "\<exists>r u. on_hp (zero_tail start p) t = (r, u) \<and> handed fhandles fok M r s u"
proof -
  have inv: "kp_inv (hp t) (add_mset p (outside fhandles t + M))" using h by (simp add: handed_def)
  from zero_tail_spec [OF this, of start] obtain r h' where z: "zero_tail start p (hp t) = (r, h')"
    "\<And>q. q \<in># outside fhandles t + M \<Longrightarrow> view h' q = view (hp t) q"
    "case r of Ok q \<Rightarrow> kp_inv h' (add_mset q (outside fhandles t + M))
      | Err e \<Rightarrow> kp_inv h' (outside fhandles t + M) | Panic \<Rightarrow> False" by blast
  have "on_hp (zero_tail start p) t = (r, t\<lparr>hp := h'\<rparr>)" using z(1) by (simp add: on_hp_def)
  moreover have "handed fhandles fok M r s (t\<lparr>hp := h'\<rparr>)"
    using h z(2,3) by (auto simp: handed_def outside_def stays_def split: outcome.splits)
  ultimately show ?thesis by blast
qed

section \<open>Steps of a fault\<close>

lemma length_somes: "length (somes xs) \<le> length xs"
  by (induction xs rule: somes.induct) simp_all

lemma size_ms_pages: "ms_ok lo ms \<Longrightarrow> lo * 4096 < 2 ^ 47 \<Longrightarrow> lo + size (ms_pages ms) < 2 ^ 35"
proof (induction ms arbitrary: lo)
  case (Cons x ms)
  obtain p m where x: "x = (p, m)" by (cases x)
  with Cons.prems have ok: "lo \<le> p" "ms_ok (p + npages m) ms" "(p + npages m) * 4096 < 2 ^ 47" by simp_all
  from Cons.IH [OF ok(2,3)] ok(1) length_somes [of "mpages m"] x show ?case by (simp add: mapping_pages_def)
qed simp

definition shape :: "'b cell option \<Rightarrow> ('b \<times> nat \<times> u8 \<times> bool) option" where
  "shape c = map_option (\<lambda>(b, off, perms, sh, x). (b, off, perms, sh)) c"

text \<open>The bytes the process sees at a page.\<close>

definition shown :: "'f mem \<Rightarrow> nat \<Rightarrow> bytes option" where
  "shown s q = map_option (view (hp s) \<circ> upage) (resident (mappings (vm s)) q)"

text \<open>The same, of the pages that are not shared with a file.\<close>

definition kept :: "('f \<Rightarrow> kernel_page multiset) \<Rightarrow> 'f mem \<Rightarrow> nat \<Rightarrow> bytes option" where
  "kept fhandles s q =
     (case resident (mappings (vm s)) q of None \<Rightarrow> None
      | Some u \<Rightarrow> if apart (fhandles (fs s)) (upage u) then Some (view (hp s) (upage u)) else None)"

lemma kept_Some:
  "kept fhandles s q = Some bs \<longleftrightarrow>
     (\<exists>u. resident (mappings (vm s)) q = Some u \<and> apart (fhandles (fs s)) (upage u) \<and> bs = view (hp s) (upage u))"
  by (auto simp: kept_def split: option.splits)

text \<open>
  What a fault at a page may do: the mappings stay as they are, no page but the one at \<open>q\<close> is
  exchanged, and what the process and everybody else sees does not change.
\<close>

definition faulted ::
  "('f \<Rightarrow> kernel_page multiset) \<Rightarrow> ('f \<Rightarrow> bool) \<Rightarrow> (addr \<Rightarrow> nat) \<Rightarrow> kernel_page multiset \<Rightarrow> nat
   \<Rightarrow> 'f mem \<Rightarrow> 'f mem \<Rightarrow> bool" where
  "faulted fhandles fok loc N q s t \<longleftrightarrow>
     mem_inv fhandles fok loc N t \<and>
     (\<forall>x. x \<in># N \<longrightarrow> stays (fhandles (fs s)) (hp s) (fhandles (fs t)) (hp t) x) \<and>
     (\<forall>q'. shape (cell (mappings (vm t)) q') = shape (cell (mappings (vm s)) q')) \<and>
     (\<forall>q'. q' \<noteq> q \<longrightarrow> resident (mappings (vm t)) q' = resident (mappings (vm s)) q') \<and>
     (\<forall>q' bs. kept fhandles s q' = Some bs \<longrightarrow> kept fhandles t q' = Some bs) \<and> brk_end (vm t) = brk_end (vm s)"

lemma faulted_refl: "mem_inv fhandles fok loc N s \<Longrightarrow> faulted fhandles fok loc N q s s"
  by (simp add: faulted_def stays_def)

lemma faulted_trans:
  "faulted fhandles fok loc N q s t \<Longrightarrow> faulted fhandles fok loc N q t u \<Longrightarrow> faulted fhandles fok loc N q s u"
  by (auto simp: faulted_def intro: stays_trans)

lemma faulted_usage:
  assumes "mem_inv fhandles fok loc N s" "rss (g (usage (vm s))) = rss (usage (vm s))"
  shows "\<exists>t. modify_usage g s = (Ok (), t) \<and> faulted fhandles fok loc N q s t \<and> mappings (vm t) = mappings (vm s)"
  using assms
  by (auto simp: modify_usage_def modify_vm_def faulted_def mem_inv_def space_ok_def vm_ok_def vm_handles_def
      outside_def kept_Some)

lemma tables_sound_no_page:
  "tables_sound loc ms T \<Longrightarrow> resident ms q = None \<Longrightarrow> q \<le> LAST_USER_PAGE \<Longrightarrow> pml4_view T q = 0"
  unfolding tables_sound_def by (metis option.distinct(1))

lemma cells_ok_slot:
  assumes "ms_ok 0 ms" "cells_ok ms" "(p, m) \<in> set ms" "i < npages m" "uperms u = permissions m" "ushared u = shared m"
  shows "cells_ok (set_slot p i (Some u) ms)"
proof -
  have "cell_ok (mapping_cell m i)"
    using slot_spec(4) [OF assms(1,3,4)] assms(2) unfolding cells_ok_def by blast
  then have "cell_ok (backing m, page_offset m + i, permissions m, shared m, Some u)"
    using assms(5,6) by (simp add: cell_ok_def mapping_cell_def)
  then show ?thesis
    unfolding cells_ok_def slot_spec(2) [OF assms(1,3,4)]
    using assms(2) by (auto simp: cells_ok_def split: if_splits)
qed

lemma resident_slot:
  assumes "ms_ok 0 ms" "(p, m) \<in> set ms" "i < npages m"
  shows "resident (set_slot p i x ms) q = (if q = p + i then x else resident ms q)"
    "shape (cell (set_slot p i x ms) q) = shape (cell ms q)"
    "resident ms (p + i) = mpages m ! i"
  using slot_spec(2) [OF assms, of x q] slot_spec(4) [OF assms]
  by (auto simp: resident_def shape_def mapping_cell_def)

text \<open>Resident pages are handles of the address space, each at its own page.\<close>

lemma mapping_slot_in: "i < length xs \<Longrightarrow> xs ! i = Some u \<Longrightarrow> u \<in> set (somes xs)"
proof (induction xs arbitrary: i rule: somes.induct)
  case (2 xs)
  then show ?case by (cases i) auto
next
  case (3 x xs)
  then show ?case by (cases i) auto
qed simp

lemma resident_in_pages: "ms_ok lo ms \<Longrightarrow> resident ms q = Some u \<Longrightarrow> u \<in># ms_pages ms"
proof (induction ms arbitrary: lo)
  case (Cons x ms)
  obtain p m where x: "x = (p, m)" by (cases x)
  show ?case
  proof (cases "p \<le> q \<and> q < p + npages m")
    case True
    then have "q - p < npages m" "mpages m ! (q - p) = Some u"
      using Cons.prems x by (auto simp: resident_def mapping_cell_def)
    from mapping_slot_in [OF this] show ?thesis by (simp add: x mapping_pages_def)
  next
    case False
    then have "resident ms q = Some u" using Cons.prems(2) x by (auto simp: resident_def)
    with Cons.IH [of "p + npages m"] Cons.prems(1) x show ?thesis by simp
  qed
qed (simp add: resident_def)

text \<open>A page that was not resident becomes resident.\<close>

lemma new_page:
  fixes s t :: "'f mem"
  assumes inv: "mem_inv fhandles fok loc N s" and h: "handed fhandles fok (vm_handles (vm s) + N) (Ok kp) s t"
    and p: "(p, m) \<in> set (mappings (vm s))" and i: "i < npages m" "mpages m ! i = None"
    and u: "u = UserPage_new kp (permissions m) (shared m)"
    and us: "rss us = rss (usage (vm s)) + 1"
  shows "faulted fhandles fok loc N (p + i) s
    (t\<lparr>vm := (vm s)\<lparr>mappings := set_slot p i (Some u) (mappings (vm s)), usage := us\<rparr>\<rparr>)"
proof -
  let ?ms = "mappings (vm s)" and ?ms' = "set_slot p i (Some u) (mappings (vm s))"
  let ?t = "t\<lparr>vm := (vm s)\<lparr>mappings := ?ms', usage := us\<rparr>\<rparr>"
  have ok: "vm_ok loc (vm s)" "fok (fs s)" using inv by (simp_all add: mem_inv_def space_ok_def)
  note ms = vm_okD(1) [OF ok(1)]
  note sl = slot_spec [OF ms p i(1)] and rs = resident_slot [OF ms p i(1)]
  have un: "uperms u = permissions m" "ushared u = shared m" "upage u = kp" by (simp_all add: u UserPage_new_def)
  have pages: "ms_pages ?ms' = add_mset u (ms_pages ?ms)" using sl(3) [of "Some u"] i(2) by simp
  have "kp_inv (hp t) (add_mset kp (outside fhandles t + (vm_handles (vm s) + N)))"
    "fok (fs t)" "vm t = vm s" 
    and view: "\<And>q. q \<in># vm_handles (vm s) + N \<Longrightarrow> stays (fhandles (fs s)) (hp s) (fhandles (fs t)) (hp t) q"
    using h by (auto simp: handed_def)
  then have "kp_inv (hp ?t) (vm_handles (vm ?t) + (outside fhandles ?t + N))"
    using pages un(3) by (simp add: vm_handles_def outside_def ac_simps add_mset_commute)
  moreover have "tables_sound loc ?ms' (pagetables (vm s))"
    by (rule tables_sound_update [OF vm_okD(4) [OF ok(1)], where S = "{p + i}" and S' = "{p + i}"])
      (use rs tables_sound_no_page [OF vm_okD(4) [OF ok(1)], of "p + i"] i(2) in auto)
  ultimately have "mem_inv fhandles fok loc N ?t"
    using sl(1) [of "Some u"] cells_ok_slot [OF ms vm_okD(2) [OF ok(1)] p i(1) un(1,2)] vm_okD(3,5) [OF ok(1)]
      us pages \<open>fok (fs t)\<close> by (simp add: mem_inv_def space_ok_def vm_ok_def)
  moreover have "kept fhandles ?t q = Some bs" if "kept fhandles s q = Some bs" for q bs
  proof -
    from that obtain v where v: "resident ?ms q = Some v" "bs = view (hp s) (upage v)" "apart (fhandles (fs s)) (upage v)"
      by (auto simp: kept_Some)
    with rs i(2) have "resident ?ms' q = Some v" by auto
    moreover have "v \<in># ms_pages ?ms" using resident_in_pages [OF ms v(1)] .
    then have "view (hp t) (upage v) = bs" "apart (fhandles (fs t)) (upage v)"
      using view [of "upage v"] v(2,3) by (simp_all add: vm_handles_def stays_def)
    ultimately show ?thesis by (auto simp: kept_Some)
  qed
  ultimately show ?thesis
    using view rs by (auto simp: faulted_def)
qed

text \<open>A write fault: the page is taken out of the tables, then made mutable.\<close>

lemma make_page_mut_spec:
  fixes s :: "'f mem"
  assumes inv: "mem_inv fhandles fok loc N s" and p: "(p, m) \<in> set (mappings (vm s))" "p \<le> q"
    and i: "q - p < npages m" "mpages m ! (q - p) = Some u"
  shows "\<exists>r t. make_page_mut q p u s = (r, t) \<and> faulted fhandles fok loc N q s t \<and>
    (case r of
       Ok u' \<Rightarrow> resident (mappings (vm t)) q = Some u' \<and> uperms u' = uperms u \<and> ushared u' = ushared u \<and>
         mutable (ushared u') (upage u')
     | Err e \<Rightarrow> e = NoMem | Panic \<Rightarrow> False)"
proof -
  let ?ms = "mappings (vm s)" and ?i = "q - p"
  have ok: "vm_ok loc (vm s)" and kp: "kp_inv (hp s) (vm_handles (vm s) + (outside fhandles s + N))"
    and fk: "fok (fs s)" using inv by (simp_all add: mem_inv_def space_ok_def)
  note ms = vm_okD(1) [OF ok]
  have q: "p + ?i = q" using p(2) by simp
  note sl = slot_spec [OF ms p(1) i(1), unfolded q] and rs = resident_slot [OF ms p(1) i(1), unfolded q]
  obtain T where T: "try_unmap_user_pages (Included q) (Included q) (pagetables (vm s)) = Ok T" "pml4_ok T"
    "\<And>x. x \<le> LAST_USER_PAGE \<Longrightarrow> pml4_view T x =
       (if min q LAST_USER_PAGE \<le> x \<and> x \<le> q then 0 else pml4_view (pagetables (vm s)) x)"
    using try_unmap_spec [OF vm_okD(3) [OF ok], of q q] by blast
  obtain P where P: "ms_pages ?ms = add_mset u P"
    using resident_in_pages [OF ms, of q u] rs(3) i(2) by (metis mset_add)
  let ?R = "image_mset upage P + (outside fhandles s + N)"
  have kp': "kp_inv (hp s) (add_mset (upage u) ?R)" using kp P by (simp add: vm_handles_def ac_simps)
  have R: "x \<in># ?R" if "x \<in># N" for x using that by simp
  have sound: "tables_sound loc ms' T" if "\<And>x. x \<noteq> q \<Longrightarrow> resident ms' x = resident ?ms x" for ms' :: "backing mappings"
    by (rule tables_sound_update [OF vm_okD(4) [OF ok], where S = "{q}" and S' = "{min q LAST_USER_PAGE..q}"])
      (use that T(3) in auto)
  have cp: "uperms u = permissions m \<and> ushared u = shared m"
  proof -
    have "cell_ok (mapping_cell m ?i)" using vm_okD(2) [OF ok] sl(4) unfolding cells_ok_def by blast
    then show ?thesis using i(2) by (simp add: cell_ok_def mapping_cell_def)
  qed
  show ?thesis
  proof (rule make_mut_cases [OF kp', of "ushared u"])
    fix h kq
    assume k: "make_mut (ushared u) (upage u) (hp s) = (Ok kq, h)" "kp_inv h (add_mset kq ?R)" "content kq \<noteq> 0"
      "view h kq = view (hp s) (upage u)" "\<And>x. x \<in># ?R \<Longrightarrow> view h x = view (hp s) x"
      "ushared u \<Longrightarrow> content (upage u) \<noteq> 0 \<Longrightarrow> kq = upage u \<and> h = hp s"
      "\<not> ushared u \<or> content (upage u) = 0 \<Longrightarrow> Kernel_Page.reference_count kq = None"
    let ?u = "u\<lparr>upage := kq\<rparr>"
    let ?t = "s\<lparr>hp := h, vm := (vm s)\<lparr>pagetables := T, mappings := set_slot p ?i (Some ?u) ?ms\<rparr>\<rparr>"
    have run: "make_page_mut q p u s = (Ok ?u, ?t)"
      using T(1) k(1) by (simp add: make_page_mut_def modify_tables_def sbind_def on_hp_def modify_vm_def Let_def)
    have pages: "ms_pages (set_slot p ?i (Some ?u) ?ms) = add_mset ?u P"
      using sl(3) [of "Some ?u"] i(2) P by simp
    have "kp_inv h (vm_handles (vm ?t) + (outside fhandles ?t + N))"
      using k(2) pages by (simp add: vm_handles_def outside_def ac_simps add_mset_commute)
    moreover have "cells_ok (set_slot p ?i (Some ?u) ?ms)"
      by (rule cells_ok_slot [OF ms vm_okD(2) [OF ok] p(1) i(1)]) (use cp in simp_all)
    ultimately have inv': "mem_inv fhandles fok loc N ?t"
      using sl(1) [of "Some ?u"] T(2) fk sound [of "set_slot p ?i (Some ?u) ?ms"] rs vm_okD(5) [OF ok] pages P
      by (simp add: mem_inv_def space_ok_def vm_ok_def)
    have new: "apart (fhandles (fs s)) kq" if "apart (fhandles (fs s)) (upage u)"
      using k(3,6,7) kp_inv_unique [OF k(2,3)] that by (cases "ushared u \<and> content (upage u) \<noteq> 0") (auto simp: apart_def outside_def)
    have "kept fhandles ?t x = Some bs" if sh: "kept fhandles s x = Some bs" for x bs
    proof (cases "x = q")
      case True
      then show ?thesis using sh rs i(2) k(4) new by (auto simp: kept_Some)
    next
      case False
      obtain v where v: "resident ?ms x = Some v" "bs = view (hp s) (upage v)" "apart (fhandles (fs s)) (upage v)"
        using sh by (auto simp: kept_Some)
      have "ms_pages (set_slot p ?i None ?ms) = P" using sl(3) [of None] i(2) P by simp
      then have "v \<in># P" using resident_in_pages [OF sl(1) [of None], of x v] rs(1) [of None x] False v(1) by simp
      then have "view h (upage v) = view (hp s) (upage v)" using k(5) by simp
      then show ?thesis using v rs False by (auto simp: kept_Some)
    qed
    with inv' have "faulted fhandles fok loc N q s ?t" using k(5) rs by (auto simp: faulted_def stays_def)
    moreover have "mutable (ushared u) kq" using k(3,7) by (auto simp: mutable_def is_zero_page_def)
    ultimately show ?thesis using run rs by auto
  next
    fix x assume k: "make_mut (ushared u) (upage u) (hp s) = (Err NoMem, (hp s)\<lparr>oom := x\<rparr>)"
    let ?t = "s\<lparr>hp := (hp s)\<lparr>oom := x\<rparr>, vm := (vm s)\<lparr>pagetables := T\<rparr>\<rparr>"
    have "make_page_mut q p u s = (Err NoMem, ?t)"
      using T(1) k by (simp add: make_page_mut_def modify_tables_def sbind_def on_hp_def)
    moreover have "faulted fhandles fok loc N q s ?t"
      using inv T(2) sound [of ?ms] kp
      by (auto simp: faulted_def mem_inv_def space_ok_def vm_ok_def vm_handles_def outside_def kept_Some)
    ultimately show ?thesis by simp
  qed
qed

text \<open>The last step: the entry of the page goes into the tables.\<close>

lemma missing_flags:
  assumes "has_flags (WRITABLE OR EXECUTABLE) required" "\<not> has_flags fl required"
  shows "has_flags required WRITABLE \<and> \<not> has_flags fl WRITABLE \<or>
    has_flags required EXECUTABLE \<and> \<not> has_flags fl EXECUTABLE"
proof (rule ccontr)
  assume "\<not> ?thesis"
  then have b: "bit required 0 \<longrightarrow> bit fl 0" "bit required 1 \<longrightarrow> bit fl 1" by (auto simp: has_flag_bits)
  have "n = 0 \<or> n = 1" if "bit required n" for n
  proof -
    have "bit (WRITABLE OR EXECUTABLE) n" using that assms(1) by (metis has_flags_def bit_and_iff)
    then have "bit WRITABLE n \<or> bit EXECUTABLE n" by (simp only: bit_or_iff)
    then show ?thesis unfolding WRITABLE_def EXECUTABLE_def bit_exp_iff by blast
  qed
  then have "bit required n \<Longrightarrow> bit fl n" for n using b by (metis One_nat_def)
  then have "has_flags fl required" by (auto simp: has_flags_def bit_and_iff intro!: bit_word_eqI)
  with assms(2) show False by simp
qed

lemma cell_of_resident:
  assumes "mem_inv fhandles fok loc N t" "shape (cell (mappings (vm t)) q) = shape (cell ms q)"
    "resident (mappings (vm t)) q = Some u"
  shows "\<exists>b off x. cell ms q = Some (b, off, uperms u, ushared u, x)"
proof -
  obtain b off perms sh where c: "cell (mappings (vm t)) q = Some (b, off, perms, sh, Some u)"
    using assms(3) by (auto simp: resident_def split: option.splits)
  moreover have "cells_ok (mappings (vm t))" using assms(1) by (simp add: mem_inv_def space_ok_def vm_ok_def)
  ultimately have "cell_ok (b, off, perms, sh, Some u)" unfolding cells_ok_def by blast
  then have "perms = uperms u" "sh = ushared u" by (simp_all add: cell_ok_def)
  with assms(2) c show ?thesis by (cases "cell ms q") (auto simp: shape_def)
qed

lemma user_page_index: "q < 2 ^ 35 \<Longrightarrow> p4_index q < 256"
  by (simp add: idx_def less_mult_imp_div_less)

lemma install_spec:
  fixes s :: "'f mem"
  assumes inv: "mem_inv fhandles fok loc N s" and l: "loc_ok loc" and rq: "has_flags (WRITABLE OR EXECUTABLE) required"
    and u: "resident (mappings (vm s)) q = Some u"
  shows "\<exists>r t. sbind (smap_err Other (slift (user_page_entry loc u))) (\<lambda>entry.
      if \<not> has_flags (entry_flags entry) required then slift (Err (MissingPermissions Fault))
      else smap_err Other (modify_tables (Page_Walk.set_page q entry))) s = (r, t) \<and>
    faulted fhandles fok loc N q s t \<and>
    (case r of
       Ok _ \<Rightarrow> pml4_view (pagetables (vm t)) q \<noteq> 0 \<and>
         has_flags (entry_flags (pml4_view (pagetables (vm t)) q)) required
     | Err e \<Rightarrow> e = MissingPermissions Fault \<and>
         (has_flags required WRITABLE \<and> \<not> (has_flags (uperms u) PERM_WRITE \<and> mutable (ushared u) (upage u)) \<or>
          has_flags required EXECUTABLE \<and> \<not> has_flags (uperms u) PERM_EXECUTE)
     | Panic \<Rightarrow> False)"
proof -
  have ok: "vm_ok loc (vm s)" using inv by (simp add: mem_inv_def space_ok_def)
  obtain e where e: "user_page_entry loc u = Ok e" "pte_ok loc u e"
    "has_flags (entry_flags e) WRITABLE \<longleftrightarrow> has_flags (uperms u) PERM_WRITE \<and> mutable (ushared u) (upage u)"
    "has_flags (entry_flags e) EXECUTABLE \<longleftrightarrow> has_flags (uperms u) PERM_EXECUTE"
    using user_page_entry_Ok [of loc u] l by blast
  show ?thesis
  proof (cases "has_flags (entry_flags e) required")
    case False
    with missing_flags [OF rq False] e faulted_refl [OF inv] show ?thesis
      by (auto simp: sbind_def smap_err_def)
  next
    case True
    have q: "q < 2 ^ 35" using cell_bound [OF vm_okD(1) [OF ok], of q] u by (cases "cell (mappings (vm s)) q") (auto simp: resident_def)
    have "bit e PRESENT_BIT" "bit e USER_BIT" "\<not> bit e GLOBAL_BIT" using e(2) by (simp_all add: pte_ok_def)
    from set_page_spec [OF vm_okD(3) [OF ok] this, of q] q user_page_index [OF q] obtain T where
      T: "Page_Walk.set_page q e (pagetables (vm s)) = Ok T" "pml4_ok T"
      "\<And>x. x < 512 ^ 4 \<Longrightarrow> pml4_view T x = (if x = q then e else pml4_view (pagetables (vm s)) x)" by auto
    let ?t = "s\<lparr>vm := (vm s)\<lparr>pagetables := T\<rparr>\<rparr>"
    have "tables_sound loc (mappings (vm s)) T"
      using vm_okD(4) [OF ok] T(3) e(2) u by (auto simp: tables_sound_def LAST_USER_PAGE_def)
    then have "faulted fhandles fok loc N q s ?t"
      using inv T(2) by (auto simp: faulted_def mem_inv_def space_ok_def vm_ok_def vm_handles_def outside_def kept_Some)
    moreover have "e \<noteq> 0" using e(2) by (auto simp: pte_ok_def)
    ultimately show ?thesis
      using e(1) T(1) T(3) [of q] True q by (simp add: sbind_def smap_err_def modify_tables_def)
  qed
qed

text \<open>What \<^verbatim>\<open>map_page\<close> does once it has the page.\<close>

definition rest_of_map_page ::
  "(addr \<Rightarrow> nat) \<Rightarrow> nat \<Rightarrow> u8 \<Rightarrow> nat \<Rightarrow> user_page \<Rightarrow> ('f mem, unit, page_fault_error) failing" where
  "rest_of_map_page loc page required p u =
     (if uperms u AND (PERM_READ OR PERM_WRITE) = 0 then slift (Err (MissingPermissions Fault))
      else
        sbind (if has_flags required WRITABLE \<and> has_flags (uperms u) PERM_WRITE
               then smap_err Other (make_page_mut page p u) else sret u) (\<lambda>u.
        sbind (smap_err Other (slift (user_page_entry loc u))) (\<lambda>entry.
          if \<not> has_flags (entry_flags entry) required then slift (Err (MissingPermissions Fault))
          else smap_err Other (modify_tables (Page_Walk.set_page page entry)))))"

definition mapped_result :: "nat \<Rightarrow> u8 \<Rightarrow> user_page \<Rightarrow> (unit, page_fault_error) outcome \<Rightarrow> 'f mem \<Rightarrow> bool" where
  "mapped_result q required u r t \<longleftrightarrow>
     (case r of
        Ok _ \<Rightarrow> pml4_view (pagetables (vm t)) q \<noteq> 0 \<and>
          has_flags (entry_flags (pml4_view (pagetables (vm t)) q)) required
      | Err e \<Rightarrow> e = Other NoMem \<or> e = MissingPermissions Fault \<and>
          (uperms u AND (PERM_READ OR PERM_WRITE) = 0 \<or>
           has_flags required WRITABLE \<and> \<not> has_flags (uperms u) PERM_WRITE \<or>
           has_flags required EXECUTABLE \<and> \<not> has_flags (uperms u) PERM_EXECUTE)
      | Panic \<Rightarrow> False)"

lemma rest_of_map_page_spec:
  fixes s :: "'f mem"
  assumes inv: "mem_inv fhandles fok loc N s" and l: "loc_ok loc" and rq: "has_flags (WRITABLE OR EXECUTABLE) required"
    and p: "(p, m) \<in> set (mappings (vm s))" "p \<le> q" and i: "q - p < npages m" "mpages m ! (q - p) = Some u"
  shows "\<exists>r t. rest_of_map_page loc q required p u s = (r, t) \<and> faulted fhandles fok loc N q s t \<and>
    mapped_result q required u r t"
proof -
  let ?w = "has_flags required WRITABLE \<and> has_flags (uperms u) PERM_WRITE"
  let ?inst = "\<lambda>u. sbind (smap_err Other (slift (user_page_entry loc u))) (\<lambda>entry.
      if \<not> has_flags (entry_flags entry) required then slift (Err (MissingPermissions Fault))
      else smap_err Other (modify_tables (Page_Walk.set_page q entry)))"
  have ms: "ms_ok 0 (mappings (vm s))" using inv by (simp add: mem_inv_def space_ok_def vm_ok_def)
  have u: "resident (mappings (vm s)) q = Some u" using resident_slot(3) [OF ms p(1) i(1)] i(2) p(2) by simp
  consider "uperms u AND (PERM_READ OR PERM_WRITE) = 0"
    | "uperms u AND (PERM_READ OR PERM_WRITE) \<noteq> 0" "\<not> ?w" | "uperms u AND (PERM_READ OR PERM_WRITE) \<noteq> 0" ?w by blast
  then show ?thesis
  proof cases
    case 1
    then show ?thesis using faulted_refl [OF inv] by (simp add: rest_of_map_page_def mapped_result_def)
  next
    case 2
    have "rest_of_map_page loc q required p u s = ?inst u s"
      unfolding rest_of_map_page_def if_not_P [OF 2(1)] if_not_P [OF 2(2)] sbind_sret ..
    with install_spec [OF inv l rq u] 2 show ?thesis by (auto simp: mapped_result_def split: outcome.splits)
  next
    case 3
    obtain r1 s1 where m: "make_page_mut q p u s = (r1, s1)" "faulted fhandles fok loc N q s s1"
      "case r1 of
         Ok u' \<Rightarrow> resident (mappings (vm s1)) q = Some u' \<and> uperms u' = uperms u \<and> ushared u' = ushared u \<and>
           mutable (ushared u') (upage u')
       | Err e \<Rightarrow> e = NoMem | Panic \<Rightarrow> False" using make_page_mut_spec [OF inv p i] by blast
    have run: "rest_of_map_page loc q required p u s =
        (case r1 of Ok u' \<Rightarrow> ?inst u' s1 | Err e \<Rightarrow> (Err (Other e), s1) | Panic \<Rightarrow> (Panic, s1))"
      using 3 m(1) by (simp add: rest_of_map_page_def sbind_def smap_err_def split: outcome.split)
    show ?thesis
    proof (cases r1)
      case (Ok u')
      have "mem_inv fhandles fok loc N s1" using m(2) by (simp add: faulted_def)
      from install_spec [OF this l rq] m(3) Ok obtain r t where t: "?inst u' s1 = (r, t)" "faulted fhandles fok loc N q s1 t"
        "case r of
           Ok _ \<Rightarrow> pml4_view (pagetables (vm t)) q \<noteq> 0 \<and>
             has_flags (entry_flags (pml4_view (pagetables (vm t)) q)) required
         | Err e \<Rightarrow> e = MissingPermissions Fault \<and>
             (has_flags required WRITABLE \<and> \<not> (has_flags (uperms u') PERM_WRITE \<and> mutable (ushared u') (upage u')) \<or>
              has_flags required EXECUTABLE \<and> \<not> has_flags (uperms u') PERM_EXECUTE)
         | Panic \<Rightarrow> False" by fastforce
      have "mapped_result q required u r t" using t(3) m(3) Ok by (auto simp: mapped_result_def split: outcome.splits)
      then show ?thesis using run Ok t(1) faulted_trans [OF m(2) t(2)] by auto
    qed (use run m in \<open>auto simp: mapped_result_def\<close>)
  qed
qed

context file_pages
begin

lemma file_page_mem:
  fixes s :: "'f mem"
  assumes inv: "kp_inv (hp s) (outside fhandles s + M)" and f: "fok (fs s)"
  shows "\<exists>r t. on_files (fp k i sh) s = (r, t) \<and> handed fhandles fok M r s t"
proof -
  obtain r h' x' where r: "fp k i sh (hp s, fs s) = (r, (h', x'))"
    by (cases "fp k i sh (hp s, fs s)") auto
  have "kp_inv (hp s) (fhandles (fs s) + add_mset (trampoline s) M)" using inv by (simp add: outside_def)
  from file_page [OF this f r]
  have "handed fhandles fok M r s (s\<lparr>hp := h', fs := x'\<rparr>)"
    by (auto simp: handed_def outside_def split: outcome.splits)
  then show ?thesis using r by (simp add: on_files_def)
qed

lemma get_initial_page_spec:
  fixes s :: "'f mem"
  assumes inv: "kp_inv (hp s) (outside fhandles s + M)" and f: "fok (fs s)" and b: "backing_ok b off"
  shows "\<exists>r t. get_initial_page fp b off s = (r, t) \<and> handed fhandles fok M r s t"
proof (cases b)
  case ZeroBacking
  then show ?thesis using inv f kp_inv_zeroed by (simp add: get_initial_page_def handed_def)
next
  case (FileBacking k zero sh pad)
  have off: "off * 4096 < usize_bound" using b by (simp add: backing_ok_def)
  obtain r t where r: "on_files (fp k off sh) s = (r, t)" "handed fhandles fok M r s t"
    using file_page_mem [OF inv f, of k off sh] by blast
  let ?n = "zero - off * 4096"
  consider "?n = 0" | "0 < ?n" "?n \<le> 0xfff" | "0xfff < ?n" by linarith
  then show ?thesis
  proof cases
    case 1
    then have "get_initial_page fp b off s = (ensure pad Acces (Ok zeroed), s)"
      using off by (simp add: get_initial_page_def FileBacking)
    moreover have "handed fhandles fok M (ensure pad Acces (Ok zeroed)) s s"
      using inv f kp_inv_zeroed by (simp add: handed_def ensure_def)
    ultimately show ?thesis by blast
  next
    case 2
    then have run: "get_initial_page fp b off s =
        (case r of Ok p \<Rightarrow> if \<not> sh then on_hp (zero_tail ?n p) t else (Ok p, t) | Err e \<Rightarrow> (Err e, t) | Panic \<Rightarrow> (Panic, t))"
      using off r(1) by (simp add: get_initial_page_def FileBacking sbind_def split: outcome.split)
    show ?thesis
    proof (cases r)
      case (Ok p)
      then show ?thesis using run r(2) zero_tail_mem [of fhandles fok M p s t ?n] by (cases sh) auto
    qed (use run r(2) in auto)
  next
    case 3
    then have "\<not> zero \<le> off * 4096" by linarith
    with 3 have "get_initial_page fp b off s = (r, t)"
      using off r(1) by (simp add: get_initial_page_def FileBacking)
    with r(2) show ?thesis by blast
  qed
next
  case TrampolineCode
  then have "get_initial_page fp b off s = clone_trampoline s"
    using b by (simp add: get_initial_page_def backing_ok_def)
  with clone_trampoline_spec [of s fhandles M fok, OF inv f] show ?thesis by simp
qed

lemma mapping_get_page_spec:
  fixes s :: "'f mem"
  assumes inv: "mem_inv fhandles fok loc N s" and p: "(p, m) \<in> set (mappings (vm s))" "p \<le> q"
    and f: "npages m \<le> q - p \<longrightarrow> cell (mappings (vm s)) q = None"
  shows "\<exists>r t. mapping_get_page fp p m (q - p) s = (r, t) \<and> faulted fhandles fok loc N q s t \<and>
    pagetables (vm t) = pagetables (vm s) \<and>
    (case r of
       Ok u \<Rightarrow> (\<exists>m'. (p, m') \<in> set (mappings (vm t)) \<and> q - p < npages m' \<and> mpages m' ! (q - p) = Some u)
     | Err e \<Rightarrow> (e = Unmapped Fault \<longleftrightarrow> cell (mappings (vm s)) q = None) \<and> (\<forall>k. e \<noteq> MissingPermissions k)
     | Panic \<Rightarrow> False)"
proof -
  let ?ms = "mappings (vm s)" and ?i = "q - p"
  have sp: "space_ok loc (outside fhandles s + N) s" and fk: "fok (fs s)" using inv by (simp_all add: mem_inv_def)
  have ok: "vm_ok loc (vm s)" and kp: "kp_inv (hp s) (vm_handles (vm s) + (outside fhandles s + N))"
    using sp by (simp_all add: space_ok_def)
  note ms = vm_okD(1) [OF ok]
  have q: "p + ?i = q" using p(2) by simp
  show ?thesis
  proof (cases "?i < npages m")
    case False
    then show ?thesis using f faulted_refl [OF inv] by (simp add: mapping_get_page_def)
  next
    case i: True
    have c: "cell ?ms q = Some (mapping_cell m ?i)" using slot_spec(4) [OF ms p(1) i] q by simp
    show ?thesis
    proof (cases "mpages m ! ?i")
      case (Some u)
      then show ?thesis using p i faulted_refl [OF inv] by (auto simp: mapping_get_page_def)
    next
      case None
      have "cell_ok (mapping_cell m ?i)" using vm_okD(2) [OF ok] c unfolding cells_ok_def by blast
      then have b: "backing_ok (backing m) (page_offset m + ?i)" by (simp add: cell_ok_def mapping_cell_def)
      then have add: "uadd (page_offset m) ?i = (Ok (page_offset m + ?i) :: (nat, page_fault_error) outcome)"
        by (simp add: uadd_def backing_ok_def)
      have "kp_inv (hp s) (outside fhandles s + (vm_handles (vm s) + N))" using kp by (simp add: ac_simps)
      from get_initial_page_spec [OF this fk b] obtain r t where
        g: "get_initial_page fp (backing m) (page_offset m + ?i) s = (r, t)"
        "handed fhandles fok (vm_handles (vm s) + N) r s t" by blast
      have vt: "vm t = vm s" using g(2) by (simp add: handed_def)
      show ?thesis
      proof (cases r)
        case (Ok kp)
        let ?u = "UserPage_new kp (permissions m) (shared m)"
        have "rss (usage (vm s)) = of_nat (size (ms_pages ?ms))" "size (ms_pages ?ms) < 2 ^ 35"
          using vm_okD(5) [OF ok] size_ms_pages [OF ms] by simp_all
        then have "unat (rss (usage (vm s))) < 2 ^ 35" by (simp add: unat_of_nat take_bit_nat_eq_self)
        then have "wadd (rss (usage (vm s))) 1 = (Ok (rss (usage (vm s)) + 1) :: (u64, page_fault_error) outcome)"
          by (simp add: wadd_def)
        then obtain us where us: "increase_rss (record_major_page_fault (usage (vm s))) = (Ok us :: (memory_usage, page_fault_error) outcome)"
          "rss us = rss (usage (vm s)) + 1"
          by (simp add: increase_rss_def record_major_page_fault_def)
        let ?t = "t\<lparr>vm := (vm s)\<lparr>mappings := set_slot p ?i (Some ?u) ?ms, usage := us\<rparr>\<rparr>"
        have run: "mapping_get_page fp p m ?i s = (Ok ?u, ?t)"
          using i None add g(1) Ok us(1) vt
          by (simp add: mapping_get_page_def sbind_def smap_err_def modify_vm_def modify_usage_def get_vm_def Let_def)
        have "faulted fhandles fok loc N q s ?t"
          using new_page [OF inv g(2) [unfolded Ok] p(1) i None refl us(2)] q by simp
        moreover obtain pre ns where
          "\<And>i x. set_slot p i x ?ms = pre @ (p, m\<lparr>mpages := (mpages m)[i := x]\<rparr>) # ns" using ms_split [OF ms p(1)] by metis
        then have "\<exists>m'. (p, m') \<in> set (mappings (vm ?t)) \<and> ?i < npages m' \<and> mpages m' ! ?i = Some ?u"
          using i by (intro exI [of _ "m\<lparr>mpages := (mpages m)[?i := Some ?u]\<rparr>"]) simp
        ultimately show ?thesis using run vt by auto
      next
        case (Err e)
        have "mapping_get_page fp p m ?i s = (Err (Other e), t)"
          using i None add g(1) Err by (simp add: mapping_get_page_def sbind_def smap_err_def)
        moreover have "faulted fhandles fok loc N q s t"
          using g(2) Err inv resident_in_pages [OF ms] kp
          by (auto simp: faulted_def mem_inv_def space_ok_def handed_def kept_Some stays_def ac_simps vm_handles_def)
        ultimately show ?thesis using c vt by simp
      qed (use g(2) in \<open>simp add: handed_def\<close>)
    qed
  qed
qed

lemma map_page_spec:
  fixes s :: "'f mem"
  assumes inv: "mem_inv fhandles fok loc N s" and l: "loc_ok loc" and rq: "has_flags (WRITABLE OR EXECUTABLE) required"
  shows "\<exists>r t. map_page fp loc q required s = (r, t) \<and> faulted fhandles fok loc N q s t \<and>
    (case r of
       Ok _ \<Rightarrow> pml4_view (pagetables (vm t)) q \<noteq> 0 \<and>
         has_flags (entry_flags (pml4_view (pagetables (vm t)) q)) required
     | Err e \<Rightarrow> (cell (mappings (vm s)) q = None \<longleftrightarrow> e = Unmapped Fault) \<and>
         (e = MissingPermissions Fault \<longrightarrow> (\<exists>b off perms sh x. cell (mappings (vm s)) q = Some (b, off, perms, sh, x) \<and>
            (perms AND (PERM_READ OR PERM_WRITE) = 0 \<or>
             has_flags required WRITABLE \<and> \<not> has_flags perms PERM_WRITE \<or>
             has_flags required EXECUTABLE \<and> \<not> has_flags perms PERM_EXECUTE)))
     | Panic \<Rightarrow> False)"
proof -
  let ?fl = "faulted fhandles fok loc N q"
  obtain s1 where s1: "modify_usage record_minor_page_fault s = (Ok () :: (unit, page_fault_error) outcome, s1)" "?fl s s1" "mappings (vm s1) = mappings (vm s)"
    using faulted_usage [OF inv, of record_minor_page_fault q] by (auto simp: record_minor_page_fault_def)
  have inv1: "mem_inv fhandles fok loc N s1" using s1(2) by (simp add: faulted_def)
  have ms: "ms_ok 0 (mappings (vm s))" using inv by (simp add: mem_inv_def space_ok_def vm_ok_def)
  note fm = find_mapping_spec [OF ms, of q]
  show ?thesis
  proof (cases "find_mapping q (mappings (vm s))")
    case None
    then show ?thesis using s1 fm by (simp add: map_page_def sbind_def get_vm_def)
  next
    case (Some pm)
    obtain p m where pm: "pm = (p, m)" by (cases pm)
    have p: "(p, m) \<in> set (mappings (vm s1))" "p \<le> q" "npages m \<le> q - p \<longrightarrow> cell (mappings (vm s1)) q = None"
      using fm Some pm s1(3) by simp_all
    obtain r2 s2 where g: "mapping_get_page fp p m (q - p) s1 = (r2, s2)" "?fl s1 s2"
      "case r2 of
         Ok u \<Rightarrow> (\<exists>m'. (p, m') \<in> set (mappings (vm s2)) \<and> q - p < npages m' \<and> mpages m' ! (q - p) = Some u)
       | Err e \<Rightarrow> (e = Unmapped Fault \<longleftrightarrow> cell (mappings (vm s1)) q = None) \<and> (\<forall>k. e \<noteq> MissingPermissions k)
       | Panic \<Rightarrow> False"
      using mapping_get_page_spec [OF inv1 p] by blast
    have f2: "?fl s s2" by (rule faulted_trans [OF s1(2) g(2)])
    have run: "map_page fp loc q required s = (case r2 of
        Ok u \<Rightarrow> rest_of_map_page loc q required p u s2 | Err e \<Rightarrow> (Err e, s2) | Panic \<Rightarrow> (Panic, s2))"
      using s1(1,3) Some pm g(1) by (simp add: map_page_def rest_of_map_page_def sbind_def get_vm_def split: outcome.split)
    show ?thesis
    proof (cases r2)
      case (Ok u)
      from g(3) Ok obtain m' where m': "(p, m') \<in> set (mappings (vm s2))" "q - p < npages m'" "mpages m' ! (q - p) = Some u"
        by auto
      have inv2: "mem_inv fhandles fok loc N s2" using f2 by (simp add: faulted_def)
      obtain r t where t: "rest_of_map_page loc q required p u s2 = (r, t)" "?fl s2 t" "mapped_result q required u r t"
        using rest_of_map_page_spec [OF inv2 l rq m'(1) p(2) m'(2,3)] by blast
      have ms2: "ms_ok 0 (mappings (vm s2))" using inv2 by (simp add: mem_inv_def space_ok_def vm_ok_def)
      have "resident (mappings (vm s2)) q = Some u"
        using resident_slot(3) [OF ms2 m'(1,2)] m'(3) p(2) by simp
      with cell_of_resident [OF inv2, of q "mappings (vm s)" u] f2
      obtain b off x where c: "cell (mappings (vm s)) q = Some (b, off, uperms u, ushared u, x)"
        by (auto simp: faulted_def)
      show ?thesis using run Ok t faulted_trans [OF f2 t(2)] c
        by (cases r) (auto simp: mapped_result_def)
    qed (use run g(3) f2 s1(3) in auto)
  qed
qed

end

end
