(* ===== verification/Fork.thy ===== *)
theory Fork
  imports Page_Faults
begin

text \<open>
  Forking an address space (\<^verbatim>\<open>VirtualMemory::clone\<close> in
  \<^verbatim>\<open>tee/kernel/src/user/process/memory.rs\<close>): parent and child show the same bytes, share their
  pages, and neither can write to a shared page behind the other's back.
\<close>

section \<open>Copies of mappings\<close>

text \<open>A slot that holds the same page, possibly through another handle.\<close>

definition slot_like :: "user_page option \<Rightarrow> user_page option \<Rightarrow> bool" where
  "slot_like x y \<longleftrightarrow>
     rel_option (\<lambda>u v. uperms v = uperms u \<and> ushared v = ushared u \<and> content (upage v) = content (upage u)) x y"

definition mapping_like :: "nat \<times> 'b mapping \<Rightarrow> nat \<times> 'b mapping \<Rightarrow> bool" where
  "mapping_like x y \<longleftrightarrow> fst y = fst x \<and> snd y = (snd x)\<lparr>mpages := mpages (snd y)\<rparr> \<and>
     list_all2 slot_like (mpages (snd x)) (mpages (snd y))"

abbreviation mappings_like :: "'b mappings \<Rightarrow> 'b mappings \<Rightarrow> bool" where
  "mappings_like \<equiv> list_all2 mapping_like"

lemma slot_like_refl [simp]: "slot_like x x"
  by (cases x) (simp_all add: slot_like_def)

lemma slots_like_refl [simp]: "list_all2 slot_like xs xs"
  by (simp add: list_all2_refl)

lemma mappings_like_refl [simp]: "mappings_like ms ms"
  by (auto simp: mapping_like_def intro: list_all2_refl)

lemma size_slots_like: "list_all2 slot_like xs ys \<Longrightarrow> length (somes ys) = length (somes xs)"
proof (induction xs ys rule: list_all2_induct)
  case (Cons x xs y ys)
  then show ?case by (cases x; cases y) (simp_all add: slot_like_def)
qed simp

lemma mappings_like_facts:
  assumes "mappings_like ms ms'"
  shows "ms_ok lo ms' \<longleftrightarrow> ms_ok lo ms" "shape (cell ms' q) = shape (cell ms q)"
    "slot_like (resident ms q) (resident ms' q)" "size (ms_pages ms') = size (ms_pages ms)"
  using assms
proof (induction ms ms' arbitrary: lo rule: list_all2_induct)
  case (Cons x ms y ms')
  obtain p m where x: "x = (p, m)" by (cases x)
  from Cons.hyps(1) x obtain m' where y: "y = (p, m')" "m' = m\<lparr>mpages := mpages m'\<rparr>" "list_all2 slot_like (mpages m) (mpages m')"
    by (cases y) (auto simp: mapping_like_def)
  have n: "npages m' = npages m" using list_all2_lengthD [OF y(3)] by simp
  have c: "backing m' = backing m" "page_offset m' = page_offset m" "permissions m' = permissions m" "shared m' = shared m"
    using y(2) by (metis mapping.select_convs mapping.surjective mapping.update_convs(5))+
  { case 1 show ?case using Cons(3) [of "p + npages m"] x y(1) n by simp }
  { case 2 show ?case using Cons(4) x y(1) n c by (simp add: shape_def mapping_cell_def) }
  { case 3 show ?case
      using Cons(5) x y(1,3) n by (auto simp: resident_def mapping_cell_def list_all2_conv_all_nth) }
  { case 4 show ?case using Cons(6) x y(1) size_slots_like [OF y(3)] by (simp add: mapping_pages_def) }
qed (simp_all add: resident_def)

section \<open>Cloning pages\<close>

definition slot_handles :: "slots \<Rightarrow> kernel_page multiset" where
  "slot_handles xs = image_mset upage (mset (somes xs))"

lemma slot_handles_simps [simp]:
  "slot_handles [] = {#}" "slot_handles (None # xs) = slot_handles xs"
  "slot_handles (Some u # xs) = add_mset (upage u) (slot_handles xs)"
  "slot_handles (replicate n None) = {#}"
  by (simp_all add: slot_handles_def)

text \<open>The outcome of a cloning loop.\<close>

definition cloned ::
  "unit result \<Rightarrow> slots \<Rightarrow> slots \<Rightarrow> slots \<Rightarrow> kernel_page multiset \<Rightarrow> heap \<Rightarrow> heap \<Rightarrow> bool" where
  "cloned r us ps cs R h h' \<longleftrightarrow>
     (r = Ok () \<or> r = Err NoMem) \<and> kp_inv h' (slot_handles ps + slot_handles cs + R) \<and> pages h' = pages h \<and>
     list_all2 slot_like us ps \<and> (r = Ok () \<longrightarrow> list_all2 slot_like us cs)"

lemma clone_pages_spec:
  assumes "kp_inv h (slot_handles us + R)" and "clone_pages us h = (r, ps, cs, h')"
  shows "cloned r us ps cs R h h'"
  using assms
proof (induction us h arbitrary: R r ps cs h' rule: clone_pages.induct)
  case (1 h)
  then show ?case by (simp add: cloned_def)
next
  case (2 us h)
  obtain r1 ps1 cs1 h1 where c: "clone_pages us h = (r1, ps1, cs1, h1)" by (cases "clone_pages us h") auto
  from 2(1) [OF _ c] 2(2,3) c show ?case by (auto simp: cloned_def)
next
  case (3 u us h)
  have inv: "kp_inv h (add_mset (upage u) (slot_handles us + R))" using 3(2) by simp
  show ?case
  proof (rule clone_cases [OF inv])
    fix h1 p' assume c: "clone (upage u) h = (Ok (p', p'), h1)" "kp_inv h1 (add_mset p' (add_mset p' (slot_handles us + R)))"
      "content p' = content (upage u)" "pages h1 = pages h"
    obtain r2 ps2 cs2 h2 where d: "clone_pages us h1 = (r2, ps2, cs2, h2)" by (cases "clone_pages us h1") auto
    have "kp_inv h1 (slot_handles us + add_mset p' (add_mset p' R))" using c(2) by simp
    from 3(1) [OF c(1) [symmetric] refl refl this d] c 3(3) d show ?case
      by (auto simp: cloned_def slot_like_def)
  next
    fix x assume "clone (upage u) h = (Err NoMem, h\<lparr>oom := x\<rparr>)"
    with 3(2,3) show ?case by (auto simp: cloned_def simp del: replicate_Suc)
  qed
qed

definition ms_handles :: "'b mappings \<Rightarrow> kernel_page multiset" where
  "ms_handles ms = image_mset upage (ms_pages ms)"

lemma ms_handles_simps [simp]:
  "ms_handles [] = {#}" "ms_handles ((p, m) # ms) = slot_handles (mpages m) + ms_handles ms"
  by (simp_all add: ms_handles_def slot_handles_def mapping_pages_def)

definition mappings_cloned ::
  "unit result \<Rightarrow> 'b mappings \<Rightarrow> 'b mappings \<Rightarrow> 'b mappings \<Rightarrow> kernel_page multiset \<Rightarrow> heap \<Rightarrow> heap \<Rightarrow> bool" where
  "mappings_cloned r ms pms cms R h h' \<longleftrightarrow>
     (r = Ok () \<or> r = Err NoMem) \<and> kp_inv h' (ms_handles pms + ms_handles cms + R) \<and> pages h' = pages h \<and>
     mappings_like ms pms \<and> (r = Ok () \<longrightarrow> mappings_like ms cms)"

lemma mapping_likeI: "list_all2 slot_like (mpages m) xs \<Longrightarrow> mapping_like (p, m) (p, m\<lparr>mpages := xs\<rparr>)"
  by (simp add: mapping_like_def)

lemma clone_mappings_spec:
  assumes "kp_inv h (ms_handles ms + R)" and "clone_mappings ms h = (r, pms, cms, h')"
  shows "mappings_cloned r ms pms cms R h h'"
  using assms
proof (induction ms arbitrary: h R r pms cms h')
  case Nil
  then show ?case by (simp add: mappings_cloned_def)
next
  case (Cons x ms)
  obtain p m where x: "x = (p, m)" by (cases x)
  obtain r1 ps cs h1 where c: "clone_pages (mpages m) h = (r1, ps, cs, h1)" by (cases "clone_pages (mpages m) h") auto
  have "kp_inv h (slot_handles (mpages m) + (ms_handles ms + R))" using Cons.prems(1) x by (simp add: ac_simps)
  from clone_pages_spec [OF this c] have
    d: "r1 = Ok () \<or> r1 = Err NoMem" "kp_inv h1 (slot_handles ps + slot_handles cs + (ms_handles ms + R))"
    "pages h1 = pages h" "list_all2 slot_like (mpages m) ps" "r1 = Ok () \<Longrightarrow> list_all2 slot_like (mpages m) cs"
    by (auto simp: cloned_def)
  from d(1) show ?case
  proof
    assume ok: "r1 = Ok ()"
    obtain r2 pms2 cms2 h2 where e: "clone_mappings ms h1 = (r2, pms2, cms2, h2)" by (cases "clone_mappings ms h1") auto
    have "kp_inv h1 (ms_handles ms + (slot_handles ps + slot_handles cs + R))" using d(2) by (simp add: ac_simps)
    from Cons.IH [OF this e] have m: "mappings_cloned r2 ms pms2 cms2 (slot_handles ps + slot_handles cs + R) h1 h2" .
    have "r = r2" "pms = (p, m\<lparr>mpages := ps\<rparr>) # pms2" "cms = (p, m\<lparr>mpages := cs\<rparr>) # cms2" "h' = h2"
      using Cons.prems(2) x c ok e by simp_all
    then show ?thesis
      using m d(3) mapping_likeI [OF d(4)] mapping_likeI [OF d(5) [OF ok]] x
      by (simp add: mappings_cloned_def ac_simps)
  next
    assume "r1 = Err NoMem"
    then have "r = Err NoMem" "pms = (p, m\<lparr>mpages := ps\<rparr>) # ms" "cms = [(p, m\<lparr>mpages := cs\<rparr>)]" "h' = h1"
      using Cons.prems(2) x c by simp_all
    then show ?thesis
      using d(2,3) mapping_likeI [OF d(4)] x by (simp add: mappings_cloned_def ac_simps)
  qed
qed

section \<open>Cloning an address space\<close>

lemma frozen_sound:
  assumes T: "pml4_ok T" and s: "tables_sound loc ms T" and l: "mappings_like ms ms'"
  shows "tables_sound loc ms' (freeze_userspace T)"
  unfolding tables_sound_def
proof (intro allI impI)
  fix q assume q: "q \<le> LAST_USER_PAGE" "pml4_view (freeze_userspace T) q \<noteq> 0"
  let ?v = "pml4_view T q"
  have f: "pml4_view (freeze_userspace T) q = ?v AND NOT (2 ^ WRITE_BIT)"
    using freeze_spec [OF T, of q] by blast
  with q s obtain u where u: "resident ms q = Some u" "pte_ok loc u ?v"
    unfolding tables_sound_def by fastforce
  from mappings_like_facts(3) [OF l, of q] u(1) obtain v where
    v: "resident ms' q = Some v" "uperms v = uperms u" "content (upage v) = content (upage u)"
    by (auto simp: slot_like_def option_rel_Some1)
  have b: "bit (?v AND NOT (2 ^ WRITE_BIT)) n \<longleftrightarrow> bit ?v n \<and> n \<noteq> WRITE_BIT" for n
    by (auto simp: bit_simps entry_bits dest: bit_imp_le_length)
  have "entry_frame (?v AND NOT (2 ^ WRITE_BIT)) = entry_frame ?v"
    by (rule bit_word_eqI) (simp only: bit_entry_frame b, auto simp: WRITE_BIT_def)
  with u(2) v have "pte_ok loc v (?v AND NOT (2 ^ WRITE_BIT))"
    by (simp add: pte_ok_def b frame_def) (simp add: entry_bits)
  with v(1) f show "\<exists>u. resident ms' q = Some u \<and> pte_ok loc u (pml4_view (freeze_userspace T) q)" by auto
qed

lemma cells_ok_like:
  assumes "cells_ok ms" "mappings_like ms ms'"
  shows "cells_ok ms'"
  unfolding cells_ok_def
proof (intro allI impI)
  fix q c assume c: "cell ms' q = Some c"
  note f = mappings_like_facts(2,3) [OF assms(2), of q]
  obtain b off perms sh x where c': "c = (b, off, perms, sh, x)" by (cases c)
  obtain y where y: "cell ms q = Some (b, off, perms, sh, y)"
    using f(1) c c' by (cases "cell ms q") (auto simp: shape_def)
  then have "cell_ok (b, off, perms, sh, y)" using assms(1) unfolding cells_ok_def by blast
  moreover have "slot_like y x" using f(2) c c' y by (simp add: resident_def)
  ultimately show "cell_ok c" by (auto simp: c' cell_ok_def slot_like_def option_rel_Some2)
qed

lemma shown_like:
  assumes "mappings_like ms ms'" "pages h' = pages h"
  shows "map_option (view h' \<circ> upage) (resident ms' q) = map_option (view h \<circ> upage) (resident ms q)"
  using mappings_like_facts(3) [OF assms(1), of q] assms(2)
  by (cases "resident ms q"; cases "resident ms' q") (auto simp: slot_like_def view_def)

lemma vm_clone_spec:
  fixes s :: "'f mem"
  assumes inv: "mem_inv fhandles fok loc N s"
  shows "\<exists>r t. vm_clone s = (r, t) \<and>
    (\<forall>q. shape (cell (mappings (vm t)) q) = shape (cell (mappings (vm s)) q) \<and> shown t q = shown s q \<and>
       \<not> bit (pml4_view (pagetables (vm t)) q) WRITE_BIT) \<and>
    (\<forall>x. x \<in># N \<longrightarrow> view (hp t) x = view (hp s) x) \<and>
    (case r of
       Ok c \<Rightarrow> mem_inv fhandles fok loc (vm_handles c + N) t \<and> vm_ok loc c \<and> brk_end c = brk_end (vm s) \<and>
         (\<forall>q. shape (cell (mappings c) q) = shape (cell (mappings (vm s)) q) \<and>
            map_option (view (hp t) \<circ> upage) (resident (mappings c) q) = shown s q)
     | Err e \<Rightarrow> e = NoMem \<and> mem_inv fhandles fok loc N t
     | Panic \<Rightarrow> False)"
proof -
  let ?ms = "mappings (vm s)" and ?T = "freeze_userspace (pagetables (vm s))"
  have ok: "vm_ok loc (vm s)" and kp: "kp_inv (hp s) (ms_handles ?ms + (outside fhandles s + N))" and fk: "fok (fs s)"
    using inv by (simp_all add: mem_inv_def space_ok_def vm_handles_def ms_handles_def)
  obtain r pms cms h where c: "clone_mappings ?ms (hp s) = (r, pms, cms, h)" by (cases "clone_mappings ?ms (hp s)") auto
  have d: "r = Ok () \<or> r = Err NoMem" "kp_inv h (ms_handles pms + ms_handles cms + (outside fhandles s + N))"
    "pages h = pages (hp s)" "mappings_like ?ms pms" "r = Ok () \<Longrightarrow> mappings_like ?ms cms"
    using clone_mappings_spec [OF kp c] by (auto simp: mappings_cloned_def)
  have T: "pml4_ok ?T" "\<And>q. \<not> bit (pml4_view ?T q) WRITE_BIT" using freeze_spec [OF vm_okD(3) [OF ok]] by blast+
  define v where "v = (vm s)\<lparr>mappings := pms, pagetables := ?T\<rparr>"
  have vok: "vm_ok loc v"
    using ok T mappings_like_facts [OF d(4)] cells_ok_like [OF vm_okD(2) [OF ok] d(4)]
      frozen_sound [OF vm_okD(3,4) [OF ok] d(4)] by (simp add: v_def vm_ok_def)
  let ?s = "s\<lparr>vm := v, hp := h\<rparr>"
  have run: "vm_clone s = (case r of
      Ok _ \<Rightarrow> (Ok \<lparr>mappings = cms, brk_end = brk_end (vm s), pagetables = Map.empty, usage = usage_fork (usage (vm s))\<rparr>, ?s)
    | Err e \<Rightarrow> sbind (drop_user_pages (concat (map (somes \<circ> mpages \<circ> snd) cms))) (\<lambda>_. slift (Err e)) ?s
    | Panic \<Rightarrow> (Panic, ?s))"
    using c by (simp add: vm_clone_def v_def Let_def split: outcome.split)
  have same: "view h x = view (hp s) x" for x using d(3) by (simp add: view_def)
  from d(1) show ?thesis
  proof
    assume r: "r = Ok ()"
    define c where "c = \<lparr>mappings = cms, brk_end = brk_end (vm s), pagetables = Map.empty,
      usage = usage_fork (usage (vm s))\<rparr>"
    note l = d(5) [OF r]
    have "vm_ok loc c"
      using ok mappings_like_facts [OF l] cells_ok_like [OF vm_okD(2) [OF ok] l]
      by (simp add: c_def vm_ok_def usage_fork_def pml4_ok_def table_ok_def tables_sound_def pml4_view_def table_view_def)
    moreover have "mem_inv fhandles fok loc (vm_handles c + N) ?s"
      using vok d(2) fk by (simp add: mem_inv_def space_ok_def outside_def vm_handles_def ms_handles_def v_def c_def ac_simps)
    moreover have "vm_clone s = (Ok c, ?s)" using run r by (simp add: c_def)
    moreover have "shown ?s q = shown s q" "map_option (view (hp ?s) \<circ> upage) (resident (mappings c) q) = shown s q" for q
      using shown_like [OF d(4,3)] shown_like [OF l d(3)] by (simp_all add: shown_def v_def c_def)
    moreover have "shape (cell (mappings c) q) = shape (cell ?ms q)" "brk_end c = brk_end (vm s)" for q
      using mappings_like_facts(2) [OF l] by (simp_all add: c_def)
    ultimately show ?thesis
      using mappings_like_facts(2) [OF d(4)] T same by (intro exI [of _ "Ok c"] exI [of _ ?s]) (simp add: v_def)
  next
    assume r: "r = Err NoMem"
    have ds: "mset (concat (map (somes \<circ> mpages \<circ> snd) cms)) = ms_pages cms"
      by (induction cms) (auto simp: mapping_pages_def)
    have "kp_inv (hp ?s) (image_mset upage (mset (concat (map (somes \<circ> mpages \<circ> snd) cms))) +
        (ms_handles pms + (outside fhandles s + N)))" using d(2) unfolding ds by (simp add: ms_handles_def ac_simps)
    from drop_user_pages_spec [OF this] obtain h' where
      h': "drop_user_pages (concat (map (somes \<circ> mpages \<circ> snd) cms)) ?s = (Ok (), ?s\<lparr>hp := h'\<rparr>)"
      "kp_inv h' (ms_handles pms + (outside fhandles s + N))"
      "\<And>x. x \<in># ms_handles pms + (outside fhandles s + N) \<Longrightarrow> view h' x = view h x" by auto
    have "vm_clone s = (Err NoMem, ?s\<lparr>hp := h'\<rparr>)" using run r h'(1) by (simp add: sbind_def)
    moreover have "mem_inv fhandles fok loc N (?s\<lparr>hp := h'\<rparr>)"
      using vok h'(2) fk by (simp add: mem_inv_def space_ok_def outside_def vm_handles_def ms_handles_def v_def)
    moreover have "shown (?s\<lparr>hp := h'\<rparr>) q = shown s q" for q
    proof -
      have "view h' (upage u) = view h (upage u)" if "resident pms q = Some u" for u
        using h'(3) [of "upage u"] resident_in_pages [OF _ that, of 0] mappings_like_facts(1) [OF d(4)] vm_okD(1) [OF ok]
        by (simp add: ms_handles_def)
      then show ?thesis using shown_like [OF d(4,3), of q]
        by (cases "resident pms q") (auto simp: shown_def v_def)
    qed
    ultimately show ?thesis using mappings_like_facts(2) [OF d(4)] T same h'(3) by (auto simp: v_def)
  qed
qed

end
