(* ===== verification/Memory_System.thy ===== *)
theory Memory_System
  imports Fork Page_Buffer
begin

text \<open>
  All address spaces together with the files they map (\<^verbatim>\<open>tee/kernel/src/user/process/memory.rs\<close>,
  \<^verbatim>\<open>tee/kernel/src/fs/node/tmpfs.rs\<close>). The files are those of the temporary file system, whose
  contents are page buffers; they keep the contract of the locale \<open>file_pages\<close>.
\<close>

section \<open>Pages of a file\<close>

lemma with_page_len:
  "with_page i f s = (r, t) \<Longrightarrow> length (bpages (snd t)) = length (bpages (snd s)) \<and> len (snd t) = len (snd s)"
  by (auto simp: with_page_def sbind_def page_at_def on_heap_def Page_Buffer.set_page_def
      split: if_splits prod.splits outcome.splits)

lemma drain_len:
  "drain n s = (r, t) \<Longrightarrow> length (bpages (snd t)) \<le> length (bpages (snd s)) \<and> len (snd t) = len (snd s)"
  by (auto simp: drain_def sbind_def on_heap_def split: if_splits prod.splits outcome.splits)

lemma reserve_len:
  "reserve n s = (r, t) \<Longrightarrow>
   length (bpages (snd t)) \<le> max (length (bpages (snd s))) (div_ceil (len (snd s) + n) PAGE) \<and> len (snd t) = len (snd s)"
  by (auto simp: reserve_def sbind_def on_heap_def uadd_def Let_def
      split: if_splits prod.splits outcome.splits)

lemma reserve_zeroed_len:
  assumes "reserve_zeroed n s = (r, t)"
  shows "length (bpages (snd t)) \<le> max (length (bpages (snd s))) (div_ceil (len (snd s) + n) PAGE)"
proof (cases "n = 0")
  case True
  then show ?thesis using assms by (simp add: reserve_zeroed_def)
next
  case False
  let ?l = "len (snd s)"
  let ?z = "if ?l mod PAGE \<noteq> 0 then with_page (?l div PAGE) (zero_range (?l mod PAGE, PAGE) True) else sret ()"
  have z: "length (bpages (snd u)) = length (bpages (snd s)) \<and> len (snd u) = ?l" if "?z s = (x, u)" for x u
    using that with_page_len by (auto split: if_splits)
  from False assms have "sbind ?z (\<lambda>_. sbind (drain (div_ceil ?l PAGE)) (\<lambda>_. reserve n)) s = (r, t)"
    by (simp add: reserve_zeroed_def Let_def)
  then show ?thesis
  proof (rule sbind_cases)
    fix x u assume u: "?z s = (Ok x, u)" "sbind (drain (div_ceil ?l PAGE)) (\<lambda>_. reserve n) u = (r, t)"
    from u(2) show ?thesis
    proof (rule sbind_cases)
      fix y w assume w: "drain (div_ceil ?l PAGE) u = (Ok y, w)" "reserve n w = (r, t)"
      show ?thesis using drain_len [OF w(1)] reserve_len [OF w(2)] z [OF u(1)] by (auto simp: le_max_iff_disj)
    next
      fix e assume "drain (div_ceil ?l PAGE) u = (Err e, t)"
      from drain_len [OF this] z [OF u(1)] show ?thesis by (auto simp: le_max_iff_disj)
    next
      assume "drain (div_ceil ?l PAGE) u = (Panic, t)"
      from drain_len [OF this] z [OF u(1)] show ?thesis by (auto simp: le_max_iff_disj)
    qed
  next
    fix e assume "?z s = (Err e, t)"
    from z [OF this] show ?thesis by simp
  next
    assume "?z s = (Panic, t)"
    from z [OF this] show ?thesis by simp
  qed
qed

text \<open>\<^verbatim>\<open>Buffer::get_page\<close> keeps the buffer and hands out a new handle.\<close>

lemma clone_page_spec:
  assumes inv: "buf_inv (h, b) M" and i: "i < length (bpages b)"
  shows "\<exists>r t. sbind (page_at i) (\<lambda>p. sbind (on_heap (clone p)) (\<lambda>(p', q). sbind (Page_Buffer.set_page i p') (\<lambda>_. sret q))) (h, b) = (r, t) \<and>
    unseen M (h, b) t \<and> length (bpages (snd t)) = length (bpages b) \<and>
    (case r of Ok q \<Rightarrow> buf_inv t (add_mset q M) | Err e \<Rightarrow> buf_inv t M | Panic \<Rightarrow> False)"
proof (rule clone_cases [OF buf_rest [OF inv i]])
  fix h' p' assume c: "clone (bpages b ! i) h = (Ok (p', p'), h')" "kp_inv h' (add_mset p' (add_mset p' (rest b i M)))"
    "content p' = content (bpages b ! i)" "pages h' = pages h"
  let ?b = "b\<lparr>bpages := (bpages b)[i := p']\<rparr>"
  have cont: "map content ((bpages b)[i := p']) = map content (bpages b)"
    using c(3) i by (simp add: map_update list_update_same_conv)
  have nth: "content ((bpages b)[i := p'] ! j) = content (bpages b ! j)" if "j < length (bpages b)" for j
    using arg_cong [OF cont, of "\<lambda>xs. xs ! j"] that by simp
  have "buf_inv (h', ?b) (add_mset p' M)"
    using c(2) inv rest_update [OF i, of p' "add_mset p' M"] nth
    by (simp add: buf_inv_def nz_distinct_def add_mset_commute)
  moreover have "shares ?b q \<longleftrightarrow> shares b q" for q
    using arg_cong [OF cont, of set] unfolding shares_def by (auto simp: image_iff set_eq_iff) metis+
  then have "unseen M (h, b) (h', ?b)" using c(4) by (simp add: unseen_def view_def)
  ultimately show ?thesis
    using c(1) i by (simp add: sbind_def page_at_def on_heap_def Page_Buffer.set_page_def)
next
  fix x assume "clone (bpages b ! i) h = (Err NoMem, h\<lparr>oom := x\<rparr>)"
  then show ?thesis using i inv unseen_oom [of M h b x]
    by (simp add: sbind_def page_at_def on_heap_def buf_inv_oom)
qed

lemma get_page_spec:
  assumes inv: "buf_inv (h, b) M" and bound: "PAGE * length (bpages b) < usize_bound"
    and g: "get_page i sh (h, b) = (r, t)"
  shows "unseen M (h, b) t \<and> length (bpages (snd t)) \<le> length (bpages b) \<and>
    (case r of Ok q \<Rightarrow> buf_inv t (add_mset q M) | Err e \<Rightarrow> buf_inv t M | Panic \<Rightarrow> False)"
proof (cases "i < length (bpages b)")
  case False
  then show ?thesis using g inv by (auto simp: get_page_def sbind_def)
next
  case i: True
  define n where "n = (i + 1) * PAGE - len b"
  let ?c = "sbind (page_at i) (\<lambda>p. sbind (on_heap (clone p)) (\<lambda>(p', q). sbind (Page_Buffer.set_page i p') (\<lambda>_. sret q)))"
  have le: "(i + 1) * PAGE \<le> PAGE * length (bpages b)" using i by (simp add: mult.commute)
  have run: "sbind (reserve_zeroed n) (\<lambda>_. sbind (if sh then with_page i (make_mut True) else sret ()) (\<lambda>_. ?c)) (h, b) = (r, t)"
    using g i by (simp add: get_page_def n_def)
  have len: "length (bpages (snd u)) \<le> length (bpages b)" if "reserve_zeroed n (h, b) = (x, u)" for x u
  proof (cases "n = 0")
    case True
    then show ?thesis using that by (auto simp: reserve_zeroed_def)
  next
    case False
    then have "len b + n = (i + 1) * PAGE" by (simp add: n_def)
    then have "div_ceil (len b + n) PAGE = i + 1" by (simp only: div_ceil_def) simp
    then show ?thesis using reserve_zeroed_len [OF that] i by simp
  qed
  have b': "0 < n \<Longrightarrow> len b + n < usize_bound" using le bound by (simp add: n_def)
  show ?thesis
  proof (rule reserve_zeroed_cases [OF inv b'])
    fix u assume u: "reserve_zeroed n (h, b) = (Ok (), u)" "grown M (h, b) u"
      "0 < n \<Longrightarrow> len b + n \<le> PAGE * length (bpages (snd u))" "n = 0 \<Longrightarrow> u = (h, b)"
    obtain h1 b1 where hb: "u = (h1, b1)" by (cases u)
    have inv1: "buf_inv (h1, b1) M" "unseen M (h, b) (h1, b1)" using u(2) hb by (simp_all add: grown_def)
    have i1: "i < length (bpages b1)"
    proof (cases "n = 0")
      case True
      then show ?thesis using u(4) hb i by simp
    next
      case False
      then have "(i + 1) * PAGE \<le> PAGE * length (bpages b1)" using u(3) hb by (simp add: n_def)
      then show ?thesis by (simp add: mult.commute)
    qed
    have fin: ?thesis if "?c (h2, b2) = (r, t)" "buf_inv (h2, b2) M" "unseen M (h1, b1) (h2, b2)" "length (bpages b2) = length (bpages b1)" for h2 b2
    proof -
      have "i < length (bpages b2)" using i1 that(4) by simp
      from clone_page_spec [OF that(2) this] that(1) show ?thesis
        using unseen_trans [OF inv1(2) unseen_trans [OF that(3)]] that(4) len [OF u(1)] hb by auto
    qed
    show ?thesis
    proof (cases sh)
      case False
      then show ?thesis using fin [of h1 b1] run u(1) hb inv1 by (simp add: sbind_def)
    next
      case True
      show ?thesis
      proof (rule make_mut_page [OF inv1(1) i1])
        fix h2 p assume m: "with_page i (make_mut True) (h1, b1) = (Ok (), (h2, b1\<lparr>bpages := (bpages b1)[i := p]\<rparr>))"
          "buf_inv (h2, b1\<lparr>bpages := (bpages b1)[i := p]\<rparr>) M"
          "unseen M (h1, b1) (h2, b1\<lparr>bpages := (bpages b1)[i := p]\<rparr>)"
        then show ?thesis using fin [OF _ m(2,3)] run u(1) hb True by (simp add: sbind_def)
      next
        fix x assume "with_page i (make_mut True) (h1, b1) = (Err NoMem, (h1\<lparr>oom := x\<rparr>, b1))"
        then have "r = Err NoMem" "t = (h1\<lparr>oom := x\<rparr>, b1)" using run u(1) hb True by (simp_all add: sbind_def)
        then show ?thesis using inv1 unseen_trans [OF inv1(2) unseen_oom] len [OF u(1)] hb by (simp add: buf_inv_oom)
      qed
    qed
  next
    fix u assume u: "reserve_zeroed n (h, b) = (Err NoMem, u)" "grown M (h, b) u"
    then have "r = Err NoMem" "t = u" using run by (simp_all add: sbind_def)
    then show ?thesis using u len [OF u(1)] by (simp add: grown_def)
  qed
qed

section \<open>Files of the temporary file system\<close>

text \<open>\<^verbatim>\<open>TmpFsFile::get_page\<close> on the file \<open>k\<close>; a descriptor of anything else refuses.\<close>

type_synonym tmpfs = "buffer list"

definition tmpfs_get_page :: "tmpfs file_page" where
  "tmpfs_get_page k i sh s =
     (case s of (h, bs) \<Rightarrow>
        if k < length bs then case get_page i sh (h, bs ! k) of (r, (h', b)) \<Rightarrow> (r, (h', bs[k := b]))
        else (Err Acces, (h, bs)))"

definition tmpfs_handles :: "tmpfs \<Rightarrow> kernel_page multiset" where
  "tmpfs_handles bs = sum_list (map (mset \<circ> bpages) bs)"

definition tmpfs_ok :: "tmpfs \<Rightarrow> bool" where
  "tmpfs_ok bs \<longleftrightarrow> (\<forall>b. b \<in> set bs \<longrightarrow> nz_distinct (bpages b) \<and> len b \<le> PAGE * length (bpages b) \<and>
     PAGE * length (bpages b) < usize_bound)"

lemma tmpfs_split:
  assumes "k < length bs"
  obtains R where "tmpfs_handles bs = mset (bpages (bs ! k)) + R"
    "\<And>b. tmpfs_handles (bs[k := b]) = mset (bpages b) + R"
proof
  let ?R = "tmpfs_handles (take k bs) + tmpfs_handles (drop (Suc k) bs)"
  show "tmpfs_handles bs = mset (bpages (bs ! k)) + ?R"
    by (subst id_take_nth_drop [OF assms]) (simp add: tmpfs_handles_def ac_simps)
  show "tmpfs_handles (bs[k := b]) = mset (bpages b) + ?R" for b
    by (subst upd_conv_take_nth_drop [OF assms]) (simp add: tmpfs_handles_def ac_simps)
qed

interpretation tmp: file_pages tmpfs_get_page tmpfs_handles tmpfs_ok
proof
  fix h bs M k i sh r h' bs'
  assume kp: "kp_inv h (tmpfs_handles bs + M)" and ok: "tmpfs_ok bs"
    and g: "tmpfs_get_page k i sh (h, bs) = (r, (h', bs'))"
  show "tmpfs_ok bs' \<and> (\<forall>q. q \<in># M \<longrightarrow> stays (tmpfs_handles bs) h (tmpfs_handles bs') h' q) \<and>
     (case r of Ok p \<Rightarrow> kp_inv h' (add_mset p (tmpfs_handles bs' + M))
      | Err e \<Rightarrow> kp_inv h' (tmpfs_handles bs' + M) | Panic \<Rightarrow> False)"
  proof (cases "k < length bs")
    case False
    then show ?thesis using g kp ok by (auto simp: tmpfs_get_page_def)
  next
    case k: True
    obtain R where R: "tmpfs_handles bs = mset (bpages (bs ! k)) + R"
      "\<And>b. tmpfs_handles (bs[k := b]) = mset (bpages b) + R" using tmpfs_split [OF k] by blast
    obtain b where b: "get_page i sh (h, bs ! k) = (r, (h', b))" "bs' = bs[k := b]"
      using g k by (auto simp: tmpfs_get_page_def split: prod.splits)
    have o: "nz_distinct (bpages (bs ! k))" "len (bs ! k) \<le> PAGE * length (bpages (bs ! k))"
      "PAGE * length (bpages (bs ! k)) < usize_bound" using ok k by (simp_all add: tmpfs_ok_def)
    have "buf_inv (h, bs ! k) (R + M)" using kp R(1) o by (simp add: buf_inv_def ac_simps)
    from get_page_spec [OF this o(3) b(1)] have sp: "unseen (R + M) (h, bs ! k) (h', b)"
      "length (bpages b) \<le> length (bpages (bs ! k))"
      "case r of Ok q \<Rightarrow> buf_inv (h', b) (add_mset q (R + M)) | Err e \<Rightarrow> buf_inv (h', b) (R + M) | Panic \<Rightarrow> False" by simp_all
    from sp(3) have "nz_distinct (bpages b)" "len b \<le> PAGE * length (bpages b)"
      by (auto simp: buf_inv_def split: outcome.splits)
    moreover have "PAGE * length (bpages b) < usize_bound" using sp(2) o(3) by linarith
    ultimately have "tmpfs_ok bs'" using ok b(2) by (auto simp: tmpfs_ok_def dest!: in_set_update)
    moreover have "stays (tmpfs_handles bs) h (tmpfs_handles bs') h' q" if "q \<in># M" for q
    proof -
      have "q \<in># R + M" using that by simp
      with sp(1) have u: "\<not> shares (bs ! k) q \<Longrightarrow> view h' q = view h q" "\<not> shares (bs ! k) q \<Longrightarrow> \<not> shares b q"
        unfolding unseen_def fst_conv snd_conv by blast+
      have "\<not> shares c q \<longleftrightarrow> content q = 0 \<or> (\<forall>p \<in> set (bpages c). content p \<noteq> content q)" for c
        by (auto simp: shares_def)
      with u show ?thesis unfolding stays_def b(2) R apart_def union_iff set_mset_mset by blast
    qed
    ultimately show ?thesis
      using sp(3) by (cases r) (simp_all add: b(2) R(2) buf_inv_def ac_simps)
  qed
qed

section \<open>All address spaces\<close>

record sys =
  procs :: "vmem list"
  sheap :: heap
  sfiles :: tmpfs
  strampoline :: kernel_page

definition focus :: "nat \<Rightarrow> sys \<Rightarrow> tmpfs mem" where
  "focus i s = \<lparr>vm = procs s ! i, hp = sheap s, fs = sfiles s, trampoline = strampoline s\<rparr>"

definition unfocus :: "nat \<Rightarrow> tmpfs mem \<Rightarrow> sys \<Rightarrow> sys" where
  "unfocus i t s = \<lparr>procs = (procs s)[i := vm t], sheap = hp t, sfiles = fs t, strampoline = trampoline t\<rparr>"

text \<open>
  The operations of all processes, in any order. A mapping at a fixed address must not start
  in a gap with something mapped further on in its range; \<open>loc\<close> is where pages are in memory.
\<close>

inductive sys_step :: "va_add \<Rightarrow> (addr \<Rightarrow> nat) \<Rightarrow> sys \<Rightarrow> sys \<Rightarrow> bool" for va loc where
  spawn: "sys_step va loc s (s\<lparr>procs := procs s @ [VirtualMemory_new]\<rparr>)"
| fork: "i < length (procs s) \<Longrightarrow> vm_clone (focus i s) = (Ok c, t) \<Longrightarrow>
    sys_step va loc s ((unfocus i t s)\<lparr>procs := (procs s)[i := vm t] @ [c]\<rparr>)"
| fork_err: "i < length (procs s) \<Longrightarrow> vm_clone (focus i s) = (Err e, t) \<Longrightarrow> sys_step va loc s (unfocus i t s)"
| exit: "i < length (procs s) \<Longrightarrow> va 0 (2 ^ 64 - 2) = Ok (2 ^ 64 - 2) \<Longrightarrow>
    vm_drop va (focus i s) = (r, t) \<Longrightarrow>
    sys_step va loc s ((unfocus i t s)\<lparr>procs := take i (procs s) @ drop (Suc i) (procs s)\<rparr>)"
| fault: "i < length (procs s) \<Longrightarrow> handle_page_fault tmpfs_get_page loc addr code (focus i s) = (r, t) \<Longrightarrow>
    sys_step va loc s (unfocus i t s)"
| munmap: "i < length (procs s) \<Longrightarrow> n \<noteq> 0 \<Longrightarrow> va addr (n - 1) = Ok z \<Longrightarrow> addr \<le> z \<Longrightarrow>
    unmap va addr n (focus i s) = (r, t) \<Longrightarrow> sys_step va loc s (unfocus i t s)"
| mmap: "i < length (procs s) \<Longrightarrow> user_range addr n \<Longrightarrow>
    clears (addr div 4096) ((addr + n - 1) div 4096) (mappings (procs s ! i)) \<Longrightarrow>
    (\<And>j. j \<le> (addr + n - 1) div 4096 - addr div 4096 \<Longrightarrow> backing_ok b (off + j)) \<Longrightarrow>
    mmap va (Fixed addr) n perms b off sh (focus i s) = (r, t) \<Longrightarrow> sys_step va loc s (unfocus i t s)"
| mmap_dynamic: "i < length (procs s) \<Longrightarrow> 0 < n \<Longrightarrow> n < 2 ^ 46 \<Longrightarrow>
    (\<And>j. j < div_ceil n 4096 \<Longrightarrow> backing_ok b (off + j)) \<Longrightarrow>
    mmap va (Dynamic abi) n perms b off sh (focus i s) = (r, t) \<Longrightarrow> sys_step va loc s (unfocus i t s)"
| mprotect: "i < length (procs s) \<Longrightarrow> n \<noteq> 0 \<Longrightarrow> va addr (n - 1) = Ok z \<Longrightarrow> addr \<le> z \<Longrightarrow> addr mod 4096 = 0 \<Longrightarrow>
    mprotect va addr n perms (focus i s) = (r, t) \<Longrightarrow> sys_step va loc s (unfocus i t s)"
| madvise: "i < length (procs s) \<Longrightarrow> addr + n < 2 ^ 47 \<Longrightarrow> addr mod 4096 = 0 \<Longrightarrow> n mod 4096 = 0 \<Longrightarrow>
    discard_pages va addr n (focus i s) = (r, t) \<Longrightarrow> sys_step va loc s (unfocus i t s)"
| brk: "i < length (procs s) \<Longrightarrow> brk_end (procs s ! i) < 2 ^ 47 \<Longrightarrow> b \<le> 2 ^ 47 - 4096 \<Longrightarrow>
    set_brk_end va b (focus i s) = (r, t) \<Longrightarrow> sys_step va loc s (unfocus i t s)"

definition sys_pages :: "sys \<Rightarrow> kernel_page multiset" where
  "sys_pages s = sum_list (map vm_handles (procs s)) + add_mset (strampoline s) (tmpfs_handles (sfiles s))"

definition sys_inv :: "va_add \<Rightarrow> (addr \<Rightarrow> nat) \<Rightarrow> sys \<Rightarrow> bool" where
  "sys_inv va loc s \<longleftrightarrow> va_law va \<and> loc_ok loc \<and> (\<forall>v. v \<in> set (procs s) \<longrightarrow> vm_ok loc v) \<and>
     kp_inv (sheap s) (sys_pages s) \<and> tmpfs_ok (sfiles s)"

definition sys_init :: "va_add \<Rightarrow> (addr \<Rightarrow> nat) \<Rightarrow> sys \<Rightarrow> bool" where
  "sys_init va loc s \<longleftrightarrow> va_law va \<and> loc_ok loc \<and> procs s = [] \<and>
     kp_inv (sheap s) (add_mset (strampoline s) (tmpfs_handles (sfiles s))) \<and> tmpfs_ok (sfiles s)"

definition others :: "nat \<Rightarrow> sys \<Rightarrow> kernel_page multiset" where
  "others i s = sum_list (map vm_handles (take i (procs s) @ drop (Suc i) (procs s)))"

lemma sum_handles:
  assumes "i < length (procs s)"
  shows "sum_list (map vm_handles (procs s)) = vm_handles (procs s ! i) + others i s"
    "sum_list (map vm_handles ((procs s)[i := v])) = vm_handles v + others i s"
  by (subst id_take_nth_drop [OF assms], simp add: others_def ac_simps)
    (subst upd_conv_take_nth_drop [OF assms], simp add: others_def ac_simps)

lemma focus_inv:
  assumes "sys_inv va loc s" "i < length (procs s)"
  shows "mem_inv tmpfs_handles tmpfs_ok loc (others i s) (focus i s)"
  using assms sum_handles(1) [OF assms(2)]
  by (simp add: sys_inv_def mem_inv_def space_ok_def focus_def outside_def sys_pages_def ac_simps)

lemma unfocus_inv:
  assumes s: "sys_inv va loc s" and i: "i < length (procs s)" and t: "mem_inv tmpfs_handles tmpfs_ok loc (others i s) t"
  shows "sys_inv va loc (unfocus i t s)"
  using assms sum_handles(2) [OF i, of "vm t"]
  by (auto simp: sys_inv_def mem_inv_def space_ok_def unfocus_def outside_def sys_pages_def ac_simps
      dest!: in_set_update)

lemma mem_inv_space:
  "mem_inv fh fok loc N s \<longleftrightarrow> space_ok loc (outside fh s + N) s \<and> fok (fs s)"
  by (simp add: mem_inv_def)

lemma mem_inv_undisturbed:
  assumes "mem_inv fh fok loc N s" "space_ok loc (outside fh s + N) t" "undisturbed M s t"
  shows "mem_inv fh fok loc N t"
  using assms by (simp add: mem_inv_def undisturbed_def outside_def)

lemma vm_ok_new: "vm_ok loc VirtualMemory_new"
  by (simp add: VirtualMemory_new_def vm_ok_def cells_ok_def pml4_ok_def table_ok_def tables_sound_def
      pml4_view_def table_view_def)

lemma fault_flags: "has_flags (WRITABLE OR EXECUTABLE) (put_flags EXECUTABLE x (put_flags WRITABLE w 0))"
  by (cases x; cases w) (simp_all add: has_flags_def put_flags_def flag_defs)

text \<open>Each operation keeps the invariant of the address space it works on.\<close>

lemma fault_inv:
  assumes inv: "mem_inv tmpfs_handles tmpfs_ok loc N s" "loc_ok loc"
    and r: "handle_page_fault tmpfs_get_page loc addr code s = (r, t)"
  shows "mem_inv tmpfs_handles tmpfs_ok loc N t"
proof -
  let ?fl = "put_flags EXECUTABLE (has_flags code INSTRUCTION_FETCH) (put_flags WRITABLE (has_flags code CAUSED_BY_WRITE) 0)"
  obtain r' t' where "map_page tmpfs_get_page loc (addr div 4096) ?fl s = (r', t')"
    "faulted tmpfs_handles tmpfs_ok loc N (addr div 4096) s t'"
    using tmp.map_page_spec [OF inv fault_flags] by blast
  with r show ?thesis by (simp add: handle_page_fault_def faulted_def)
qed

lemma unmap_inv:
  assumes "va_law va" "mem_inv fh fok loc N s" "va addr (n - 1) = Ok z" "n \<noteq> 0" "addr \<le> z" "unmap va addr n s = (r, t)"
  shows "mem_inv fh fok loc N t"
proof -
  have "space_ok loc (outside fh s + N) s" using assms(2) by (simp add: mem_inv_def)
  from unmap_spec [OF assms(1,3,4,5) this] assms(6)
  have "space_ok loc (outside fh s + N) t" "undisturbed (outside fh s + N) s t" by (metis prod.inject)+
  then show ?thesis by (rule mem_inv_undisturbed [OF assms(2)])
qed

lemma mmap_inv:
  assumes "va_law va" "mem_inv fh fok loc N s" "user_range addr n"
    "clears (addr div 4096) ((addr + n - 1) div 4096) (mappings (vm s))"
    "\<And>j. j \<le> (addr + n - 1) div 4096 - addr div 4096 \<Longrightarrow> backing_ok b (off + j)"
    "mmap va (Fixed addr) n perms b off sh s = (r, t)"
  shows "mem_inv fh fok loc N t"
proof -
  have "space_ok loc (outside fh s + N) s" using assms(2) by (simp add: mem_inv_def)
  from mmap_fixed [OF assms(1,3) this assms(4,5)] assms(6)
  have "space_ok loc (outside fh s + N) t" "undisturbed (outside fh s + N) s t" by (metis prod.inject)+
  then show ?thesis by (rule mem_inv_undisturbed [OF assms(2)])
qed

lemma mmap_dynamic_inv:
  assumes "va_law va" "mem_inv fh fok loc N s" "0 < n" "n < 2 ^ 46"
    "\<And>j. j < div_ceil n 4096 \<Longrightarrow> backing_ok b (off + j)"
    "mmap va (Dynamic abi) n perms b off sh s = (r, t)"
  shows "mem_inv fh fok loc N t"
proof -
  have "space_ok loc (outside fh s + N) s" using assms(2) by (simp add: mem_inv_def)
  from Address_Safety.mmap_dynamic [OF assms(1,3,4) this assms(5), of abi perms sh] assms(6)
  have "t = s \<or> space_ok loc (outside fh s + N) t \<and> undisturbed (outside fh s + N) s t" by (metis prod.inject)
  with mem_inv_undisturbed [OF assms(2)] assms(2) show ?thesis by blast
qed

lemma mprotect_inv:
  assumes "va_law va" "mem_inv fh fok loc N s" "va addr (n - 1) = Ok z" "n \<noteq> 0" "addr \<le> z" "addr mod 4096 = 0"
    "mprotect va addr n perms s = (r, t)"
  shows "mem_inv fh fok loc N t"
proof -
  have "space_ok loc (outside fh s + N) s" using assms(2) by (simp add: mem_inv_def)
  from mprotect_spec [OF assms(1,3,4,5,6) this, of perms] assms(7)
  have "space_ok loc (outside fh s + N) t" "undisturbed (outside fh s + N) s t" by (metis prod.inject)+
  then show ?thesis by (rule mem_inv_undisturbed [OF assms(2)])
qed

lemma discard_inv:
  assumes "va_law va" "mem_inv fh fok loc N s" "addr + n < 2 ^ 47" "addr mod 4096 = 0" "n mod 4096 = 0"
    "discard_pages va addr n s = (r, t)"
  shows "mem_inv fh fok loc N t"
proof -
  have "space_ok loc (outside fh s + N) s" using assms(2) by (simp add: mem_inv_def)
  from discard_spec [OF assms(1,3,4,5) this] assms(6)
  have "space_ok loc (outside fh s + N) t" "undisturbed (outside fh s + N) s t" by (metis prod.inject)+
  then show ?thesis by (rule mem_inv_undisturbed [OF assms(2)])
qed

lemma brk_inv:
  assumes "va_law va" "mem_inv fh fok loc N s" "brk_end (vm s) < 2 ^ 47" "b \<le> 2 ^ 47 - 4096"
    "set_brk_end va b s = (r, t)"
  shows "mem_inv fh fok loc N t"
proof -
  have ok: "space_ok loc (outside fh s + N) s" using assms(2) by (simp add: mem_inv_def)
  have "space_ok loc (outside fh s + N) t \<and> undisturbed (outside fh s + N) s t"
  proof (cases "brk_end (vm s) < b")
    case True
    from set_brk_end_grow [OF assms(1) True assms(4) ok] assms(5) show ?thesis by (metis prod.inject)
  next
    case False
    then have "b \<le> brk_end (vm s)" by simp
    from set_brk_end_shrink [OF assms(1) this assms(3) ok] assms(5) show ?thesis by (metis prod.inject)
  qed
  then show ?thesis using mem_inv_undisturbed [OF assms(2)] by blast
qed

lemma fork_inv:
  assumes s: "sys_inv va loc s" and i: "i < length (procs s)" and c: "vm_clone (focus i s) = (Ok c, t)"
  shows "sys_inv va loc ((unfocus i t s)\<lparr>procs := (procs s)[i := vm t] @ [c]\<rparr>)"
proof -
  from vm_clone_spec [OF focus_inv [OF s i]] c
  have m: "mem_inv tmpfs_handles tmpfs_ok loc (vm_handles c + others i s) t" "vm_ok loc c" by simp_all
  have "vm_ok loc v" if "v \<in> set ((procs s)[i := vm t] @ [c])" for v
    using that m s by (auto simp: sys_inv_def mem_inv_def space_ok_def dest!: in_set_update)
  moreover have "kp_inv (hp t) (sum_list (map vm_handles ((procs s)[i := vm t] @ [c])) +
      add_mset (trampoline t) (tmpfs_handles (fs t)))"
    using m(1) sum_handles(2) [OF i, of "vm t"] by (simp add: mem_inv_def space_ok_def outside_def ac_simps)
  ultimately show ?thesis using s m(1) by (simp add: sys_inv_def sys_pages_def unfocus_def mem_inv_def)
qed

lemma exit_inv:
  assumes s: "sys_inv va loc s" and i: "i < length (procs s)" and v: "va 0 (2 ^ 64 - 2) = Ok (2 ^ 64 - 2)"
    and r: "vm_drop va (focus i s) = (r, t)"
  shows "sys_inv va loc ((unfocus i t s)\<lparr>procs := take i (procs s) @ drop (Suc i) (procs s)\<rparr>)"
proof -
  have va: "va_law va" using s by (simp add: sys_inv_def)
  have "space_ok loc (outside tmpfs_handles (focus i s) + others i s) (focus i s)"
    using focus_inv [OF s i] by (simp add: mem_inv_def)
  from vm_drop_spec [OF va v this] r have
    t: "space_ok loc (outside tmpfs_handles (focus i s) + others i s) t" "mappings (vm t) = []"
    "undisturbed (outside tmpfs_handles (focus i s) + others i s) (focus i s) t" by (metis prod.inject)+
  have f: "fs t = sfiles s" "trampoline t = strampoline s" using t(3) by (simp_all add: undisturbed_def focus_def)
  have "kp_inv (hp t) (others i s + add_mset (strampoline s) (tmpfs_handles (sfiles s)))"
    using t(1,2) by (simp add: space_ok_def vm_handles_def outside_def focus_def ac_simps)
  moreover have "vm_ok loc w" if "w \<in> set (take i (procs s) @ drop (Suc i) (procs s))" for w
    using that s by (auto simp: sys_inv_def dest: in_set_takeD in_set_dropD)
  ultimately show ?thesis using s f by (simp add: sys_inv_def sys_pages_def unfocus_def others_def)
qed

lemma spawn_inv: "sys_inv va loc s \<Longrightarrow> sys_inv va loc (s\<lparr>procs := procs s @ [VirtualMemory_new]\<rparr>)"
proof -
  have "vm_handles VirtualMemory_new = {#}" by (simp add: vm_handles_def VirtualMemory_new_def)
  then show "sys_inv va loc s \<Longrightarrow> ?thesis" using vm_ok_new [of loc] by (auto simp: sys_inv_def sys_pages_def)
qed

lemma sys_step_inv: "sys_inv va loc s \<Longrightarrow> sys_step va loc s t \<Longrightarrow> sys_inv va loc t"
proof (rotate_tac, induction rule: sys_step.induct)
  case (spawn s)
  then show ?case by (rule spawn_inv)
next
  case (fork i s c t)
  then show ?case by (intro fork_inv)
next
  case (fork_err i s e t)
  from vm_clone_spec [OF focus_inv [OF fork_err(3,1)]] fork_err(2)
  have "mem_inv tmpfs_handles tmpfs_ok loc (others i s) t" by simp
  then show ?case by (rule unfocus_inv [OF fork_err(3,1)])
next
  case (exit i s r t)
  then show ?case by (intro exit_inv)
next
  case (fault i s addr code r t)
  have "loc_ok loc" using fault(3) by (simp add: sys_inv_def)
  from fault_inv [OF focus_inv [OF fault(3,1)] this fault(2)] show ?case by (rule unfocus_inv [OF fault(3,1)])
next
  case (munmap i s n addr z r t)
  have "va_law va" using munmap(6) by (simp add: sys_inv_def)
  from unmap_inv [OF this focus_inv [OF munmap(6,1)] munmap(3,2,4,5)] show ?case by (rule unfocus_inv [OF munmap(6,1)])
next
  case (mmap i s addr n b off perms sh r t)
  have "va_law va" "clears (addr div 4096) ((addr + n - 1) div 4096) (mappings (vm (focus i s)))"
    using mmap(3,6) by (simp_all add: sys_inv_def focus_def)
  from mmap_inv [OF this(1) focus_inv [OF mmap(6,1)] mmap(2) this(2) mmap(4,5)] show ?case
    by (rule unfocus_inv [OF mmap(6,1)])
next
  case (mmap_dynamic i s n b off abi perms sh r t)
  have "va_law va" using mmap_dynamic(6) by (simp add: sys_inv_def)
  from mmap_dynamic_inv [OF this focus_inv [OF mmap_dynamic(6,1)] mmap_dynamic(2,3,4,5)] show ?case
    by (rule unfocus_inv [OF mmap_dynamic(6,1)])
next
  case (mprotect i s n addr z perms r t)
  have "va_law va" using mprotect(7) by (simp add: sys_inv_def)
  from mprotect_inv [OF this focus_inv [OF mprotect(7,1)] mprotect(3,2,4,5,6)] show ?case
    by (rule unfocus_inv [OF mprotect(7,1)])
next
  case (madvise i s addr n r t)
  have "va_law va" using madvise(6) by (simp add: sys_inv_def)
  from discard_inv [OF this focus_inv [OF madvise(6,1)] madvise(2,3,4,5)] show ?case
    by (rule unfocus_inv [OF madvise(6,1)])
next
  case (brk i s b r t)
  have "va_law va" "brk_end (vm (focus i s)) < 2 ^ 47" using brk(2,5) by (simp_all add: sys_inv_def focus_def)
  from brk_inv [OF this(1) focus_inv [OF brk(5,1)] this(2) brk(3,4)] show ?case by (rule unfocus_inv [OF brk(5,1)])
qed

interpretation spaces: step_system "sys_init va loc" "sys_step va loc" "sys_inv va loc" for va loc
proof
  fix s assume "sys_init va loc s"
  then show "sys_inv va loc s" by (simp add: sys_init_def sys_inv_def sys_pages_def)
qed (rule sys_step_inv)

section \<open>Who else sees a page\<close>






section \<open>An example\<close>

text \<open>One process that maps a page of zeroes, before and after it writes to it.\<close>

abbreviation plain_add :: va_add where
  "plain_add \<equiv> \<lambda>a n. Ok (a + n)"

definition example_mapping :: "backing mapping" where
  "example_mapping = \<lparr>backing = ZeroBacking, page_offset = 0, permissions = PERM_READ OR PERM_WRITE,
     shared = False, mpages = [None]\<rparr>"

definition example_vm :: vmem where
  "example_vm = VirtualMemory_new\<lparr>mappings := [(1, example_mapping)]\<rparr>"

definition example_sys :: sys where
  "example_sys = \<lparr>procs = [example_vm], sheap = heap_new [], sfiles = [], strampoline = zeroed\<rparr>"

abbreviation example_loc :: "addr \<Rightarrow> nat" where
  "example_loc \<equiv> \<lambda>a. if a = 1 then 1 else 0"

lemma example_mmap:
  "mmap plain_add (Fixed 0x1000) 0x1000 (PERM_READ OR PERM_WRITE) ZeroBacking 0 False
     \<lparr>vm = VirtualMemory_new, hp = heap_new [], fs = [], trampoline = zeroed\<rparr> =
   (Ok 0x1000, focus 0 example_sys)"
proof -
  have u: "unmap plain_add 0x1000 0x1000 s = (Ok (), s)"
    if "s = \<lparr>vm = VirtualMemory_new, hp = heap_new [], fs = [], trampoline = zeroed\<rparr>" for s :: "tmpfs mem"
  proof -
    have "try_unmap_user_pages (Included 1) (Included 1) Map.empty = Ok Map.empty"
      by (simp add: try_unmap_user_pages_def with_existing4_def idx_def LAST_USER_PAGE_def)
    then show ?thesis
      by (simp add: that unmap_def modify_tables_def VirtualMemory_new_def sbind_def get_vm_def modify_vm_def
          cursor_at_def Let_def)
  qed
  show ?thesis
    by (simp add: mmap_def sbind_def u [OF refl] modify_vm_def focus_def example_sys_def example_vm_def
        example_mapping_def Let_def) (simp add: VirtualMemory_new_def)
qed


lemma example_va: "va_law plain_add"
  by (simp add: va_law_def)

lemma example_sys_reachable: "reachable (sys_init plain_add example_loc) (sys_step plain_add example_loc) example_sys"
proof -
  let ?s = "\<lambda>ps. \<lparr>procs = ps, sheap = heap_new [], sfiles = [], strampoline = zeroed\<rparr>"
  let ?R = "reachable (sys_init plain_add example_loc) (sys_step plain_add example_loc)"
  have "kp_inv (heap_new []) {#zeroed#}" by (rule kp_inv_zeroed [OF kp_inv_new])
  then have "?R (?s [])"
    by (intro reachable.start) (simp add: sys_init_def example_va tmpfs_handles_def tmpfs_ok_def)
  from reachable.step [OF this sys_step.spawn] have r: "?R (?s [VirtualMemory_new])" by simp
  have m: "mmap plain_add (Fixed 0x1000) 0x1000 (PERM_READ OR PERM_WRITE) ZeroBacking 0 False (focus 0 (?s [VirtualMemory_new])) =
      (Ok 0x1000, focus 0 example_sys)" using example_mmap by (simp add: focus_def)
  have "sys_step plain_add example_loc (?s [VirtualMemory_new]) (unfocus 0 (focus 0 example_sys) (?s [VirtualMemory_new]))"
    by (rule sys_step.mmap [OF _ _ _ _ m])
      (simp_all add: user_range_def clears_def gap_def below_def VirtualMemory_new_def backing_ok_def)
  moreover have "unfocus 0 (focus 0 example_sys) (?s [VirtualMemory_new]) = example_sys"
    by (simp add: unfocus_def focus_def example_sys_def)
  ultimately show ?thesis using reachable.step [OF r] by metis
qed



section \<open>Properties\<close>




lemma example_inv: "mem_inv tmpfs_handles tmpfs_ok example_loc {#} (focus 0 example_sys)"
  using focus_inv [OF spaces.reachable_inv [OF example_sys_reachable], of 0] by (simp add: example_sys_def others_def)





text \<open>
  C4. Forking copies an address space. The child has the mappings of the parent and shows the same
  bytes at every page; the parent keeps showing what it showed. Afterwards no page table entry
  of the parent is writable and the child has none, so that the next write of either goes
  through a fault. Running out of memory leaves the parent as it was and frees what there was
  of the child.
\<close>

theorem fork_refines:
  assumes "mem_inv fhandles fok loc N s"
  shows "\<exists>r t. vm_clone s = (r, t) \<and>
    (\<forall>q. shape (cell (mappings (vm t)) q) = shape (cell (mappings (vm s)) q) \<and> shown t q = shown s q \<and>
       \<not> bit (pml4_view (pagetables (vm t)) q) WRITE_BIT) \<and>
    (\<forall>x. x \<in># N \<longrightarrow> view (hp t) x = view (hp s) x) \<and>
    (case r of
       Ok c \<Rightarrow> mem_inv fhandles fok loc (vm_handles c + N) t \<and> vm_ok loc c \<and> brk_end c = brk_end (vm s) \<and>
         (\<forall>q. shape (cell (mappings c) q) = shape (cell (mappings (vm s)) q) \<and>
            map_option (view (hp t) \<circ> upage) (resident (mappings c) q) = shown s q)
     | Err e \<Rightarrow> e = NoMem \<and> mem_inv fhandles fok loc N t
     | Panic \<Rightarrow> False)"
  using assms by (rule vm_clone_spec)

theorem fork_refines_witness:
  "\<exists>r t. vm_clone (focus 0 example_sys) = (r, t) \<and> r \<noteq> Panic \<and> shown t 1 = shown (focus 0 example_sys) 1"
  using fork_refines [OF example_inv] by (fastforce split: outcome.splits)

text \<open>
  C5. Unmapping a range of addresses takes exactly the pages of the range out of the mappings and
  their entries out of the page tables, gives the pages back, and leaves every other page with
  its bytes. There is one exception: when the first page of the range is not mapped although
  something is mapped below it, the mappings are left as they are, whatever the range covers.
\<close>

theorem unmap_refines:
  fixes s :: "'f mem"
  assumes "va_law va" and "va addr (n - 1) = Ok z" and "n \<noteq> 0" and "addr \<le> z" and "space_ok loc N s"
  shows "\<exists>t. unmap va addr n s = (Ok (), t) \<and> space_ok loc N t \<and> undisturbed N s t \<and>
    (\<forall>q. cell (mappings (vm t)) q =
      (if \<not> gap (addr div 4096) (mappings (vm s)) \<and> addr div 4096 \<le> q \<and> q \<le> z div 4096 then None
       else cell (mappings (vm s)) q)) \<and>
    (\<forall>q \<le> LAST_USER_PAGE. addr div 4096 \<le> q \<and> q \<le> z div 4096 \<longrightarrow> pml4_view (pagetables (vm t)) q = 0) \<and>
    brk_end (vm t) = brk_end (vm s)"
  using assms by (rule unmap_spec)

lemma example_space: "space_ok example_loc {#zeroed#} (focus 0 example_sys)"
  using example_inv by (simp add: mem_inv_def outside_def focus_def example_sys_def tmpfs_handles_def)

theorem unmap_refines_witness:
  "\<exists>t. unmap plain_add 0x1000 0x2000 (focus 0 example_sys) = (Ok (), t) \<and> cell (mappings (vm t)) 1 = None"
proof -
  have "\<not> gap 1 (mappings (vm (focus 0 example_sys)))"
    by (simp add: gap_def focus_def example_sys_def example_vm_def example_mapping_def)
  with unmap_refines [OF example_va _ _ _ example_space, where addr = "0x1000" and n = "0x2000" and z = "0x2fff"] show ?thesis by auto
qed





end
