(* ===== verification/Tmpfs.thy ===== *)
theory Tmpfs
  imports Ordered_Map Paths File_Access Page_Buffer
begin

text \<open>
  The in-memory file system, \<^verbatim>\<open>tee/kernel/src/fs/node/tmpfs.rs\<close>, with the locations of
  directories of \<^verbatim>\<open>fs/node/directory.rs\<close>.

  Nodes live in a store and are known by their inode number, which \<^verbatim>\<open>new_ino\<close> gives out
  once: two handles (\<^verbatim>\<open>Arc\<close>) are equal when the numbers are. A node that was freed is
  absent from the store; a weak reference to it cannot be upgraded. Operations return the
  store they leave behind with their outcome. The file system that is mounted is any number
  of instances of this one; the nodes of \<^verbatim>\<open>procfs\<close> do not occur.
\<close>

section \<open>Nodes\<close>

type_synonym nid = nat

datatype location = LRoot | LDirectory nid file_name | LMount nid file_name

datatype dir_entry = EFile nid | EDir nid | ESymlink nid | ECharDev nid | EFifo nid | EMount nid

fun entry_node :: "dir_entry \<Rightarrow> nid" where
  "entry_node (EFile n) = n"
| "entry_node (EDir n) = n"
| "entry_node (ESymlink n) = n"
| "entry_node (ECharDev n) = n"
| "entry_node (EFifo n) = n"
| "entry_node (EMount n) = n"

record dir =
  d_fs :: nat
  d_location :: location
  d_ownership :: ownership
  d_items :: "(file_name, dir_entry) btree"
  d_atime :: timespec
  d_mtime :: timespec
  d_ctime :: timespec

record tmp_file =
  f_fs :: nat
  f_buffer :: buffer
  f_ownership :: ownership
  f_atime :: timespec
  f_mtime :: timespec
  f_ctime :: timespec
  f_links :: nat

record symlink =
  s_fs :: nat
  s_target :: path
  s_ownership :: ownership
  s_atime :: timespec
  s_mtime :: timespec
  s_ctime :: timespec

record char_dev =
  c_fs :: nat
  c_major :: u16
  c_minor :: u8
  c_ownership :: ownership

record fifo =
  p_fs :: nat
  p_ownership :: ownership

datatype node =
  TmpFsDir dir | TmpFsFile tmp_file | TmpFsSymlink symlink | TmpFsCharDev char_dev | TmpFsFifo fifo

text \<open>The store, the counters of \<^verbatim>\<open>new_ino\<close> and \<^verbatim>\<open>new_dev\<close>, and what the clock shows.\<close>

record fs =
  nodes :: "nid \<Rightarrow> node option"
  ino_counter :: nat
  dev_counter :: nat
  clock :: timespec

abbreviation (input) ROOT_NODE :: nid where
  "ROOT_NODE \<equiv> 1"

definition set_node :: "nid \<Rightarrow> node \<Rightarrow> fs \<Rightarrow> fs" where
  "set_node n x s = s\<lparr>nodes := (nodes s)(n \<mapsto> x)\<rparr>"

definition new_node :: "node \<Rightarrow> fs \<Rightarrow> nid \<times> fs" where
  "new_node x s = (ino_counter s, set_node (ino_counter s) x (s\<lparr>ino_counter := ino_counter s + 1\<rparr>))"

text \<open>What a handle refers to, and as a directory: the default methods of \<^verbatim>\<open>INode\<close> that
  only directories override fail with \<^verbatim>\<open>NotDir\<close>.\<close>

definition deref :: "nid \<Rightarrow> fs \<Rightarrow> node result" where
  "deref n s = unwrap (nodes s n)"

definition as_dir :: "nid \<Rightarrow> fs \<Rightarrow> dir result" where
  "as_dir n s = rbind (deref n s) (\<lambda>x. case x of TmpFsDir d \<Rightarrow> Ok d | _ \<Rightarrow> Err NotDir)"

definition update_items :: "nid \<Rightarrow> ((file_name, dir_entry) btree \<Rightarrow> (file_name, dir_entry) btree) \<Rightarrow> fs \<Rightarrow> fs" where
  "update_items n g s =
     (case nodes s n of
        Some (TmpFsDir d) \<Rightarrow> set_node n (TmpFsDir (d\<lparr>d_items := g (d_items d)\<rparr>)) s
      | _ \<Rightarrow> s)"

section \<open>Creating nodes\<close>

definition dir_node :: "nat \<Rightarrow> location \<Rightarrow> u64 \<Rightarrow> u32 \<Rightarrow> u32 \<Rightarrow> timespec \<Rightarrow> node" where
  "dir_node dev loc mode uid gid now =
     TmpFsDir \<lparr>d_fs = dev, d_location = loc, d_ownership = Ownership_new mode uid gid, d_items = [],
       d_atime = now, d_mtime = now, d_ctime = now\<rparr>"

definition TmpFsDir_new :: "nat \<Rightarrow> location \<Rightarrow> u64 \<Rightarrow> u32 \<Rightarrow> u32 \<Rightarrow> fs \<Rightarrow> nid \<times> fs" where
  "TmpFsDir_new dev loc mode uid gid s = new_node (dir_node dev loc mode uid gid (clock s)) s"

definition file_node :: "nat \<Rightarrow> u64 \<Rightarrow> u32 \<Rightarrow> u32 \<Rightarrow> timespec \<Rightarrow> node" where
  "file_node dev mode uid gid now =
     TmpFsFile \<lparr>f_fs = dev, f_buffer = Buffer_new, f_ownership = Ownership_new mode uid gid,
       f_atime = now, f_mtime = now, f_ctime = now, f_links = 1\<rparr>"

definition TmpFsFile_new :: "nat \<Rightarrow> u64 \<Rightarrow> u32 \<Rightarrow> u32 \<Rightarrow> fs \<Rightarrow> nid \<times> fs" where
  "TmpFsFile_new dev mode uid gid s = new_node (file_node dev mode uid gid (clock s)) s"

definition symlink_node :: "nat \<Rightarrow> path \<Rightarrow> u32 \<Rightarrow> u32 \<Rightarrow> timespec \<Rightarrow> node" where
  "symlink_node dev target uid gid now =
     TmpFsSymlink \<lparr>s_fs = dev, s_target = target, s_ownership = Ownership_new FileMode_ALL uid gid,
       s_atime = now, s_mtime = now, s_ctime = now\<rparr>"

definition TmpFsSymlink_new :: "nat \<Rightarrow> path \<Rightarrow> u32 \<Rightarrow> u32 \<Rightarrow> fs \<Rightarrow> nid \<times> fs" where
  "TmpFsSymlink_new dev target uid gid s = new_node (symlink_node dev target uid gid (clock s)) s"

definition TmpFsCharDev_new :: "nat \<Rightarrow> u16 \<Rightarrow> u8 \<Rightarrow> u64 \<Rightarrow> u32 \<Rightarrow> u32 \<Rightarrow> fs \<Rightarrow> nid \<times> fs" where
  "TmpFsCharDev_new dev major minor mode uid gid s =
     new_node (TmpFsCharDev \<lparr>c_fs = dev, c_major = major, c_minor = minor,
       c_ownership = Ownership_new mode uid gid\<rparr>) s"

definition TmpFsFifo_new :: "nat \<Rightarrow> u64 \<Rightarrow> u32 \<Rightarrow> u32 \<Rightarrow> fs \<Rightarrow> nid \<times> fs" where
  "TmpFsFifo_new dev mode uid gid s =
     new_node (TmpFsFifo \<lparr>p_fs = dev, p_ownership = Ownership_new mode uid gid\<rparr>) s"

text \<open>\<^verbatim>\<open>TmpFs::new\<close> and the root of a fresh instance.\<close>

definition new_dev :: "fs \<Rightarrow> nat \<times> fs" where
  "new_dev s = (dev_counter s, s\<lparr>dev_counter := dev_counter s + 1\<rparr>)"

section \<open>Status\<close>

definition make_stat ::
  "nat \<Rightarrow> nid \<Rightarrow> nat \<Rightarrow> file_type \<Rightarrow> u64 \<Rightarrow> ownership \<Rightarrow> u64 \<Rightarrow> int \<Rightarrow> timespec \<Rightarrow> timespec \<Rightarrow> timespec \<Rightarrow> stat" where
  "make_stat dev n links ty mode own rdev sz at mt ct =
     \<lparr>st_dev = of_nat dev, st_ino = of_nat n, st_nlink = links, st_mode = FileTypeAndMode_new ty mode,
      st_uid = own_uid own, st_gid = own_gid own, st_rdev = rdev, st_size = sz, st_blksize = 0,
      st_blocks = 0, st_atime = at, st_mtime = mt, st_ctime = ct\<rparr>"

fun node_stat :: "nid \<Rightarrow> node \<Rightarrow> stat" where
  "node_stat n (TmpFsDir d) =
     make_stat (d_fs d) n 1 Dir (own_mode (d_ownership d)) (d_ownership d) 0 (2 + int (length (d_items d)))
       (d_atime d) (d_mtime d) (d_ctime d)"
| "node_stat n (TmpFsFile f) =
     make_stat (f_fs f) n (f_links f) File (own_mode (f_ownership f)) (f_ownership f) 0 (int (len (f_buffer f)))
       (f_atime f) (f_mtime f) (f_ctime f)"
| "node_stat n (TmpFsSymlink l) =
     make_stat (s_fs l) n 1 Link FileMode_ALL (s_ownership l) 0 (int (length (s_target l)))
       (s_atime l) (s_mtime l) (s_ctime l)"
| "node_stat n (TmpFsCharDev c) =
     make_stat (c_fs c) n 1 Char_Dev (own_mode (c_ownership c)) (c_ownership c)
       (push_bit 8 (ucast (c_major c)) OR ucast (c_minor c)) 0 Timespec_ZERO Timespec_ZERO Timespec_ZERO"
| "node_stat n (TmpFsFifo p) =
     make_stat (p_fs p) n 1 Fifo (own_mode (p_ownership p)) (p_ownership p) 0 0
       Timespec_ZERO Timespec_ZERO Timespec_ZERO"

definition stat_of :: "nid \<Rightarrow> fs \<Rightarrow> stat result" where
  "stat_of n s = rmap (node_stat n) (deref n s)"

definition ty_of :: "nid \<Rightarrow> fs \<Rightarrow> file_type result" where
  "ty_of n s = rbind (stat_of n s) (\<lambda>st. FileTypeAndMode_ty (st_mode st))"

fun node_chmod :: "u64 \<Rightarrow> file_access_context \<Rightarrow> node \<Rightarrow> node result" where
  "node_chmod mode ctx (TmpFsDir d) = rmap (\<lambda>own. TmpFsDir (d\<lparr>d_ownership := own\<rparr>)) (chmod mode ctx (d_ownership d))"
| "node_chmod mode ctx (TmpFsFile f) = rmap (\<lambda>own. TmpFsFile (f\<lparr>f_ownership := own\<rparr>)) (chmod mode ctx (f_ownership f))"
| "node_chmod mode ctx (TmpFsSymlink l) = Ok (TmpFsSymlink l)"
| "node_chmod mode ctx (TmpFsCharDev c) = rmap (\<lambda>own. TmpFsCharDev (c\<lparr>c_ownership := own\<rparr>)) (chmod mode ctx (c_ownership c))"
| "node_chmod mode ctx (TmpFsFifo p) = rmap (\<lambda>own. TmpFsFifo (p\<lparr>p_ownership := own\<rparr>)) (chmod mode ctx (p_ownership p))"

fun node_chown :: "u32 \<Rightarrow> u32 \<Rightarrow> file_access_context \<Rightarrow> node \<Rightarrow> node result" where
  "node_chown uid gid ctx (TmpFsDir d) = rmap (\<lambda>own. TmpFsDir (d\<lparr>d_ownership := own\<rparr>)) (chown uid gid ctx (d_ownership d))"
| "node_chown uid gid ctx (TmpFsFile f) = rmap (\<lambda>own. TmpFsFile (f\<lparr>f_ownership := own\<rparr>)) (chown uid gid ctx (f_ownership f))"
| "node_chown uid gid ctx (TmpFsSymlink l) = rmap (\<lambda>own. TmpFsSymlink (l\<lparr>s_ownership := own\<rparr>)) (chown uid gid ctx (s_ownership l))"
| "node_chown uid gid ctx (TmpFsCharDev c) = rmap (\<lambda>own. TmpFsCharDev (c\<lparr>c_ownership := own\<rparr>)) (chown uid gid ctx (c_ownership c))"
| "node_chown uid gid ctx (TmpFsFifo p) = rmap (\<lambda>own. TmpFsFifo (p\<lparr>p_ownership := own\<rparr>)) (chown uid gid ctx (p_ownership p))"

definition or_else :: "'a option \<Rightarrow> 'a \<Rightarrow> 'a" where
  "or_else x y = (case x of Some v \<Rightarrow> v | None \<Rightarrow> y)"

fun node_update_times :: "timespec \<Rightarrow> timespec option \<Rightarrow> timespec option \<Rightarrow> node \<Rightarrow> node" where
  "node_update_times ct at mt (TmpFsDir d) =
     TmpFsDir (d\<lparr>d_ctime := ct, d_atime := or_else at (d_atime d), d_mtime := or_else mt (d_mtime d)\<rparr>)"
| "node_update_times ct at mt (TmpFsFile f) =
     TmpFsFile (f\<lparr>f_ctime := ct, f_atime := or_else at (f_atime f), f_mtime := or_else mt (f_mtime f)\<rparr>)"
| "node_update_times ct at mt (TmpFsSymlink l) =
     TmpFsSymlink (l\<lparr>s_ctime := ct, s_atime := or_else at (s_atime l), s_mtime := or_else mt (s_mtime l)\<rparr>)"
| "node_update_times ct at mt (TmpFsCharDev c) = TmpFsCharDev c"
| "node_update_times ct at mt (TmpFsFifo p) = TmpFsFifo p"

definition change_node :: "nid \<Rightarrow> (node \<Rightarrow> node result) \<Rightarrow> (fs, unit) stateful" where
  "change_node n g s =
     (case rbind (deref n s) g of Ok x \<Rightarrow> (Ok (), set_node n x s) | Err e \<Rightarrow> (Err e, s) | Panic \<Rightarrow> (Panic, s))"

definition inode_chmod :: "nid \<Rightarrow> u64 \<Rightarrow> file_access_context \<Rightarrow> (fs, unit) stateful" where
  "inode_chmod n mode ctx = change_node n (node_chmod mode ctx)"

definition inode_chown :: "nid \<Rightarrow> u32 \<Rightarrow> u32 \<Rightarrow> file_access_context \<Rightarrow> (fs, unit) stateful" where
  "inode_chown n uid gid ctx = change_node n (node_chown uid gid ctx)"

definition update_times :: "nid \<Rightarrow> timespec \<Rightarrow> timespec option \<Rightarrow> timespec option \<Rightarrow> (fs, unit) stateful" where
  "update_times n ct at mt = change_node n (\<lambda>x. Ok (node_update_times ct at mt x))"

section \<open>Links\<close>

text \<open>
  The number of links of a regular file is kept by cloning and dropping directory entries;
  dropping the entry of a file without links would overflow.
\<close>

definition increase_link_count :: "nid \<Rightarrow> fs \<Rightarrow> fs result" where
  "increase_link_count n s =
     rbind (deref n s) (\<lambda>x. case x of
       TmpFsFile f \<Rightarrow> rmap (\<lambda>l. set_node n (TmpFsFile (f\<lparr>f_links := l\<rparr>)) s) (uadd (f_links f) 1)
     | _ \<Rightarrow> Panic)"

definition decrease_link_count :: "nid \<Rightarrow> fs \<Rightarrow> fs result" where
  "decrease_link_count n s =
     rbind (deref n s) (\<lambda>x. case x of
       TmpFsFile f \<Rightarrow> rmap (\<lambda>l. set_node n (TmpFsFile (f\<lparr>f_links := l\<rparr>)) s) (usub (f_links f) 1)
     | _ \<Rightarrow> Panic)"

definition modify :: "(fs \<Rightarrow> fs result) \<Rightarrow> (fs, unit) stateful" where
  "modify g s = (case g s of Ok s' \<Rightarrow> (Ok (), s') | Err e \<Rightarrow> (Err e, s) | Panic \<Rightarrow> (Panic, s))"

fun clone_entry :: "dir_entry \<Rightarrow> (fs, unit) stateful" where
  "clone_entry (EFile n) = modify (increase_link_count n)"
| "clone_entry _ = sret ()"

fun drop_entry :: "dir_entry \<Rightarrow> (fs, unit) stateful" where
  "drop_entry (EFile n) = modify (decrease_link_count n)"
| "drop_entry _ = sret ()"

text \<open>Inserting into a directory drops the entry that was there.\<close>

definition insert_entry :: "nid \<Rightarrow> file_name \<Rightarrow> dir_entry \<Rightarrow> (fs, unit) stateful" where
  "insert_entry n name e =
     sbind (\<lambda>s. (as_dir n s, s)) (\<lambda>d.
     sbind (\<lambda>s. (Ok (), update_items n (bt_insert name e) s)) (\<lambda>_.
       case bt_get name (d_items d) of Some old \<Rightarrow> drop_entry old | None \<Rightarrow> sret ()))"

definition remove_entry :: "nid \<Rightarrow> file_name \<Rightarrow> (fs, unit) stateful" where
  "remove_entry n name s = (Ok (), update_items n (bt_remove name) s)"

section \<open>Locations\<close>

text \<open>\<^verbatim>\<open>Location::get\<close>: the parent must be alive.\<close>

definition location_get :: "location \<Rightarrow> fs \<Rightarrow> (nid \<times> file_name) option result" where
  "location_get loc s =
     (case loc of
        LRoot \<Rightarrow> Ok None
      | LDirectory p name \<Rightarrow> if nodes s p = None then Err NoEnt else Ok (Some (p, name))
      | LMount p name \<Rightarrow> if nodes s p = None then Err NoEnt else Ok (Some (p, name)))"

definition parent :: "nid \<Rightarrow> fs \<Rightarrow> nid result" where
  "parent n s =
     rbind (as_dir n s) (\<lambda>d. rbind (location_get (d_location d) s) (\<lambda>l.
       Ok (case l of Some (p, _) \<Rightarrow> p | None \<Rightarrow> n)))"

definition set_location :: "nid \<Rightarrow> location \<Rightarrow> fs \<Rightarrow> fs" where
  "set_location n loc s =
     (case nodes s n of Some (TmpFsDir d) \<Rightarrow> set_node n (TmpFsDir (d\<lparr>d_location := loc\<rparr>)) s | _ \<Rightarrow> s)"

text \<open>\<^verbatim>\<open>Directory::path\<close> recurses along the parents; it need not come to an end.\<close>

partial_function (option) dir_path :: "fs \<Rightarrow> nid \<Rightarrow> path result option" where
  "dir_path s n =
     (case rbind (as_dir n s) (\<lambda>d. location_get (d_location d) s) of
        Ok None \<Rightarrow> Some (Path_new [slash])
      | Ok (Some (p, name)) \<Rightarrow>
          Option.bind (dir_path s p) (\<lambda>r. Some (rbind r (\<lambda>path. join_segment path name)))
      | Err e \<Rightarrow> Some (Err e)
      | Panic \<Rightarrow> Some Panic)"

section \<open>Directory operations\<close>

definition get_node :: "nid \<Rightarrow> file_name \<Rightarrow> fs \<Rightarrow> nid result" where
  "get_node n name s =
     rbind (as_dir n s) (\<lambda>d. ok_or (map_option entry_node (bt_get name (d_items d))) NoEnt)"

definition is_empty :: "nid \<Rightarrow> fs \<Rightarrow> bool" where
  "is_empty n s = (case nodes s n of Some (TmpFsDir d) \<Rightarrow> d_items d = [] | _ \<Rightarrow> False)"

text \<open>\<open>create\<close> makes a node with \<open>new\<close> and enters it when the name is free.\<close>

definition create ::
  "nid \<Rightarrow> file_name \<Rightarrow> (dir \<Rightarrow> fs \<Rightarrow> nid \<times> fs) \<Rightarrow> (nid \<Rightarrow> dir_entry) \<Rightarrow> (fs, nid + nid) stateful" where
  "create n name new entry =
     sbind (\<lambda>s. (as_dir n s, s)) (\<lambda>d.
       case bt_get name (d_items d) of
         None \<Rightarrow> (\<lambda>s. case new d s of (m, s') \<Rightarrow> (Ok (Inr m), update_items n (bt_insert name (entry m)) s'))
       | Some e \<Rightarrow> sret (Inl (entry_node e)))"

definition or_exist :: "('a + 'a) \<Rightarrow> 'a result" where
  "or_exist x = (case x of Inr m \<Rightarrow> Ok m | Inl _ \<Rightarrow> Err Exist)"

text \<open>\<open>Inr\<close>: the file that was created; \<open>Inl\<close>: the node that is there.\<close>

definition dir_create_file :: "nid \<Rightarrow> file_name \<Rightarrow> u64 \<Rightarrow> u32 \<Rightarrow> u32 \<Rightarrow> (fs, nid + nid) stateful" where
  "dir_create_file n name mode uid gid = create n name (\<lambda>d. TmpFsFile_new (d_fs d) mode uid gid) EFile"

definition dir_create_dir :: "nid \<Rightarrow> file_name \<Rightarrow> u64 \<Rightarrow> u32 \<Rightarrow> u32 \<Rightarrow> (fs, nid) stateful" where
  "dir_create_dir n name mode uid gid =
     sbind (create n name (\<lambda>d. TmpFsDir_new (d_fs d) (LDirectory n name) mode uid gid) EDir)
       (\<lambda>x. slift (or_exist x))"

definition dir_create_char_dev :: "nid \<Rightarrow> file_name \<Rightarrow> u16 \<Rightarrow> u8 \<Rightarrow> u64 \<Rightarrow> u32 \<Rightarrow> u32 \<Rightarrow> (fs, nid) stateful" where
  "dir_create_char_dev n name major minor mode uid gid =
     sbind (create n name (\<lambda>d. TmpFsCharDev_new (d_fs d) major minor mode uid gid) ECharDev)
       (\<lambda>x. slift (or_exist x))"

definition dir_create_fifo :: "nid \<Rightarrow> file_name \<Rightarrow> u64 \<Rightarrow> u32 \<Rightarrow> u32 \<Rightarrow> (fs, unit) stateful" where
  "dir_create_fifo n name mode uid gid =
     sbind (create n name (\<lambda>d. TmpFsFifo_new (d_fs d) mode uid gid) EFifo)
       (\<lambda>x. slift (rmap (\<lambda>_. ()) (or_exist x)))"

definition dir_create_link :: "nid \<Rightarrow> file_name \<Rightarrow> path \<Rightarrow> u32 \<Rightarrow> u32 \<Rightarrow> bool \<Rightarrow> (fs, nid) stateful" where
  "dir_create_link n name target uid gid create_new =
     sbind (\<lambda>s. (as_dir n s, s)) (\<lambda>d.
     sbind (slift (ensure (bt_get name (d_items d) = None \<or> \<not> create_new) Exist (Ok ()))) (\<lambda>_.
     sbind (\<lambda>s. case TmpFsSymlink_new (d_fs d) target uid gid s of (m, s') \<Rightarrow> (Ok m, s')) (\<lambda>m.
     sbind (insert_entry n name (ESymlink m)) (\<lambda>_. sret m))))"

definition dir_mount :: "nid \<Rightarrow> file_name \<Rightarrow> nid \<Rightarrow> (fs, unit) stateful" where
  "dir_mount n name m = insert_entry n name (EMount m)"

definition list_entries :: "nid \<Rightarrow> fs \<Rightarrow> (nid \<times> file_type \<times> path_segment) list result" where
  "list_entries n s =
     rbind (as_dir n s) (\<lambda>d.
       let dotdot = (case location_get (d_location d) s of
             Ok (Some (p, _)) \<Rightarrow> [(p, Dir, DotDot)]
           | _ \<Rightarrow> []) in
       rmap (\<lambda>es. (n, Dir, Dot) # dotdot @ es)
         (foldr (\<lambda>(name, e) r. rbind (ty_of (entry_node e) s) (\<lambda>ty. rmap (\<lambda>es. (entry_node e, ty, FileName name) # es) r))
           (d_items d) (Ok [])))"

definition delete_non_dir :: "nid \<Rightarrow> file_name \<Rightarrow> (fs, unit) stateful" where
  "delete_non_dir n name =
     sbind (\<lambda>s. (as_dir n s, s)) (\<lambda>d.
     sbind (slift (ok_or (bt_get name (d_items d)) NoEnt)) (\<lambda>e.
     sbind (\<lambda>s. (ty_of (entry_node e) s, s)) (\<lambda>ty.
     sbind (slift (ensure (ty \<noteq> Dir) IsDir (Ok ()))) (\<lambda>_.
     sbind (remove_entry n name) (\<lambda>_. drop_entry e)))))"

definition delete_dir :: "nid \<Rightarrow> file_name \<Rightarrow> (fs, unit) stateful" where
  "delete_dir n name =
     sbind (\<lambda>s. (as_dir n s, s)) (\<lambda>d.
     sbind (slift (ok_or (bt_get name (d_items d)) NoEnt)) (\<lambda>e.
     sbind (\<lambda>s. (ty_of (entry_node e) s, s)) (\<lambda>ty.
     sbind (slift (ensure (ty = Dir) NotDir (Ok ()))) (\<lambda>_.
     sbind (\<lambda>s. (ensure (is_empty (entry_node e) s) NotEmpty (Ok ()), s)) (\<lambda>_.
     sbind (remove_entry n name) (\<lambda>_. drop_entry e))))))"

section \<open>Renaming, exchanging and linking\<close>

text \<open>The other directory must be one of the same file system.\<close>

definition same_fs :: "nid \<Rightarrow> nid \<Rightarrow> fs \<Rightarrow> (dir \<times> dir) result" where
  "same_fs n n' s =
     rbind (as_dir n s) (\<lambda>d.
     rbind (deref n' s) (\<lambda>x. case x of
       TmpFsDir d' \<Rightarrow> ensure (d_fs d' = d_fs d) XDev (Ok (d, d'))
     | _ \<Rightarrow> Err XDev))"

fun can_replace :: "dir_entry \<Rightarrow> dir_entry \<Rightarrow> fs \<Rightarrow> unit result" where
  "can_replace (EMount _) _ s = Err Busy"
| "can_replace _ (EMount _) s = Err Busy"
| "can_replace (EDir _) (EDir n) s = ensure (is_empty n s) NotEmpty (Ok ())"
| "can_replace (EDir _) _ s = Err NotDir"
| "can_replace _ (EDir _) s = Err IsDir"
| "can_replace _ _ s = Ok ()"

definition can_rename :: "dir_entry \<Rightarrow> dir_entry option \<Rightarrow> bool \<Rightarrow> fs \<Rightarrow> unit result" where
  "can_rename old new check_is_dir s =
     ensure (\<not> check_is_dir \<or> (\<exists>n. old = EDir n)) NotDir
       (case new of Some e \<Rightarrow> can_replace old e s | None \<Rightarrow> Ok ())"

text \<open>
  The loop that makes sure that the entry is not the directory \<open>m\<close> or one above it. It follows
  the parents; like the path, it need not come to an end.
\<close>

partial_function (option) check_not_above :: "nid \<Rightarrow> fs \<Rightarrow> nid \<Rightarrow> unit result option" where
  "check_not_above e s m =
     (if e = m then Some (Err Inval)
      else case parent m s of
        Ok p \<Rightarrow> if p = m then Some (Ok ()) else check_not_above e s p
      | Err x \<Rightarrow> Some (Err x)
      | Panic \<Rightarrow> Some Panic)"

text \<open>The last step of a rename: the entry is taken out of \<open>n\<close>, a directory learns its new
  location, and the entry goes into \<open>n'\<close>.\<close>

definition move_entry :: "nid \<Rightarrow> file_name \<Rightarrow> dir_entry \<Rightarrow> nid \<Rightarrow> file_name \<Rightarrow> (fs, unit) stateful" where
  "move_entry n oldname e n' newname =
     sbind (remove_entry n oldname) (\<lambda>_.
     sbind (\<lambda>s. (Ok (), case e of EDir m \<Rightarrow> set_location m (LDirectory n' newname) s | _ \<Rightarrow> s)) (\<lambda>_.
       insert_entry n' newname e))"

definition dir_rename ::
  "nid \<Rightarrow> file_name \<Rightarrow> bool \<Rightarrow> nid \<Rightarrow> file_name \<Rightarrow> bool \<Rightarrow> fs \<Rightarrow> (unit result \<times> fs) option" where
  "dir_rename n oldname check_is_dir n' newname no_replace s =
     (case same_fs n n' s of
        Err e \<Rightarrow> Some (Err e, s)
      | Panic \<Rightarrow> Some (Panic, s)
      | Ok (d, d') \<Rightarrow>
          let new = bt_get newname (d_items d') in
          (case bt_get oldname (d_items d) of
             None \<Rightarrow> Some (Err NoEnt, s)
           | Some old \<Rightarrow>
               if n = n' then
                 if newname = oldname
                 then Some (ensure (\<not> no_replace) Exist (can_rename old None check_is_dir s), s)
                 else Some (sbind (slift (ensure (\<not> no_replace \<or> new = None) Exist (can_rename old new check_is_dir s)))
                        (\<lambda>_. move_entry n oldname old n newname) s)
               else
                 (case check_not_above (entry_node old) s n' of
                    None \<Rightarrow> None
                  | Some r \<Rightarrow>
                      Some (sbind (slift r) (\<lambda>_.
                        sbind (slift (can_rename old new check_is_dir s)) (\<lambda>_.
                        sbind (slift (ensure (\<not> no_replace \<or> new = None) Exist (Ok ()))) (\<lambda>_.
                          move_entry n oldname old n' newname))) s))))"

text \<open>
  \<^verbatim>\<open>exchange\<close>: the clone of the old entry goes under the new name, and what was there under
  the old name. Only the entry from the new name, when it is a directory, gets a location, that
  of the new name.
\<close>

definition swap_entries :: "nid \<Rightarrow> file_name \<Rightarrow> dir_entry \<Rightarrow> nid \<Rightarrow> file_name \<Rightarrow> dir_entry \<Rightarrow> (fs, unit) stateful" where
  "swap_entries n oldname old n' newname new =
     sbind (\<lambda>s. (Ok (), update_items n' (bt_insert newname old) s)) (\<lambda>_.
     sbind (\<lambda>s. (Ok (), case new of EDir m \<Rightarrow> set_location m (LDirectory n' newname) s | _ \<Rightarrow> s)) (\<lambda>_.
       insert_entry n oldname new))"

definition dir_exchange :: "nid \<Rightarrow> file_name \<Rightarrow> nid \<Rightarrow> file_name \<Rightarrow> fs \<Rightarrow> (unit result \<times> fs) option" where
  "dir_exchange n oldname n' newname s =
     (case same_fs n n' s of
        Err e \<Rightarrow> Some (Err e, s)
      | Panic \<Rightarrow> Some (Panic, s)
      | Ok (d, d') \<Rightarrow>
          if n = n' \<and> newname = oldname then Some (Ok (), s)
          else case bt_get oldname (d_items d) of
            None \<Rightarrow> Some (Err NoEnt, s)
          | Some old \<Rightarrow>
              if n = n' then
                Some (sbind (clone_entry old) (\<lambda>_.
                  case bt_get newname (d_items d') of
                    None \<Rightarrow> sbind (drop_entry old) (\<lambda>_. slift (Err NoEnt))
                  | Some new \<Rightarrow> swap_entries n oldname old n' newname new) s)
              else case bt_get newname (d_items d') of
                None \<Rightarrow> Some (Err NoEnt, s)
              | Some new \<Rightarrow>
                  (case check_not_above (entry_node new) s n' of
                     None \<Rightarrow> None
                   | Some r \<Rightarrow>
                       Some (sbind (slift r) (\<lambda>_. sbind (clone_entry old) (\<lambda>_.
                         swap_entries n oldname old n' newname new)) s)))"

text \<open>\<open>Some target\<close>: the name is a symbolic link that is to be followed. On an error the clone
  of the entry is dropped.\<close>

definition dir_hard_link :: "nid \<Rightarrow> file_name \<Rightarrow> bool \<Rightarrow> nid \<Rightarrow> file_name \<Rightarrow> (fs, path option) stateful" where
  "dir_hard_link n oldname follow n' newname =
     sbind (\<lambda>s. (same_fs n n' s, s)) (\<lambda>(d, d').
     sbind (slift (ok_or (bt_get oldname (d_items d)) NoEnt)) (\<lambda>e.
     sbind (clone_entry e) (\<lambda>_ s.
       let target = (case nodes s (entry_node e) of Some (TmpFsSymlink l) \<Rightarrow> Some (s_target l) | _ \<Rightarrow> None);
           fail = (\<lambda>x. sbind (drop_entry e) (\<lambda>_. slift (Err x))) in
       if follow \<and> (\<exists>m. e = ESymlink m) then
         (case target of Some p \<Rightarrow> (Ok (Some p), s) | None \<Rightarrow> (Panic, s))
       else case e of
         EDir _ \<Rightarrow> fail Perm s
       | EMount _ \<Rightarrow> fail Busy s
       | _ \<Rightarrow>
           if bt_get newname (d_items d') \<noteq> None then fail Exist s
           else
             sbind (\<lambda>s. (Ok (), update_items n' (bt_insert newname e) s)) (\<lambda>_.
             sbind (update_times (entry_node e) (clock s) None None) (\<lambda>_. sret None)) s)))"

section \<open>Freeing nodes\<close>

text \<open>What happens when the last handle of a node goes away: a directory drops its entries.\<close>

definition free_node :: "nid \<Rightarrow> (fs, unit) stateful" where
  "free_node m s =
     sbind (sfor (\<lambda>(name, e). sbind (remove_entry m name) (\<lambda>_. drop_entry e))
         (case nodes s m of Some (TmpFsDir d) \<Rightarrow> d_items d | _ \<Rightarrow> []))
       (\<lambda>_ s. (Ok (), s\<lparr>nodes := (nodes s)(m := None)\<rparr>)) s"

section \<open>File operations\<close>

text \<open>\<^verbatim>\<open>impl File for TmpFsFile\<close>: the state is the heap of pages and the store.\<close>

definition with_file ::
  "nid \<Rightarrow> (timespec \<Rightarrow> tmp_file \<Rightarrow> tmp_file) \<Rightarrow> (buffer \<Rightarrow> (bstate, 'a) stateful) \<Rightarrow> (heap \<times> fs, 'a) stateful" where
  "with_file n touch g =
     (\<lambda>(h, s). case nodes s n of
        Some (TmpFsFile f) \<Rightarrow>
          let f = touch (clock s) f in
          (case g (f_buffer f) (h, f_buffer f) of (r, (h', b)) \<Rightarrow>
             (r, (h', set_node n (TmpFsFile (f\<lparr>f_buffer := b\<rparr>)) s)))
      | _ \<Rightarrow> (Panic, (h, s)))"

definition file_get_page :: "nid \<Rightarrow> nat \<Rightarrow> bool \<Rightarrow> (heap \<times> fs, kernel_page) stateful" where
  "file_get_page n i sh = with_file n (\<lambda>_ f. f) (\<lambda>_. get_page i sh)"

definition file_read :: "nid \<Rightarrow> nat \<Rightarrow> bytes \<Rightarrow> bool \<Rightarrow> (heap \<times> fs, nat \<times> bytes) stateful" where
  "file_read n offset buf no_atime =
     with_file n (\<lambda>t f. if no_atime then f else f\<lparr>f_atime := t\<rparr>) (\<lambda>_. read offset buf)"

definition touch_write :: "timespec \<Rightarrow> tmp_file \<Rightarrow> tmp_file" where
  "touch_write t f = f\<lparr>f_ctime := t, f_mtime := t\<rparr>"

definition file_write :: "nid \<Rightarrow> nat \<Rightarrow> bytes \<Rightarrow> (heap \<times> fs, nat) stateful" where
  "file_write n offset buf = with_file n touch_write (\<lambda>_. buffer_write offset buf)"

definition file_append :: "nid \<Rightarrow> bytes \<Rightarrow> (heap \<times> fs, nat) stateful" where
  "file_append n buf = with_file n touch_write (\<lambda>b. buffer_write (len b) buf)"

definition file_truncate :: "nid \<Rightarrow> nat \<Rightarrow> (heap \<times> fs, unit) stateful" where
  "file_truncate n l = with_file n touch_write (\<lambda>_. Page_Buffer.truncate l)"

end
