(* ===== verification/Tree.thy ===== *)
theory Tree
  imports Tmpfs
begin

text \<open>
  The file system as a tree: what every node is and what every directory has under every
  name. The operations of \<^verbatim>\<open>tmpfs.rs\<close> are specified by what they do to these two maps, and
  keep an invariant on them: entries fit the nodes they name, the link count of a file is the
  number of its entries, and the parents of directories do not form a cycle.
\<close>

section \<open>The abstract file system\<close>

datatype kind =
    KDir nat location
  | KFile nat nat
  | KSymlink nat path
  | KCharDev nat
  | KFifo nat

fun kind_of :: "node \<Rightarrow> kind" where
  "kind_of (TmpFsDir d) = KDir (d_fs d) (d_location d)"
| "kind_of (TmpFsFile f) = KFile (f_fs f) (f_links f)"
| "kind_of (TmpFsSymlink l) = KSymlink (s_fs l) (s_target l)"
| "kind_of (TmpFsCharDev c) = KCharDev (c_fs c)"
| "kind_of (TmpFsFifo p) = KFifo (p_fs p)"

definition kd :: "fs \<Rightarrow> nid \<Rightarrow> kind option" where
  "kd s n = map_option kind_of (nodes s n)"

fun node_items :: "node \<Rightarrow> (file_name, dir_entry) btree" where
  "node_items (TmpFsDir d) = d_items d"
| "node_items _ = []"

definition ent :: "fs \<Rightarrow> nid \<times> file_name \<Rightarrow> dir_entry option" where
  "ent s = (\<lambda>(n, name). case nodes s n of Some x \<Rightarrow> bt_get name (node_items x) | None \<Rightarrow> None)"

fun node_mode :: "node \<Rightarrow> u64" where
  "node_mode (TmpFsDir d) = own_mode (d_ownership d)"
| "node_mode (TmpFsFile f) = own_mode (f_ownership f)"
| "node_mode (TmpFsSymlink l) = FileMode_ALL"
| "node_mode (TmpFsCharDev c) = own_mode (c_ownership c)"
| "node_mode (TmpFsFifo p) = own_mode (p_ownership p)"

definition mode_ok :: "u64 \<Rightarrow> bool" where
  "mode_ok m \<longleftrightarrow> FileMode_from_bits_truncate m = m"

fun node_ok :: "node \<Rightarrow> bool" where
  "node_ok (TmpFsDir d) \<longleftrightarrow> bt_wf (d_items d) \<and> mode_ok (own_mode (d_ownership d))"
| "node_ok x \<longleftrightarrow> mode_ok (node_mode x)"

definition nodes_ok :: "fs \<Rightarrow> bool" where
  "nodes_ok s \<longleftrightarrow> (\<forall>n x. nodes s n = Some x \<longrightarrow> node_ok x)"

fun fits :: "(nid \<Rightarrow> kind option) \<Rightarrow> nat \<Rightarrow> dir_entry \<Rightarrow> bool" where
  "fits K dev (EFile m) \<longleftrightarrow> (\<exists>l. K m = Some (KFile dev l))"
| "fits K dev (EDir m) \<longleftrightarrow> (\<exists>loc. K m = Some (KDir dev loc))"
| "fits K dev (ESymlink m) \<longleftrightarrow> (\<exists>t. K m = Some (KSymlink dev t))"
| "fits K dev (ECharDev m) \<longleftrightarrow> K m = Some (KCharDev dev)"
| "fits K dev (EFifo m) \<longleftrightarrow> K m = Some (KFifo dev)"
| "fits K dev (EMount m) \<longleftrightarrow> (\<exists>dev' loc. K m = Some (KDir dev' loc))"

fun parent_of :: "location \<Rightarrow> nid option" where
  "parent_of LRoot = None"
| "parent_of (LDirectory p _) = Some p"
| "parent_of (LMount p _) = Some p"

definition up :: "(nid \<Rightarrow> kind option) \<Rightarrow> (nid \<times> nid) set" where
  "up K = {(n, p). \<exists>dev loc. K n = Some (KDir dev loc) \<and> parent_of loc = Some p}"

definition refs :: "(nid \<times> file_name \<Rightarrow> dir_entry option) \<Rightarrow> dir_entry \<Rightarrow> (nid \<times> file_name) set" where
  "refs E e = {x. E x = Some e}"

text \<open>\<open>c\<close> is the next inode number: numbers are not given out twice.\<close>

definition shape_ok :: "(nid \<Rightarrow> kind option) \<Rightarrow> (nid \<times> file_name \<Rightarrow> dir_entry option) \<Rightarrow> nat \<Rightarrow> bool" where
  "shape_ok K E c \<longleftrightarrow>
     (\<exists>dev. K ROOT_NODE = Some (KDir dev LRoot)) \<and>
     (\<forall>n. K n \<noteq> None \<longrightarrow> n < c) \<and>
     (\<forall>n name e. E (n, name) = Some e \<longrightarrow> (\<exists>dev loc. K n = Some (KDir dev loc) \<and> fits K dev e)) \<and>
     (\<forall>n p. (n, p) \<in> up K \<longrightarrow> p < c \<and> (\<forall>k. K p = Some k \<longrightarrow> (\<exists>dev loc. k = KDir dev loc))) \<and>
     finite (dom E) \<and>
     (\<forall>m dev l. K m = Some (KFile dev l) \<longrightarrow> l = card (refs E (EFile m))) \<and>
     acyclic (up K)"

definition tree_ok :: "fs \<Rightarrow> bool" where
  "tree_ok s \<longleftrightarrow> nodes_ok s \<and> shape_ok (kd s) (ent s) (ino_counter s)"

text \<open>Directories know where they are.\<close>

definition linked :: "(nid \<Rightarrow> kind option) \<Rightarrow> (nid \<times> file_name \<Rightarrow> dir_entry option) \<Rightarrow> bool" where
  "linked K E \<longleftrightarrow> (\<forall>n name m. E (n, name) = Some (EDir m) \<longrightarrow> (\<exists>dev. K m = Some (KDir dev (LDirectory n name))))"

section \<open>Parts of an operation\<close>

lemma kd_eq: "nodes s n = Some x \<Longrightarrow> kd s n = Some (kind_of x)"
  by (simp add: kd_def)

lemma kd_None [simp]: "kd s n = None \<longleftrightarrow> nodes s n = None"
  by (simp add: kd_def)

lemma kd_DirE:
  assumes "kd s n = Some (KDir dev loc)"
  obtains d where "nodes s n = Some (TmpFsDir d)" "d_fs d = dev" "d_location d = loc"
  using assms by (auto simp: kd_def elim!: kind_of.elims)

lemma kd_FileE:
  assumes "kd s n = Some (KFile dev l)"
  obtains f where "nodes s n = Some (TmpFsFile f)" "f_fs f = dev" "f_links f = l"
  using assms by (auto simp: kd_def elim!: kind_of.elims)

lemma ent_dir: "nodes s n = Some (TmpFsDir d) \<Longrightarrow> ent s (n, name) = bt_get name (d_items d)"
  by (simp add: ent_def)

lemma ent_SomeE:
  assumes "ent s (n, name) = Some e"
  obtains d where "nodes s n = Some (TmpFsDir d)" "bt_get name (d_items d) = Some e"
proof -
  obtain x where x: "nodes s n = Some x" "bt_get name (node_items x) = Some e"
    using assms by (auto simp: ent_def split: option.splits)
  then show ?thesis using that by (cases x) auto
qed

lemma kd_set_node: "kd (set_node n x s) = (kd s)(n \<mapsto> kind_of x)"
  by (rule ext) (simp add: kd_def set_node_def)

lemma ent_set_node:
  "ent (set_node n x s) = (\<lambda>(m, name). if m = n then bt_get name (node_items x) else ent s (m, name))"
  by (rule ext) (auto simp: ent_def set_node_def)

lemma nodes_ok_set_node: "nodes_ok s \<Longrightarrow> node_ok x \<Longrightarrow> nodes_ok (set_node n x s)"
  by (auto simp: nodes_ok_def set_node_def)

lemma nodes_okD: "nodes_ok s \<Longrightarrow> nodes s n = Some x \<Longrightarrow> node_ok x"
  by (simp add: nodes_ok_def)

lemma counters [simp]:
  "ino_counter (set_node n x s) = ino_counter s" "ino_counter (update_items n g s) = ino_counter s"
  "ino_counter (set_location n loc s) = ino_counter s"
  "clock (set_node n x s) = clock s" "clock (update_items n g s) = clock s"
  by (auto simp: set_node_def update_items_def set_location_def split: option.splits node.splits)

text \<open>A change of attributes only: what the node is and what it contains stay.\<close>

definition same_shape :: "fs \<Rightarrow> fs \<Rightarrow> bool" where
  "same_shape s t \<longleftrightarrow> kd t = kd s \<and> ent t = ent s \<and> ino_counter t = ino_counter s"

lemma tree_ok_same_shape: "tree_ok s \<Longrightarrow> same_shape s t \<Longrightarrow> nodes_ok t \<Longrightarrow> tree_ok t"
  by (simp add: tree_ok_def same_shape_def)

lemma same_shape_set_node:
  assumes "nodes s n = Some x" "kind_of y = kind_of x" "node_items y = node_items x"
  shows "same_shape s (set_node n y s)"
proof -
  have "kd (set_node n y s) = kd s" using assms by (simp add: kd_set_node kd_eq fun_upd_idem)
  moreover have "ent (set_node n y s) = ent s"
    using assms by (auto simp: ent_set_node fun_eq_iff) (simp_all add: ent_def)
  ultimately show ?thesis by (simp add: same_shape_def)
qed

text \<open>Changing the entries of a directory.\<close>

lemma update_items_spec:
  assumes "nodes s n = Some (TmpFsDir d)"
  shows "kd (update_items n g s) = kd s"
    and "ent (update_items n g s) = (\<lambda>(m, name). if m = n then bt_get name (g (d_items d)) else ent s (m, name))"
    and "nodes_ok s \<Longrightarrow> bt_wf (g (d_items d)) \<Longrightarrow> nodes_ok (update_items n g s)"
proof -
  have u: "update_items n g s = set_node n (TmpFsDir (d\<lparr>d_items := g (d_items d)\<rparr>)) s"
    using assms by (simp add: update_items_def)
  show "kd (update_items n g s) = kd s" using assms by (simp add: u kd_set_node kd_eq fun_upd_idem)
  show "ent (update_items n g s) = (\<lambda>(m, name). if m = n then bt_get name (g (d_items d)) else ent s (m, name))"
    by (auto simp: u ent_set_node fun_eq_iff)
  show "nodes_ok (update_items n g s)" if "nodes_ok s" "bt_wf (g (d_items d))"
    using nodes_okD [OF that(1) assms] that unfolding u by (intro nodes_ok_set_node) simp_all
qed

lemma insert_item_spec:
  assumes "nodes s n = Some (TmpFsDir d)" "nodes_ok s"
  shows "kd (update_items n (bt_insert name e) s) = kd s"
    and "ent (update_items n (bt_insert name e) s) = (ent s)((n, name) \<mapsto> e)"
    and "nodes_ok (update_items n (bt_insert name e) s)"
  using update_items_spec [OF assms(1), of "bt_insert name e"] nodes_okD [OF assms(2,1)] assms(2)
  by (auto simp: bt_wf_insert bt_get_insert ent_dir [OF assms(1)] fun_eq_iff)

lemma remove_item_spec:
  assumes "nodes s n = Some (TmpFsDir d)" "nodes_ok s"
  shows "kd (update_items n (bt_remove name) s) = kd s"
    and "ent (update_items n (bt_remove name) s) = (ent s)((n, name) := None)"
    and "nodes_ok (update_items n (bt_remove name) s)"
  using update_items_spec [OF assms(1), of "bt_remove name"] nodes_okD [OF assms(2,1)] assms(2)
  by (auto simp: bt_wf_remove bt_get_remove ent_dir [OF assms(1)] fun_eq_iff)

lemma set_location_spec:
  assumes "nodes s m = Some (TmpFsDir d)" "nodes_ok s"
  shows "kd (set_location m loc s) = (kd s)(m \<mapsto> KDir (d_fs d) loc)"
    and "ent (set_location m loc s) = ent s"
    and "nodes_ok (set_location m loc s)"
proof -
  have u: "set_location m loc s = set_node m (TmpFsDir (d\<lparr>d_location := loc\<rparr>)) s"
    using assms by (simp add: set_location_def)
  show "kd (set_location m loc s) = (kd s)(m \<mapsto> KDir (d_fs d) loc)" by (simp add: u kd_set_node)
  show "ent (set_location m loc s) = ent s" by (auto simp: u ent_set_node ent_dir [OF assms(1)] fun_eq_iff)
  show "nodes_ok (set_location m loc s)"
    unfolding u using nodes_okD [OF assms(2,1)] assms(2) by (intro nodes_ok_set_node) simp_all
qed

text \<open>The link count of a file, changed by cloning and dropping entries.\<close>

definition relink :: "dir_entry \<Rightarrow> (nat \<Rightarrow> nat) \<Rightarrow> (nid \<Rightarrow> kind option) \<Rightarrow> nid \<Rightarrow> kind option" where
  "relink e g K =
     (case e of
        EFile m \<Rightarrow> (case K m of Some (KFile dev l) \<Rightarrow> K(m \<mapsto> KFile dev (g l)) | _ \<Rightarrow> K)
      | _ \<Rightarrow> K)"

lemma set_links_spec:
  assumes "nodes s m = Some (TmpFsFile f)" "nodes_ok s"
  shows "kd (set_node m (TmpFsFile (f\<lparr>f_links := l\<rparr>)) s) = (kd s)(m \<mapsto> KFile (f_fs f) l)"
    and "ent (set_node m (TmpFsFile (f\<lparr>f_links := l\<rparr>)) s) = ent s"
    and "nodes_ok (set_node m (TmpFsFile (f\<lparr>f_links := l\<rparr>)) s)"
proof -
  show "ent (set_node m (TmpFsFile (f\<lparr>f_links := l\<rparr>)) s) = ent s"
    using assms(1) by (auto simp: ent_set_node fun_eq_iff) (simp add: ent_def)
  show "nodes_ok (set_node m (TmpFsFile (f\<lparr>f_links := l\<rparr>)) s)"
    using nodes_okD [OF assms(2,1)] assms(2) by (intro nodes_ok_set_node) simp_all
qed (simp add: kd_set_node)

lemma drop_entry_spec:
  assumes "nodes_ok s" and "\<And>m. e = EFile m \<Longrightarrow> \<exists>dev l. kd s m = Some (KFile dev (Suc l))"
  shows "\<exists>t. drop_entry e s = (Ok (), t) \<and> kd t = relink e (\<lambda>l. l - 1) (kd s) \<and> ent t = ent s \<and> nodes_ok t \<and>
    ino_counter t = ino_counter s \<and> clock t = clock s"
proof (cases "\<exists>m. e = EFile m")
  case True
  then obtain m dev l where e: "e = EFile m" and k: "kd s m = Some (KFile dev (Suc l))" using assms(2) by blast
  then obtain f where f: "nodes s m = Some (TmpFsFile f)" "f_fs f = dev" "f_links f = Suc l" by (blast elim: kd_FileE)
  then show ?thesis using set_links_spec [OF f(1) assms(1), of l] k
    by (simp add: e modify_def decrease_link_count_def deref_def usub_def relink_def)
qed (use assms in \<open>cases e; simp add: relink_def\<close>)

lemma clone_entry_spec:
  assumes "nodes_ok s" and "\<And>m. e = EFile m \<Longrightarrow> \<exists>dev l. kd s m = Some (KFile dev l) \<and> l + 1 < usize_bound"
  shows "\<exists>t. clone_entry e s = (Ok (), t) \<and> kd t = relink e Suc (kd s) \<and> ent t = ent s \<and> nodes_ok t \<and>
    ino_counter t = ino_counter s \<and> clock t = clock s"
proof (cases "\<exists>m. e = EFile m")
  case True
  then obtain m dev l where e: "e = EFile m" and k: "kd s m = Some (KFile dev l)" "l + 1 < usize_bound" using assms(2) by blast
  then obtain f where f: "nodes s m = Some (TmpFsFile f)" "f_fs f = dev" "f_links f = l" by (blast elim: kd_FileE)
  then show ?thesis using set_links_spec [OF f(1) assms(1), of "Suc l"] k
    by (simp add: e modify_def increase_link_count_def deref_def uadd_def relink_def)
qed (use assms in \<open>cases e; simp add: relink_def\<close>)

text \<open>Dropping an entry that was in the tree when it is no longer in it, and the like, keep the
  link counts right.\<close>

lemma shape_okD:
  assumes "shape_ok K E c"
  shows "\<exists>dev. K ROOT_NODE = Some (KDir dev LRoot)" "\<And>n. K n \<noteq> None \<Longrightarrow> n < c"
    "\<And>n name e. E (n, name) = Some e \<Longrightarrow> \<exists>dev loc. K n = Some (KDir dev loc) \<and> fits K dev e"
    "\<And>n p. (n, p) \<in> up K \<Longrightarrow> p < c" "\<And>n p k. (n, p) \<in> up K \<Longrightarrow> K p = Some k \<Longrightarrow> \<exists>dev loc. k = KDir dev loc"
    "finite (dom E)" "\<And>m dev l. K m = Some (KFile dev l) \<Longrightarrow> l = card (refs E (EFile m))" "acyclic (up K)"
  using assms unfolding shape_ok_def by blast+

lemma finite_refs: "finite (dom E) \<Longrightarrow> finite (refs E e)"
  by (rule finite_subset [of _ "dom E"]) (auto simp: refs_def)

lemma relink_simps [simp]:
  "relink (EDir m) g K = K" "relink (ESymlink m) g K = K" "relink (ECharDev m) g K = K"
  "relink (EFifo m) g K = K" "relink (EMount m) g K = K"
  "K m = Some (KFile dev l) \<Longrightarrow> relink (EFile m) g K = K(m \<mapsto> KFile dev (g l))"
  by (simp_all add: relink_def)

lemma up_relink [simp]: "up (relink e g K) = up K"
  by (auto simp: up_def relink_def split: dir_entry.splits option.splits kind.splits if_splits)

lemma fits_relink [simp]: "fits (relink e g K) dev e' = fits K dev e'"
  by (cases e') (auto simp: relink_def split: dir_entry.splits option.splits kind.splits if_splits)

lemma relink_KDir [simp]: "relink e g K n = Some (KDir dev loc) \<longleftrightarrow> K n = Some (KDir dev loc)"
  by (auto simp: relink_def split: dir_entry.splits option.splits kind.splits if_splits)

lemma relink_None [simp]: "relink e g K n = None \<longleftrightarrow> K n = None"
  by (auto simp: relink_def split: dir_entry.splits option.splits kind.splits if_splits)

section \<open>Changes that keep the invariant\<close>

lemma card_refs_update:
  assumes "finite (dom E)"
  shows "card (refs (E(x := v)) e) + (if E x = Some e then 1 else 0) = card (refs E e) + (if v = Some e then 1 else 0)"
proof -
  have 1: "refs (E(x := v)) e = (if v = Some e then insert x (refs E e - {x}) else refs E e - {x})"
    by (auto simp: refs_def)
  have "card (refs E e) = card (refs E e - {x}) + (if E x = Some e then 1 else 0)"
    using card.remove [OF finite_refs [OF assms, of e], of x] by (auto simp: refs_def)
  then show ?thesis using finite_refs [OF assms, of e] unfolding 1 by (auto simp: card.insert_remove)
qed

lemma shape_links_pos:
  assumes "shape_ok K E c" "E x = Some (EFile m)"
  shows "\<exists>dev l. K m = Some (KFile dev (Suc l))"
proof -
  obtain n name where x: "x = (n, name)" by (cases x)
  obtain dev l where l: "K m = Some (KFile dev l)" using shape_okD(3) [OF assms(1)] assms(2) unfolding x by fastforce
  have "x \<in> refs E (EFile m)" using assms(2) by (simp add: refs_def)
  then have "card (refs E (EFile m)) \<noteq> 0" using finite_refs [OF shape_okD(6) [OF assms(1)]] by auto
  then show ?thesis using shape_okD(7) [OF assms(1) l] l by (metis not0_implies_Suc)
qed

definition relink_opt :: "dir_entry option \<Rightarrow> (nat \<Rightarrow> nat) \<Rightarrow> (nid \<Rightarrow> kind option) \<Rightarrow> nid \<Rightarrow> kind option" where
  "relink_opt x g K = (case x of Some e \<Rightarrow> relink e g K | None \<Rightarrow> K)"

lemma relink_opt_simps [simp]: "relink_opt None g K = K" "relink_opt (Some e) g K = relink e g K"
  by (simp_all add: relink_opt_def)

lemma relink_file: "relink e g K m = Some (KFile dev l) \<longleftrightarrow>
  (\<exists>l'. K m = Some (KFile dev l') \<and> l = (if e = EFile m then g l' else l'))"
  by (auto simp: relink_def split: dir_entry.splits option.splits kind.splits if_splits)

text \<open>Link counts aside, cloning and dropping entries changes nothing.\<close>

definition alike :: "(nid \<Rightarrow> kind option) \<Rightarrow> (nid \<Rightarrow> kind option) \<Rightarrow> bool" where
  "alike K K' \<longleftrightarrow> (\<forall>n dev loc. K' n = Some (KDir dev loc) \<longleftrightarrow> K n = Some (KDir dev loc)) \<and>
     (\<forall>n. K' n = None \<longleftrightarrow> K n = None) \<and> (\<forall>dev e. fits K' dev e = fits K dev e)"

lemma alike_relink: "alike K (relink e g K)"
  by (simp add: alike_def)

lemma alike_relink_opt: "alike K K' \<Longrightarrow> alike K (relink_opt x g K')"
  by (cases x) (simp_all add: alike_def)

lemma shape_alike:
  assumes ok: "shape_ok K E c" and al: "alike K K'" and fin: "finite (dom E')"
    and fit: "\<And>n name e. E' (n, name) = Some e \<Longrightarrow> \<exists>dev loc. K n = Some (KDir dev loc) \<and> fits K dev e"
    and links: "\<And>m dev l. K' m = Some (KFile dev l) \<Longrightarrow> l = card (refs E' (EFile m))"
  shows "shape_ok K' E' c"
proof -
  note D = shape_okD [OF ok]
  have dir: "K' n = Some (KDir dev loc) \<longleftrightarrow> K n = Some (KDir dev loc)" and none: "K' n = None \<longleftrightarrow> K n = None"
    and fits: "fits K' dev e = fits K dev e" for n dev loc e
    using al unfolding alike_def by blast+
  have up: "up K' = up K" by (simp add: up_def dir)
  have "\<exists>dev loc. k = KDir dev loc" if h: "(n, p) \<in> up K" "K' p = Some k" for n p k
  proof -
    have "K p \<noteq> None" using h(2) none [of p] by auto
    then obtain dev loc where "K p = Some (KDir dev loc)" using D(5) [OF h(1)] by blast
    then have "K' p = Some (KDir dev loc)" by (simp add: dir)
    then show ?thesis using h(2) by simp
  qed
  then show ?thesis unfolding shape_ok_def up dir none fits using D(1,2,4,8) fin fit links by blast
qed

text \<open>An entry is set, where one may have been; or removed.\<close>

lemma shape_set:
  assumes ok: "shape_ok K E c" and n: "K n = Some (KDir dev loc)" and fit: "fits K dev e"
  shows "shape_ok (relink_opt (E (n, name)) (\<lambda>l. l - 1) (relink e Suc K)) (E((n, name) \<mapsto> e)) c"
proof (rule shape_alike [OF ok alike_relink_opt [OF alike_relink]])
  note D = shape_okD [OF ok]
  let ?x = "(n, name)"
  show "finite (dom (E(?x \<mapsto> e)))" using D(6) by simp
  show "\<exists>dv lc. K k = Some (KDir dv lc) \<and> fits K dv e'" if "(E(?x \<mapsto> e)) (k, nm) = Some e'" for k nm e'
    using that D(3) [of k nm e'] n fit by (auto split: if_splits)
  fix m dv l assume k: "relink_opt (E ?x) (\<lambda>l. l - 1) (relink e Suc K) m = Some (KFile dv l)"
  obtain l' where l': "K m = Some (KFile dv l')"
    "l = (if E ?x = Some (EFile m) then (if e = EFile m then Suc l' else l') - 1 else (if e = EFile m then Suc l' else l'))"
    using k by (cases "E ?x") (auto simp: relink_file)
  have "E ?x = Some (EFile m) \<Longrightarrow> 0 < l'" using shape_links_pos [OF ok, of ?x m] l'(1) by auto
  then show "l = card (refs (E(?x \<mapsto> e)) (EFile m))"
    using card_refs_update [OF D(6), of ?x "Some e" "EFile m"] D(7) [OF l'(1)] l'(2) by (auto split: if_splits)
qed

lemma shape_remove:
  assumes ok: "shape_ok K E c"
  shows "shape_ok (relink_opt (E x) (\<lambda>l. l - 1) K) (E(x := None)) c"
proof (rule shape_alike [OF ok alike_relink_opt])
  note D = shape_okD [OF ok]
  show "alike K K" by (simp add: alike_def)
  show "finite (dom (E(x := None)))" using D(6) by simp
  show "\<exists>dv lc. K k = Some (KDir dv lc) \<and> fits K dv e'" if "(E(x := None)) (k, nm) = Some e'" for k nm e'
    using that D(3) [of k nm e'] by (auto split: if_splits)
  fix m dv l assume k: "relink_opt (E x) (\<lambda>l. l - 1) K m = Some (KFile dv l)"
  obtain l' where l': "K m = Some (KFile dv l')" "l = (if E x = Some (EFile m) then l' - 1 else l')"
    using k by (cases "E x") (auto simp: relink_file)
  have "E x = Some (EFile m) \<Longrightarrow> 0 < l'" using shape_links_pos [OF ok, of x m] l'(1) by auto
  then show "l = card (refs (E(x := None)) (EFile m))"
    using card_refs_update [OF D(6), of x None "EFile m"] D(7) [OF l'(1)] l'(2) by (auto split: if_splits)
qed

text \<open>A new node with its first entry.\<close>

fun fresh_kind :: "dir_entry \<Rightarrow> nat \<Rightarrow> nid \<Rightarrow> file_name \<Rightarrow> kind \<Rightarrow> bool" where
  "fresh_kind (EFile _) dev n name k \<longleftrightarrow> k = KFile dev 1"
| "fresh_kind (EDir _) dev n name k \<longleftrightarrow> k = KDir dev (LDirectory n name)"
| "fresh_kind (ESymlink _) dev n name k \<longleftrightarrow> (\<exists>t. k = KSymlink dev t)"
| "fresh_kind (ECharDev _) dev n name k \<longleftrightarrow> k = KCharDev dev"
| "fresh_kind (EFifo _) dev n name k \<longleftrightarrow> k = KFifo dev"
| "fresh_kind (EMount _) dev n name k \<longleftrightarrow> (\<exists>dev'. k = KDir dev' (LMount n name))"

lemma fits_upd: "fits K dev e \<Longrightarrow> K c = None \<Longrightarrow> fits (K(c \<mapsto> k)) dev e"
  by (cases e) auto

lemma fits_fresh: "fresh_kind e dev n name k \<Longrightarrow> entry_node e = c \<Longrightarrow> fits (K(c \<mapsto> k)) dev e"
  by (cases e) auto

text \<open>A node without an entry yet.\<close>

lemma shape_new_node:
  assumes ok: "shape_ok K E c" and k: "\<And>dev l. k \<noteq> KFile dev (Suc l)"
    and p: "\<And>dev loc p. k = KDir dev loc \<Longrightarrow> parent_of loc = Some p \<Longrightarrow> \<exists>dev loc. K p = Some (KDir dev loc)"
  shows "shape_ok (K(c \<mapsto> k)) E (Suc c)"
proof -
  note D = shape_okD [OF ok]
  have cN: "K c = None" using D(2) by blast
  have noref: "refs E (EFile c) = {}" using D(3) cN by (fastforce simp: refs_def)
  have up: "up (K(c \<mapsto> k)) = up K \<union> {(n, p). n = c \<and> (\<exists>dev loc. k = KDir dev loc \<and> parent_of loc = Some p)}"
    using cN by (auto simp: up_def split: if_splits)
  have ac: "acyclic (up (K(c \<mapsto> k)))"
  proof (cases "\<exists>dev loc p. k = KDir dev loc \<and> parent_of loc = Some p")
    case True
    then obtain dev loc p where pk: "k = KDir dev loc" "parent_of loc = Some p" by blast
    then have "p \<noteq> c" using p cN by fastforce
    moreover have "(x, c) \<notin> up K" for x using D(4) by blast
    ultimately have "(p, c) \<notin> (up K)\<^sup>*" by (metis rtranclE)
    moreover have "up (K(c \<mapsto> k)) = insert (c, p) (up K)" unfolding up using pk by auto
    ultimately show ?thesis using D(8) by (simp add: acyclic_insert)
  next
    case False
    then have "up (K(c \<mapsto> k)) = up K" unfolding up by auto
    then show ?thesis using D(8) by simp
  qed
  have par: "\<exists>dev loc. k' = KDir dev loc" if "(n, p) \<in> up (K(c \<mapsto> k))" "(K(c \<mapsto> k)) p = Some k'" for n p k'
  proof (cases "p = c")
    case True
    then show ?thesis using that(1) D(4) p cN unfolding up by fastforce
  next
    case False
    then show ?thesis using that D(5) p unfolding up by fastforce
  qed
  have bound: "p < Suc c" if "(n, p) \<in> up (K(c \<mapsto> k))" for n p
    using that D(4) D(2) p unfolding up by (fastforce intro: less_SucI)
  show ?thesis unfolding shape_ok_def
  proof (intro conjI)
    show "\<exists>dev. (K(c \<mapsto> k)) ROOT_NODE = Some (KDir dev LRoot)" using D(1) cN by auto
    show "\<forall>n. (K(c \<mapsto> k)) n \<noteq> None \<longrightarrow> n < Suc c" using D(2) less_Suc_eq by auto
    show "\<forall>n name e. E (n, name) = Some e \<longrightarrow> (\<exists>dev loc. (K(c \<mapsto> k)) n = Some (KDir dev loc) \<and> fits (K(c \<mapsto> k)) dev e)"
      using D(3) cN fits_upd by (metis fun_upd_other option.distinct(1))
    show "\<forall>m dev l. (K(c \<mapsto> k)) m = Some (KFile dev l) \<longrightarrow> l = card (refs E (EFile m))"
      using D(7) k noref by (auto split: if_splits) (metis card.empty not0_implies_Suc)
  qed (use D(6) ac par bound in auto)
qed

lemma shape_relocate:
  assumes ok: "shape_ok K E c" and m: "K m = Some (KDir dev loc)" "m \<noteq> ROOT_NODE"
    and p: "K p = Some (KDir dv lc)" "parent_of loc' = Some p" "(p, m) \<notin> (up K)\<^sup>*"
  shows "shape_ok (K(m \<mapsto> KDir dev loc')) E c"
proof -
  note D = shape_okD [OF ok]
  let ?K = "K(m \<mapsto> KDir dev loc')"
  have up: "up ?K \<subseteq> insert (m, p) (up K)" using p(2) by (auto simp: up_def split: if_splits)
  have "acyclic (insert (m, p) (up K))" using D(8) p(3) by (simp add: acyclic_insert)
  then have ac: "acyclic (up ?K)" using up by (rule acyclic_subset)
  have par: "\<exists>dev loc. k = KDir dev loc" if "(n, q) \<in> up ?K" "?K q = Some k" for n q k
    using that up D(5) p(1) m(1) by (fastforce split: if_splits)
  have bound: "q < c" if "(n, q) \<in> up ?K" for n q using that up D(2,4) p(1) by fastforce
  have fit: "fits ?K dv' e" if "fits K dv' e" for dv' e using that m(1) by (cases e) auto
  show ?thesis unfolding shape_ok_def
  proof (intro conjI)
    show "\<exists>dev. ?K ROOT_NODE = Some (KDir dev LRoot)" using D(1) m(2) by auto
    show "\<forall>n. ?K n \<noteq> None \<longrightarrow> n < c" using D(2) m(1) by auto
    show "\<forall>n name e. E (n, name) = Some e \<longrightarrow> (\<exists>dev loc. ?K n = Some (KDir dev loc) \<and> fits ?K dev e)"
    proof (intro allI impI)
      fix n name e assume "E (n, name) = Some e"
      then obtain dv' lc' where "K n = Some (KDir dv' lc')" "fits K dv' e" using D(3) by blast
      then show "\<exists>dev loc. ?K n = Some (KDir dev loc) \<and> fits ?K dev e" using fit m(1) by auto
    qed
    show "\<forall>k dev l. ?K k = Some (KFile dev l) \<longrightarrow> l = card (refs E (EFile k))" using D(7) by auto
  qed (use D(6) ac par bound in auto)
qed

lemma fits_free: "fits K dev e \<Longrightarrow> entry_node e \<noteq> m \<Longrightarrow> fits (K(m := None)) dev e"
  by (cases e) auto

lemma shape_free:
  assumes ok: "shape_ok K E c" and m: "m \<noteq> ROOT_NODE" "\<And>x e. E x = Some e \<Longrightarrow> entry_node e \<noteq> m" "\<And>name. E (m, name) = None"
  shows "shape_ok (K(m := None)) E c"
proof -
  note D = shape_okD [OF ok]
  have up: "up (K(m := None)) \<subseteq> up K" by (auto simp: up_def split: if_splits)
  show ?thesis unfolding shape_ok_def
  proof (intro conjI)
    show "\<forall>n name e. E (n, name) = Some e \<longrightarrow> (\<exists>dev loc. (K(m := None)) n = Some (KDir dev loc) \<and> fits (K(m := None)) dev e)"
    proof (intro allI impI)
      fix n name e assume e: "E (n, name) = Some e"
      then have "n \<noteq> m" using m(3) by auto
      then show "\<exists>dev loc. (K(m := None)) n = Some (KDir dev loc) \<and> fits (K(m := None)) dev e"
        using D(3) [OF e] fits_free [OF _ m(2) [OF e]] by auto
    qed
    show "acyclic (up (K(m := None)))" using D(8) up by (rule acyclic_subset)
    show "\<forall>n p. (n, p) \<in> up (K(m := None)) \<longrightarrow>
      p < c \<and> (\<forall>k. (K(m := None)) p = Some k \<longrightarrow> (\<exists>dev loc. k = KDir dev loc))"
      using up D(4,5) by (auto split: if_splits)
  qed (use D(1,2,6,7) m(1) in auto)
qed

section \<open>What the operations do to the tree\<close>

definition becomes ::
  "fs \<Rightarrow> (nid \<Rightarrow> kind option) \<Rightarrow> (nid \<times> file_name \<Rightarrow> dir_entry option) \<Rightarrow> nat \<Rightarrow> bool" where
  "becomes t K E c \<longleftrightarrow> kd t = K \<and> ent t = E \<and> ino_counter t = c \<and> nodes_ok t"

lemma becomes_self: "nodes_ok s \<Longrightarrow> becomes s (kd s) (ent s) (ino_counter s)"
  by (simp add: becomes_def)

lemma becomes_tree_ok: "becomes t K E c \<Longrightarrow> shape_ok K E c \<Longrightarrow> tree_ok t"
  by (simp add: becomes_def tree_ok_def)

lemma becomes_dirE:
  assumes "becomes s K E c" "K n = Some (KDir dev loc)"
  obtains d where "nodes s n = Some (TmpFsDir d)" "d_fs d = dev" "d_location d = loc" "\<forall>name. bt_get name (d_items d) = E (n, name)"
proof -
  obtain d where d: "nodes s n = Some (TmpFsDir d)" "d_fs d = dev" "d_location d = loc"
    using assms by (auto simp: becomes_def elim: kd_DirE)
  then show ?thesis using that ent_dir [OF d(1)] assms(1) by (simp add: becomes_def)
qed

lemma as_dir_Ok: "nodes s n = Some (TmpFsDir d) \<Longrightarrow> as_dir n s = Ok d"
  by (simp add: as_dir_def deref_def)

lemma insert_item_becomes:
  assumes "becomes s K E c" "K n = Some (KDir dev loc)"
  shows "becomes (update_items n (bt_insert name e) s) K (E((n, name) \<mapsto> e)) c"
proof -
  obtain d where "nodes s n = Some (TmpFsDir d)" using assms by (blast elim: becomes_dirE)
  from insert_item_spec [OF this] show ?thesis using assms by (simp add: becomes_def)
qed

lemma remove_entry_becomes:
  assumes "becomes s K E c" "K n = Some (KDir dev loc)"
  shows "\<exists>t. remove_entry n name s = (Ok (), t) \<and> becomes t K (E((n, name) := None)) c \<and> clock t = clock s"
proof -
  obtain d where "nodes s n = Some (TmpFsDir d)" using assms by (blast elim: becomes_dirE)
  from remove_item_spec [OF this] show ?thesis using assms by (simp add: becomes_def remove_entry_def)
qed

lemma drop_entry_becomes:
  assumes "becomes s K E c" "\<And>m. e = EFile m \<Longrightarrow> \<exists>dev l. K m = Some (KFile dev (Suc l))"
  shows "\<exists>t. drop_entry e s = (Ok (), t) \<and> becomes t (relink e (\<lambda>l. l - 1) K) E c \<and> clock t = clock s"
  using drop_entry_spec [of s e] assms by (auto simp: becomes_def)

lemma insert_entry_becomes:
  assumes b: "becomes s K E c" and n: "K n = Some (KDir dev loc)"
    and old: "\<And>m. E (n, name) = Some (EFile m) \<Longrightarrow> \<exists>dev l. K m = Some (KFile dev (Suc l))"
  shows "\<exists>t. insert_entry n name e s = (Ok (), t) \<and>
    becomes t (relink_opt (E (n, name)) (\<lambda>l. l - 1) K) (E((n, name) \<mapsto> e)) c \<and> clock t = clock s"
proof -
  obtain d where d: "nodes s n = Some (TmpFsDir d)" "d_fs d = dev" "d_location d = loc"
    "\<forall>name. bt_get name (d_items d) = E (n, name)" by (rule becomes_dirE [OF b n])
  note b1 = insert_item_becomes [OF b n, of name e]
  show ?thesis
  proof (cases "E (n, name)")
    case None
    then show ?thesis using b1 d by (simp add: insert_entry_def sbind_def as_dir_Ok)
  next
    case (Some x)
    then show ?thesis using drop_entry_becomes [OF b1, of x] old d
      by (auto simp: insert_entry_def sbind_def as_dir_Ok)
  qed
qed

lemma set_location_becomes:
  assumes "becomes s K E c" "K m = Some (KDir dev loc)"
  shows "becomes (set_location m loc' s) (K(m \<mapsto> KDir dev loc')) E c" and "clock (set_location m loc' s) = clock s"
proof -
  obtain d where d: "nodes s m = Some (TmpFsDir d)" "d_fs d = dev" using assms by (blast elim: becomes_dirE)
  from set_location_spec [OF d(1)] show "becomes (set_location m loc' s) (K(m \<mapsto> KDir dev loc')) E c"
    using assms d(2) by (simp add: becomes_def)
  show "clock (set_location m loc' s) = clock s" using d by (simp add: set_location_def)
qed

lemma new_node_becomes:
  assumes "becomes s K E c" "node_ok x" "node_items x = []" "K c = None"
  shows "\<exists>t. new_node x s = (c, t) \<and> becomes t (K(c \<mapsto> kind_of x)) E (Suc c) \<and> clock t = clock s"
proof -
  let ?s = "s\<lparr>ino_counter := Suc c\<rparr>"
  have c: "ino_counter s = c" "nodes s c = None" using assms by (auto simp: becomes_def)
  have k: "kd ?s = K" "nodes_ok ?s" using assms(1) by (auto simp: becomes_def kd_def nodes_ok_def)
  have "ent (set_node c x ?s) = ent s"
    using assms(3) c(2) by (auto simp: ent_set_node fun_eq_iff) (simp_all add: ent_def)
  then have "ent (set_node c x ?s) = E" using assms(1) by (simp add: becomes_def)
  then have "becomes (set_node c x ?s) (K(c \<mapsto> kind_of x)) E (Suc c)"
    using nodes_ok_set_node [OF k(2) assms(2)] k(1) by (simp add: becomes_def kd_set_node)
  then show ?thesis by (simp add: new_node_def c)
qed

text \<open>A node that gets a name: what was there is dropped.\<close>

lemma shape_enter:
  assumes ok: "shape_ok K E c" and n: "K n = Some (KDir dev loc)"
    and e: "entry_node e = c" "fresh_kind e dev n name k"
  shows "shape_ok (relink_opt (E (n, name)) (\<lambda>l. l - 1) (K(c \<mapsto> k))) (E((n, name) \<mapsto> e)) (Suc c)"
proof -
  let ?k = "case k of KFile dv l \<Rightarrow> KFile dv 0 | k \<Rightarrow> k"
  have "K c = None" using shape_okD(2) [OF ok] by blast
  then have nc: "n \<noteq> c" using n by auto
  have fk: "fits (K(c \<mapsto> ?k)) dev e" and rel: "relink e Suc (K(c \<mapsto> ?k)) = K(c \<mapsto> k)"
    using e by (cases e; auto simp: relink_def)+
  have "shape_ok (K(c \<mapsto> ?k)) E (Suc c)"
  proof (rule shape_new_node [OF ok])
    show "\<exists>dv lc. K p = Some (KDir dv lc)" if "?k = KDir dv lc" "parent_of lc = Some p" for dv lc p
      using that e n by (cases e) (auto split: kind.splits)
  qed (auto split: kind.splits)
  from shape_set [OF this _ fk, of n loc name] n nc show ?thesis unfolding rel by simp
qed

text \<open>Creating: a free name gets a new node.\<close>

lemma tree_okD: "tree_ok s \<Longrightarrow> becomes s (kd s) (ent s) (ino_counter s)" "tree_ok s \<Longrightarrow> shape_ok (kd s) (ent s) (ino_counter s)"
  by (simp_all add: tree_ok_def becomes_def)

lemma tree_not_dir:
  assumes "nodes s n = Some x" "\<nexists>d. x = TmpFsDir d"
  shows "as_dir n s = Err NotDir"
  using assms by (cases x) (simp_all add: as_dir_def deref_def)

lemma tree_counter_free: "tree_ok s \<Longrightarrow> kd s (ino_counter s) = None"
  using shape_okD(2) [OF tree_okD(2), of s "ino_counter s"] by blast

definition created ::
  "nid \<Rightarrow> file_name \<Rightarrow> dir_entry \<Rightarrow> kind \<Rightarrow> fs \<Rightarrow> fs \<Rightarrow> bool" where
  "created n name e k s t \<longleftrightarrow> tree_ok t \<and> ent s (n, name) = None \<and> entry_node e = ino_counter s \<and>
     kd t = (kd s)(ino_counter s \<mapsto> k) \<and> ent t = (ent s)((n, name) \<mapsto> e) \<and> ino_counter t = Suc (ino_counter s)"

lemma create_spec:
  assumes ok: "tree_ok s" and n: "nodes s n = Some (TmpFsDir d)"
    and new: "new d s = new_node x s" "node_ok x" "node_items x = []"
    and e: "entry_node (entry (ino_counter s)) = ino_counter s"
      "fresh_kind (entry (ino_counter s)) (d_fs d) n name (kind_of x)"
  shows "case ent s (n, name) of
     None \<Rightarrow> \<exists>t. create n name new entry s = (Ok (Inr (ino_counter s)), t) \<and>
       created n name (entry (ino_counter s)) (kind_of x) s t
   | Some e \<Rightarrow> create n name new entry s = (Ok (Inl (entry_node e)), s)"
proof (cases "ent s (n, name)")
  case (Some y)
  then show ?thesis using n by (simp add: create_def sbind_def as_dir_Ok ent_dir [OF n])
next
  case None
  let ?c = "ino_counter s" and ?e = "entry (ino_counter s)" and ?dev = "d_fs d"
  have kn: "kd s n = Some (KDir ?dev (d_location d))" using n by (simp add: kd_def)
  have cN: "kd s ?c = None" by (rule tree_counter_free [OF ok])
  then have nc: "n \<noteq> ?c" using n by auto
  obtain t1 where t1: "new_node x s = (?c, t1)" "becomes t1 ((kd s)(?c \<mapsto> kind_of x)) (ent s) (Suc ?c)"
    using new_node_becomes [OF tree_okD(1) [OF ok] new(2,3) cN] by blast
  let ?t = "update_items n (bt_insert name ?e) t1"
  have b: "becomes ?t ((kd s)(?c \<mapsto> kind_of x)) ((ent s)((n, name) \<mapsto> ?e)) (Suc ?c)"
    by (rule insert_item_becomes [OF t1(2), of n ?dev "d_location d"]) (use kn nc in simp)
  have "shape_ok ((kd s)(?c \<mapsto> kind_of x)) ((ent s)((n, name) \<mapsto> ?e)) (Suc ?c)"
    using shape_enter [OF tree_okD(2) [OF ok] kn e] None by simp
  then have "tree_ok ?t" by (rule becomes_tree_ok [OF b])
  then have "created n name ?e (kind_of x) s ?t" using b None e(1) by (simp add: created_def becomes_def)
  moreover have "create n name new entry s = (Ok (Inr ?c), ?t)"
    using None n new(1) t1(1) by (simp add: create_def sbind_def as_dir_Ok ent_dir [OF n])
  ultimately show ?thesis using None by auto
qed

lemma created_linked:
  assumes "tree_ok s" "created n name e k s t" "linked (kd s) (ent s)" "fresh_kind e dev n name k"
  shows "linked (kd t) (ent t)"
  unfolding linked_def
proof (intro allI impI)
  note t = assms(2) [unfolded created_def]
  fix n' name' m assume "ent t (n', name') = Some (EDir m)"
  then consider "(n', name') = (n, name)" "e = EDir m" | "ent s (n', name') = Some (EDir m)"
    using t by (auto split: if_splits)
  then show "\<exists>dev. kd t m = Some (KDir dev (LDirectory n' name'))"
  proof cases
    case 1
    then show ?thesis using t assms(4) by auto
  next
    case 2
    then obtain dv where "kd s m = Some (KDir dv (LDirectory n' name'))" using assms(3) unfolding linked_def by blast
    moreover have "m \<noteq> ino_counter s" using calculation tree_counter_free [OF assms(1)] by (metis option.distinct(1))
    ultimately show ?thesis using t by simp
  qed
qed

lemma linked_relink [simp]: "linked (relink_opt x g K) E = linked K E"
  by (cases x) (simp_all add: linked_def)

lemma linked_remove: "linked K E \<Longrightarrow> linked K (E(x := None))"
  by (auto simp: linked_def)

lemma linked_set:
  "linked K E \<Longrightarrow> (\<And>m. e = EDir m \<Longrightarrow> \<exists>dev. K m = Some (KDir dev (LDirectory n name))) \<Longrightarrow> linked K (E((n, name) \<mapsto> e))"
  by (auto simp: linked_def)

text \<open>Symbolic links and mounts may replace what was there.\<close>

definition entered :: "nid \<Rightarrow> file_name \<Rightarrow> dir_entry \<Rightarrow> kind \<Rightarrow> fs \<Rightarrow> fs \<Rightarrow> bool" where
  "entered n name e k s t \<longleftrightarrow> tree_ok t \<and> entry_node e = ino_counter s \<and>
     kd t = relink_opt (ent s (n, name)) (\<lambda>l. l - 1) ((kd s)(ino_counter s \<mapsto> k)) \<and>
     ent t = (ent s)((n, name) \<mapsto> e) \<and> ino_counter t = Suc (ino_counter s)"

lemma enter_spec:
  assumes ok: "tree_ok s" and n: "nodes s n = Some (TmpFsDir d)"
    and x: "node_ok x" "node_items x = []"
    and e: "entry_node e = ino_counter s" "fresh_kind e (d_fs d) n name (kind_of x)"
  shows "\<exists>t1 t. new_node x s = (ino_counter s, t1) \<and> insert_entry n name e t1 = (Ok (), t) \<and>
    entered n name e (kind_of x) s t"
proof -
  let ?c = "ino_counter s" and ?K = "(kd s)(ino_counter s \<mapsto> kind_of x)"
  note D = tree_okD [OF ok]
  have kn: "kd s n = Some (KDir (d_fs d) (d_location d))" using n by (simp add: kd_def)
  have cN: "kd s ?c = None" by (rule tree_counter_free [OF ok])
  then have nc: "n \<noteq> ?c" using n by auto
  obtain t1 where t1: "new_node x s = (?c, t1)" "becomes t1 ?K (ent s) (Suc ?c)"
    using new_node_becomes [OF D(1) x cN] by blast
  have "\<exists>dev l. ?K m = Some (KFile dev (Suc l))" if "ent s (n, name) = Some (EFile m)" for m
    using shape_links_pos [OF D(2) that] cN by (cases "m = ?c") auto
  then obtain t where t: "insert_entry n name e t1 = (Ok (), t)"
    "becomes t (relink_opt (ent s (n, name)) (\<lambda>l. l - 1) ?K) ((ent s)((n, name) \<mapsto> e)) (Suc ?c)"
    using insert_entry_becomes [OF t1(2), of n "d_fs d" "d_location d" name e] kn nc by auto
  then show ?thesis using t1(1) becomes_tree_ok [OF t(2) shape_enter [OF D(2) kn e]] e(1)
    by (auto simp: entered_def becomes_def)
qed

lemma entered_linked:
  assumes "tree_ok s" "entered n name e k s t" "linked (kd s) (ent s)" "fresh_kind e dev n name k"
  shows "linked (kd t) (ent t)"
proof -
  have cN: "kd s (ino_counter s) = None" by (rule tree_counter_free [OF assms(1)])
  have "linked ((kd s)(ino_counter s \<mapsto> k)) (ent s)"
    using assms(3) cN unfolding linked_def by (metis fun_upd_apply option.distinct(1))
  then have "linked ((kd s)(ino_counter s \<mapsto> k)) ((ent s)((n, name) \<mapsto> e))"
    by (rule linked_set) (use assms(2,4) in \<open>auto simp: entered_def\<close>)
  then show ?thesis using assms(2) by (simp add: entered_def)
qed

text \<open>Removing an entry.\<close>

definition removed :: "nid \<Rightarrow> file_name \<Rightarrow> fs \<Rightarrow> fs \<Rightarrow> bool" where
  "removed n name s t \<longleftrightarrow> tree_ok t \<and> kd t = relink_opt (ent s (n, name)) (\<lambda>l. l - 1) (kd s) \<and>
     ent t = (ent s)((n, name) := None) \<and> ino_counter t = ino_counter s"

lemma remove_spec:
  assumes ok: "tree_ok s" and n: "ent s (n, name) = Some e"
  shows "\<exists>t. sbind (remove_entry n name) (\<lambda>_. drop_entry e) s = (Ok (), t) \<and> removed n name s t"
proof -
  note D = tree_okD [OF ok]
  obtain dev loc where kn: "kd s n = Some (KDir dev loc)" using shape_okD(3) [OF D(2) n] by blast
  obtain t1 where t1: "remove_entry n name s = (Ok (), t1)" "becomes t1 (kd s) ((ent s)((n, name) := None)) (ino_counter s)"
    using remove_entry_becomes [OF D(1) kn] by blast
  have "\<exists>dev l. kd s m = Some (KFile dev (Suc l))" if "e = EFile m" for m
    using shape_links_pos [OF D(2)] n that by blast
  then obtain t where t: "drop_entry e t1 = (Ok (), t)"
    "becomes t (relink e (\<lambda>l. l - 1) (kd s)) ((ent s)((n, name) := None)) (ino_counter s)"
    using drop_entry_becomes [OF t1(2), of e] by blast
  moreover have "shape_ok (relink e (\<lambda>l. l - 1) (kd s)) ((ent s)((n, name) := None)) (ino_counter s)"
    using shape_remove [OF D(2), of "(n, name)"] n by simp
  ultimately show ?thesis using t1(1) n becomes_tree_ok [OF t(2)]
    by (auto simp: sbind_def removed_def becomes_def)
qed

lemma removed_linked: "removed n name s t \<Longrightarrow> linked (kd s) (ent s) \<Longrightarrow> linked (kd t) (ent t)"
  by (simp add: removed_def linked_remove)

section \<open>Climbing the tree\<close>

lemma up_wf:
  assumes "shape_ok K E c"
  shows "wf ((up K)\<inverse>)"
proof -
  have "up K \<subseteq> {..<c} \<times> {..<c}" using shape_okD(2,4) [OF assms] by (fastforce simp: up_def)
  then have "finite (up K)" by (rule finite_subset) simp
  then show ?thesis using shape_okD(8) [OF assms] by (rule finite_acyclic_wf_converse)
qed

lemma parent_cases:
  assumes ok: "tree_ok s" and m: "kd s m = Some (KDir dev loc)"
  obtains (root) "loc = LRoot" "parent m s = Ok m"
  | (gone) p where "parent_of loc = Some p" "kd s p = None" "parent m s = Err NoEnt"
  | (up) p dv lc where "parent_of loc = Some p" "kd s p = Some (KDir dv lc)" "parent m s = Ok p" "p \<noteq> m" "(m, p) \<in> up (kd s)"
proof -
  obtain d where d: "nodes s m = Some (TmpFsDir d)" "d_location d = loc" using m by (blast elim: kd_DirE)
  note D = shape_okD [OF tree_okD(2) [OF ok]]
  show ?thesis
  proof (cases "parent_of loc")
    case None
    then have "loc = LRoot" by (cases loc) simp_all
    then show ?thesis using d root by (simp add: parent_def as_dir_Ok location_get_def)
  next
    case (Some p)
    have u: "(m, p) \<in> up (kd s)" using m Some by (auto simp: up_def)
    have ne: "p \<noteq> m" using u D(8) unfolding acyclic_def by blast
    have l: "location_get loc s = (if nodes s p = None then Err NoEnt else Ok (Some (p, case loc of LDirectory _ a \<Rightarrow> a | LMount _ a \<Rightarrow> a)))"
      using Some by (cases loc) (auto simp: location_get_def)
    show ?thesis
    proof (cases "kd s p")
      case None
      then show ?thesis using gone [OF Some] l d by (simp add: parent_def as_dir_Ok)
    next
      case (Some k)
      then obtain dv lc where "kd s p = Some (KDir dv lc)" using D(5) [OF u] by blast
      moreover have "nodes s p \<noteq> None" using Some by (auto simp: kd_def)
      ultimately show ?thesis using up [OF \<open>parent_of loc = Some p\<close>] l d u ne by (simp add: parent_def as_dir_Ok)
    qed
  qed
qed

text \<open>The loop of \<^verbatim>\<open>rename\<close> comes to an end, and lets a directory pass only when it is not
  above the other.\<close>

lemma check_not_above_spec:
  assumes ok: "tree_ok s" and m: "kd s m = Some (KDir dev loc)"
  shows "\<exists>r. check_not_above e s m = Some r \<and> r \<noteq> Panic \<and> (r = Ok () \<longrightarrow> (m, e) \<notin> (up (kd s))\<^sup>*) \<and>
    ((m, e) \<in> (up (kd s))\<^sup>* \<longrightarrow> r = Err Inval \<or> r = Err NoEnt)"
  using up_wf [OF tree_okD(2) [OF ok]] m
proof (induction m arbitrary: dev loc rule: wf_induct_rule)
  case (less m)
  show ?case
  proof (cases "e = m")
    case True
    then show ?thesis by (subst check_not_above.simps) simp
  next
    case False
    show ?thesis
    proof (cases rule: parent_cases [OF ok less.prems, case_names root gone up])
      case root
      have "(m, x) \<notin> up (kd s)" for x using less.prems root(1) by (auto simp: up_def)
      then have "(m, e) \<notin> (up (kd s))\<^sup>*" using False by (metis converse_rtranclE)
      then show ?thesis using root(2) False by (subst check_not_above.simps) simp
    next
      case (gone p)
      have "(m, x) \<in> up (kd s) \<Longrightarrow> x = p" for x using less.prems gone(1) by (auto simp: up_def)
      then show ?thesis using gone(3) False by (subst check_not_above.simps) simp
    next
      case (up p dv lc)
      have x: "(m, x) \<in> up (kd s) \<Longrightarrow> x = p" for x using less.prems up(1) by (auto simp: up_def)
      have "(m, e) \<in> (up (kd s))\<^sup>* \<longleftrightarrow> (p, e) \<in> (up (kd s))\<^sup>*"
        using x up(5) False by (metis converse_rtranclE converse_rtrancl_into_rtrancl)
      moreover have "check_not_above e s m = check_not_above e s p"
        using up(3,4) False by (subst check_not_above.simps) simp
      moreover have "\<exists>r. check_not_above e s p = Some r \<and> r \<noteq> Panic \<and> (r = Ok () \<longrightarrow> (p, e) \<notin> (up (kd s))\<^sup>*) \<and>
        ((p, e) \<in> (up (kd s))\<^sup>* \<longrightarrow> r = Err Inval \<or> r = Err NoEnt)"
        by (rule less.IH [OF _ up(2)]) (use up(5) in simp)
      ultimately show ?thesis by simp
    qed
  qed
qed

section \<open>Moving entries\<close>

lemma relink_pred_Suc: "(\<And>m. e = EFile m \<Longrightarrow> \<exists>dev l. K m = Some (KFile dev (Suc l))) \<Longrightarrow> relink e Suc (relink e (\<lambda>l. l - 1) K) = K"
  by (cases e) (auto simp: relink_def fun_eq_iff)

lemma relink_upd_dir: "K m = Some (KDir dv lc) \<Longrightarrow> relink_opt x g (K(m \<mapsto> KDir dev loc)) = (relink_opt x g K)(m \<mapsto> KDir dev loc)"
  by (cases x) (auto simp: relink_def fun_eq_iff split: dir_entry.splits option.splits kind.splits)

definition relocate :: "dir_entry \<Rightarrow> nat \<Rightarrow> location \<Rightarrow> (nid \<Rightarrow> kind option) \<Rightarrow> nid \<Rightarrow> kind option" where
  "relocate e dev loc K = (case e of EDir m \<Rightarrow> K(m \<mapsto> KDir dev loc) | _ \<Rightarrow> K)"

definition moved :: "nid \<Rightarrow> file_name \<Rightarrow> nid \<Rightarrow> file_name \<Rightarrow> dir_entry \<Rightarrow> nat \<Rightarrow> fs \<Rightarrow> fs \<Rightarrow> bool" where
  "moved n oldname n' newname e dev s t \<longleftrightarrow> tree_ok t \<and>
     kd t = relink_opt (ent s (n', newname)) (\<lambda>l. l - 1) (relocate e dev (LDirectory n' newname) (kd s)) \<and>
     ent t = (ent s)((n, oldname) := None, (n', newname) \<mapsto> e) \<and> ino_counter t = ino_counter s"

lemma shape_move:
  assumes ok: "shape_ok K E c" and e: "E (n, oldname) = Some e" and ne: "(n, oldname) \<noteq> (n', newname)"
    and n: "K n = Some (KDir dev loc)" "K n' = Some (KDir dev loc')"
    and m: "\<And>m. e = EDir m \<Longrightarrow> m \<noteq> ROOT_NODE \<and> (n', m) \<notin> (up K)\<^sup>*"
  shows "shape_ok (relink_opt (E (n', newname)) (\<lambda>l. l - 1) (relocate e dev (LDirectory n' newname) K))
    (E((n, oldname) := None, (n', newname) \<mapsto> e)) c"
proof -
  let ?E = "E((n, oldname) := None)" and ?K = "relink e (\<lambda>l. l - 1) K"
  have fit: "fits K dev e" using shape_okD(3) [OF ok e] n(1) by auto
  have pos: "\<exists>dev l. K m = Some (KFile dev (Suc l))" if "e = EFile m" for m
    using shape_links_pos [OF ok] e that by blast
  have s1: "shape_ok ?K ?E c" using shape_remove [OF ok, of "(n, oldname)"] e by simp
  have s2: "shape_ok (relink_opt (?E (n', newname)) (\<lambda>l. l - 1) (relink e Suc ?K)) (?E((n', newname) \<mapsto> e)) c"
    by (rule shape_set [OF s1]) (use n fit in simp_all)
  then have s3: "shape_ok (relink_opt (E (n', newname)) (\<lambda>l. l - 1) K) (E((n, oldname) := None, (n', newname) \<mapsto> e)) c"
    using ne relink_pred_Suc [OF pos] by auto
  show ?thesis
  proof (cases "\<exists>m. e = EDir m")
    case True
    then obtain m where em: "e = EDir m" by blast
    then obtain lc where lc: "K m = Some (KDir dev lc)" using fit by auto
    let ?L = "relink_opt (E (n', newname)) (\<lambda>l. l - 1) K"
    have al: "?L k = Some (KDir dv lc) \<longleftrightarrow> K k = Some (KDir dv lc)" "up ?L = up K" for k dv lc
      by (cases "E (n', newname)"; simp)+
    have "shape_ok (?L(m \<mapsto> KDir dev (LDirectory n' newname))) (E((n, oldname) := None, (n', newname) \<mapsto> e)) c"
    proof (rule shape_relocate [OF s3])
      show "?L m = Some (KDir dev lc)" "?L n' = Some (KDir dev loc')" using lc n(2) al(1) by blast+
    qed (use m [OF em] al(2) in simp_all)
    then show ?thesis using lc by (simp add: em relocate_def relink_upd_dir [of K m dev lc])
  qed (use s3 in \<open>cases e; simp add: relocate_def\<close>)
qed

lemma move_entry_spec:
  assumes ok: "tree_ok s" and e: "ent s (n, oldname) = Some e" and ne: "(n, oldname) \<noteq> (n', newname)"
    and n: "kd s n = Some (KDir dev loc)" "kd s n' = Some (KDir dev loc')"
    and m: "\<And>m. e = EDir m \<Longrightarrow> m \<noteq> ROOT_NODE \<and> (n', m) \<notin> (up (kd s))\<^sup>*"
  shows "\<exists>t. move_entry n oldname e n' newname s = (Ok (), t) \<and> moved n oldname n' newname e dev s t"
proof -
  note D = tree_okD [OF ok]
  let ?E = "(ent s)((n, oldname) := None)" and ?K = "relocate e dev (LDirectory n' newname) (kd s)"
  obtain t1 where t1: "remove_entry n oldname s = (Ok (), t1)" "becomes t1 (kd s) ?E (ino_counter s)"
    using remove_entry_becomes [OF D(1) n(1)] by blast
  let ?t2 = "case e of EDir m \<Rightarrow> set_location m (LDirectory n' newname) t1 | _ \<Rightarrow> t1"
  have fit: "fits (kd s) dev e" using shape_okD(3) [OF D(2) e] n(1) by auto
  have t2: "becomes ?t2 ?K ?E (ino_counter s)"
    using t1(2) fit set_location_becomes(1) [OF t1(2)] by (cases e) (auto simp: relocate_def)
  have dirs: "\<exists>lc. ?K n' = Some (KDir dev lc)" using n(2) by (cases e) (auto simp: relocate_def)
  have "\<exists>dev l. ?K k = Some (KFile dev (Suc l))" if "?E (n', newname) = Some (EFile k)" for k
  proof -
    have "ent s (n', newname) = Some (EFile k)" using that ne by (auto split: if_splits)
    then obtain dv l where k: "kd s k = Some (KFile dv (Suc l))" using shape_links_pos [OF D(2)] by blast
    then have "e \<noteq> EDir k" using fit by auto
    then show ?thesis using k by (cases e) (auto simp: relocate_def)
  qed
  then obtain t where t: "insert_entry n' newname e ?t2 = (Ok (), t)"
    "becomes t (relink_opt (?E (n', newname)) (\<lambda>l. l - 1) ?K) (?E((n', newname) \<mapsto> e)) (ino_counter s)"
    using insert_entry_becomes [OF t2, of n' dev _ newname e] dirs by blast
  have "moved n oldname n' newname e dev s t"
    using t(2) ne becomes_tree_ok [OF t(2)] shape_move [OF D(2) e ne n m]
    by (auto simp: moved_def becomes_def split: if_splits)
  moreover have "move_entry n oldname e n' newname s = (Ok (), t)"
    using t1(1) t(1) by (simp add: move_entry_def sbind_def)
  ultimately show ?thesis by blast
qed

lemma moved_linked:
  assumes "tree_ok s" "linked (kd s) (ent s)" "moved n oldname n' newname e dev s t" "ent s (n, oldname) = Some e"
  shows "linked (kd t) (ent t)"
proof -
  have "linked (relocate e dev (LDirectory n' newname) (kd s)) ((ent s)((n, oldname) := None, (n', newname) \<mapsto> e))"
    unfolding linked_def
  proof (intro allI impI)
    fix k name m assume m: "((ent s)((n, oldname) := None, (n', newname) \<mapsto> e)) (k, name) = Some (EDir m)"
    show "\<exists>dev'. relocate e dev (LDirectory n' newname) (kd s) m = Some (KDir dev' (LDirectory k name))"
    proof (cases "(k, name) = (n', newname)")
      case True
      then show ?thesis using m by (auto simp: relocate_def)
    next
      case False
      then have "ent s (k, name) = Some (EDir m)" "(k, name) \<noteq> (n, oldname)" using m by (auto split: if_splits)
      moreover have "e \<noteq> EDir m"
        using assms(2,4) calculation unfolding linked_def by (metis kind.inject(1) location.inject(1) option.inject)
      ultimately show ?thesis using assms(2) unfolding linked_def by (cases e) (auto simp: relocate_def)
    qed
  qed
  then show ?thesis using assms(3) by (simp add: moved_def)
qed

section \<open>The operations on directories\<close>

abbreviation fs_ok :: "fs \<Rightarrow> bool" where
  "fs_ok s \<equiv> tree_ok s \<and> linked (kd s) (ent s)"

lemma linked_above:
  assumes ok: "fs_ok s" and e: "ent s (n, name) = Some (EDir m)"
  shows "m \<noteq> ROOT_NODE" "(m, n) \<in> up (kd s)" "(n, m) \<notin> (up (kd s))\<^sup>*" "m \<noteq> n"
proof -
  obtain dev where m: "kd s m = Some (KDir dev (LDirectory n name))" using ok e unfolding linked_def by blast
  note D = shape_okD [OF tree_okD(2)]
  show "m \<noteq> ROOT_NODE" using D(1) [of s] ok m by (metis kind.inject(1) location.distinct(1) option.inject)
  show u: "(m, n) \<in> up (kd s)" using m by (auto simp: up_def)
  show "(n, m) \<notin> (up (kd s))\<^sup>*"
  proof
    assume "(n, m) \<in> (up (kd s))\<^sup>*"
    then have "(m, m) \<in> (up (kd s))\<^sup>+" using u by (simp add: rtrancl_into_trancl2)
    then show False using D(8) [of s] ok unfolding acyclic_def by blast
  qed
  then show "m \<noteq> n" by auto
qed

lemma same_fs_cases:
  assumes ok: "tree_ok s" and n: "nodes s n \<noteq> None" "nodes s n' \<noteq> None"
  obtains (same) d d' where "same_fs n n' s = Ok (d, d')" "nodes s n = Some (TmpFsDir d)" "nodes s n' = Some (TmpFsDir d')"
      "kd s n = Some (KDir (d_fs d) (d_location d))" "kd s n' = Some (KDir (d_fs d) (d_location d'))"
  | (other) e where "same_fs n n' s = Err e" "e = NotDir \<or> e = XDev"
proof -
  obtain x y where x: "nodes s n = Some x" "nodes s n' = Some y" using n by auto
  consider (nd) "\<nexists>d. x = TmpFsDir d" | (nd') d where "x = TmpFsDir d" "\<nexists>d'. y = TmpFsDir d'"
    | (dd) d d' where "x = TmpFsDir d" "y = TmpFsDir d'" by blast
  then show ?thesis
  proof cases
    case nd
    then show ?thesis using other x by (simp add: same_fs_def tree_not_dir)
  next
    case nd'
    then have "same_fs n n' s = Err XDev" using x by (cases y) (auto simp: same_fs_def as_dir_def deref_def)
    then show ?thesis using other by blast
  next
    case dd
    then show ?thesis using x same other by (cases "d_fs d' = d_fs d") (auto simp: same_fs_def as_dir_def deref_def kd_def)
  qed
qed

lemma can_replace_not_Panic: "can_replace old new s \<noteq> Panic"
  by (induction old new s rule: can_replace.induct) (auto simp: ensure_def)

lemma can_rename_not_Panic: "can_rename old new check s \<noteq> Panic"
  using can_replace_not_Panic by (auto simp: can_rename_def ensure_def split: option.splits)

lemma can_rename_OkD: "can_rename old new check s = Ok () \<Longrightarrow> check \<Longrightarrow> \<exists>m. old = EDir m"
  by (simp add: can_rename_def result_simps)

text \<open>Renaming moves the entry, does nothing, or fails; it always comes to an end.\<close>

definition rename_outcome ::
  "nid \<Rightarrow> file_name \<Rightarrow> nid \<Rightarrow> file_name \<Rightarrow> bool \<Rightarrow> bool \<Rightarrow> fs \<Rightarrow> unit result \<Rightarrow> fs \<Rightarrow> bool" where
  "rename_outcome n oldname n' newname check no_replace s r t \<longleftrightarrow>
     (case r of
        Ok _ \<Rightarrow> (\<exists>e dev. ent s (n, oldname) = Some e \<and> (check \<longrightarrow> (\<exists>m. e = EDir m)) \<and>
          (no_replace \<longrightarrow> ent s (n', newname) = None) \<and>
          (if (n', newname) = (n, oldname) then t = s
           else moved n oldname n' newname e dev s t \<and> can_rename e (ent s (n', newname)) check s = Ok () \<and>
             (n \<noteq> n' \<longrightarrow> (n', entry_node e) \<notin> (up (kd s))\<^sup>*)))
      | Err _ \<Rightarrow> t = s
      | Panic \<Rightarrow> False)"

lemma dir_rename_spec:
  assumes ok: "fs_ok s" and n: "nodes s n \<noteq> None" "nodes s n' \<noteq> None"
  shows "\<exists>r t. dir_rename n oldname check n' newname no_replace s = Some (r, t) \<and>
    rename_outcome n oldname n' newname check no_replace s r t"
proof -
  have tok: "tree_ok s" using ok by blast
  show ?thesis
  proof (cases rule: same_fs_cases [OF tok n, case_names same other])
    case (other e)
    then show ?thesis by (simp add: dir_rename_def rename_outcome_def)
  next
    case (same d d')
    note E = ent_dir [OF same(2)] ent_dir [OF same(3)]
    note cr = can_rename_not_Panic
    show ?thesis
    proof (cases "ent s (n, oldname)")
      case None
      then show ?thesis using same(1) E by (simp add: dir_rename_def rename_outcome_def)
    next
      case (Some old)
      let ?new = "ent s (n', newname)"
      have nf: "oldname = newname \<Longrightarrow> n \<noteq> n'" if "(n, oldname) \<noteq> (n', newname)" using that by auto
      have mv: "\<exists>t. move_entry n oldname old n' newname s = (Ok (), t) \<and> moved n oldname n' newname old (d_fs d) s t"
        if "(n, oldname) \<noteq> (n', newname)" "n = n' \<or> (n', entry_node old) \<notin> (up (kd s))\<^sup>*"
      proof (rule move_entry_spec [OF tok Some that(1) same(4,5)])
        show "m \<noteq> ROOT_NODE \<and> (n', m) \<notin> (up (kd s))\<^sup>*" if "old = EDir m" for m
          using linked_above(1,3) [OF ok, of n oldname m] Some that \<open>n = n' \<or> _\<close> by auto
      qed
      consider (noop) "n = n'" "newname = oldname" | (here) "n = n'" "newname \<noteq> oldname" | (there) "n \<noteq> n'" by blast
      then show ?thesis
      proof cases
        case noop
        then show ?thesis using same(1) E Some
          by (auto simp: dir_rename_def rename_outcome_def can_rename_def ensure_def split: outcome.splits)
      next
        case here
        then obtain t where t: "move_entry n oldname old n newname s = (Ok (), t)" "moved n oldname n' newname old (d_fs d) s t"
          using mv by auto
        show ?thesis
        proof (cases "can_rename old ?new check s = Ok () \<and> (\<not> no_replace \<or> ?new = None)")
          case True
          then show ?thesis using here same(1) E Some t
            by (auto simp: dir_rename_def rename_outcome_def sbind_def dest: can_rename_OkD)
        next
          case False
          then show ?thesis using here same(1) E Some cr [of old ?new check s]
            by (cases "can_rename old ?new check s")
              (auto simp: dir_rename_def rename_outcome_def sbind_def ensure_def Let_def)
        qed
      next
        case there
        obtain r where r: "check_not_above (entry_node old) s n' = Some r" "r \<noteq> Panic"
          "r = Ok () \<longrightarrow> (n', entry_node old) \<notin> (up (kd s))\<^sup>*"
          using check_not_above_spec [OF tok same(5)] by blast
        show ?thesis
        proof (cases "r = Ok () \<and> can_rename old ?new check s = Ok () \<and> (\<not> no_replace \<or> ?new = None)")
          case True
          then obtain t where "move_entry n oldname old n' newname s = (Ok (), t)" "moved n oldname n' newname old (d_fs d) s t"
            using mv there r(3) by blast
          then show ?thesis using there same(1) E Some r True
            by (auto simp: dir_rename_def rename_outcome_def sbind_def Let_def dest: can_rename_OkD)
        next
          case False
          then show ?thesis using there same(1) E Some r cr [of old ?new check s]
            by (cases r; cases "can_rename old ?new check s")
              (auto simp: dir_rename_def rename_outcome_def sbind_def ensure_def Let_def)
        qed
      qed
    qed
  qed
qed

end
