(* ===== verification/Tree_Ops.thy ===== *)
theory Tree_Ops
  imports Tree
begin

text \<open>
  Exchanging, linking, freeing and changing the attributes of nodes, and the file system as a
  transition system: whatever sequence of operations runs, the tree stays well formed.
\<close>

section \<open>Exchanging\<close>

lemma relink_Suc_pred: "relink e (\<lambda>l. l - 1) (relink e Suc K) = K"
  by (cases e) (auto simp: relink_def fun_eq_iff split: option.splits kind.splits)

lemma shape_swap:
  assumes ok: "shape_ok K E c" and x: "E (n, a) = Some old" and y: "E (n', b) = Some new" and ne: "(n, a) \<noteq> (n', b)"
    and n: "K n = Some (KDir dev loc)" "K n' = Some (KDir dev loc')"
  shows "shape_ok K (E((n', b) \<mapsto> old, (n, a) \<mapsto> new)) c"
proof (rule shape_alike [OF ok])
  note D = shape_okD [OF ok]
  let ?E = "E((n', b) \<mapsto> old, (n, a) \<mapsto> new)"
  show "alike K K" by (simp add: alike_def)
  show "finite (dom ?E)" using D(6) by simp
  show "\<exists>dev loc. K k = Some (KDir dev loc) \<and> fits K dev e" if "?E (k, nm) = Some e" for k nm e
    using that D(3) [of k nm e] D(3) [OF x] D(3) [OF y] n by (auto split: if_splits)
  show "l = card (refs ?E (EFile m))" if "K m = Some (KFile dv l)" for m dv l
    using card_refs_update [OF D(6), of "(n', b)" "Some old" "EFile m"] D(7) [OF that]
      card_refs_update [of "E((n', b) \<mapsto> old)" "(n, a)" "Some new" "EFile m"] D(6) x y ne
    by (auto split: if_splits)
qed

definition exchanged :: "nid \<Rightarrow> file_name \<Rightarrow> nid \<Rightarrow> file_name \<Rightarrow> fs \<Rightarrow> fs \<Rightarrow> bool" where
  "exchanged n oldname n' newname s t \<longleftrightarrow> tree_ok t \<and> kd t = kd s \<and> ino_counter t = ino_counter s \<and>
     ent t = (ent s)((n', newname) := ent s (n, oldname), (n, oldname) := ent s (n', newname))"

text \<open>No file has as many links as the counter can hold.\<close>

definition few_links :: "fs \<Rightarrow> bool" where
  "few_links s \<longleftrightarrow> (\<forall>m dev l. kd s m = Some (KFile dev l) \<longrightarrow> l + 1 < usize_bound)"

lemma clone_entry_becomes:
  assumes "becomes s K E c" "few_links s" "fits K dev e"
  shows "\<exists>t. clone_entry e s = (Ok (), t) \<and> becomes t (relink e Suc K) E c \<and> clock t = clock s"
proof -
  have "\<exists>dev l. kd s m = Some (KFile dev l) \<and> l + 1 < usize_bound" if "e = EFile m" for m
    using assms that unfolding few_links_def becomes_def by auto
  from clone_entry_spec [OF _ this] assms(1) show ?thesis by (auto simp: becomes_def)
qed

lemma swap_entries_spec:
  assumes ok: "fs_ok s" and x: "ent s (n, a) = Some old" and y: "ent s (n', b) = Some new" and ne: "(n, a) \<noteq> (n', b)"
    and n: "kd s n = Some (KDir dev loc)" "kd s n' = Some (KDir dev loc')" and few: "few_links s"
  shows "\<exists>t. sbind (clone_entry old) (\<lambda>_. swap_entries n a old n' b new) s = (Ok (), t) \<and> exchanged n a n' b s t"
proof -
  have tok: "tree_ok s" using ok by blast
  note D = tree_okD [OF tok]
  have fit: "fits (kd s) dev old" "fits (kd s) dev new" using shape_okD(3) [OF D(2) x] shape_okD(3) [OF D(2) y] n by auto
  let ?K = "relink old Suc (kd s)" and ?E = "(ent s)((n', b) \<mapsto> old)"
  obtain t1 where t1: "clone_entry old s = (Ok (), t1)" "becomes t1 ?K (ent s) (ino_counter s)"
    using clone_entry_becomes [OF D(1) few fit(1)] by blast
  let ?t2 = "update_items n' (bt_insert b old) t1"
  have t2: "becomes ?t2 ?K ?E (ino_counter s)"
    by (rule insert_item_becomes [OF t1(2), of n' dev loc']) (use n in simp)
  let ?t3 = "case new of EDir m \<Rightarrow> set_location m (LDirectory n' b) ?t2 | _ \<Rightarrow> ?t2"
  have t3: "becomes ?t3 ?K ?E (ino_counter s)"
  proof (cases "\<exists>m. new = EDir m")
    case True
    then obtain m where m: "new = EDir m" by blast
    then obtain dv where k: "kd s m = Some (KDir dv (LDirectory n' b))" using ok y unfolding linked_def by blast
    then have "?K m = Some (KDir dv (LDirectory n' b))" by simp
    from set_location_becomes(1) [OF t2 this, of "LDirectory n' b"] this show ?thesis by (simp add: m fun_upd_idem)
  qed (use t2 in \<open>cases new; simp\<close>)
  have "\<exists>dev l. ?K m = Some (KFile dev (Suc l))" if "?E (n, a) = Some (EFile m)" for m
    using that x ne fit(1) by (auto simp: relink_file split: if_splits)
  then obtain t where t: "insert_entry n a new ?t3 = (Ok (), t)"
    "becomes t (relink_opt (?E (n, a)) (\<lambda>l. l - 1) ?K) (?E((n, a) \<mapsto> new)) (ino_counter s)"
    using insert_entry_becomes [OF t3, of n dev loc a new] n by auto
  have b: "becomes t (kd s) ((ent s)((n', b) := ent s (n, a), (n, a) := ent s (n', b))) (ino_counter s)"
    using t(2) x y ne relink_Suc_pred [of old "kd s"] by auto
  then have "exchanged n a n' b s t"
    using becomes_tree_ok [OF b] shape_swap [OF D(2) x y ne n] x y by (simp add: exchanged_def becomes_def)
  moreover have "sbind (clone_entry old) (\<lambda>_. swap_entries n a old n' b new) s = (Ok (), t)"
    using t1(1) t(1) by (simp add: sbind_def swap_entries_def)
  ultimately show ?thesis by blast
qed

lemma clone_drop:
  assumes "becomes s K E c" "few_links s" "fits K dev e" "\<And>m. e = EFile m \<Longrightarrow> \<exists>dev l. K m = Some (KFile dev (Suc l))"
  shows "\<exists>t. sbind (clone_entry e) (\<lambda>_. sbind (drop_entry e) (\<lambda>_. slift (Err x))) s = (Err x, t) \<and> becomes t K E c"
proof -
  obtain t1 where t1: "clone_entry e s = (Ok (), t1)" "becomes t1 (relink e Suc K) E c"
    using clone_entry_becomes [OF assms(1-3)] by blast
  have "\<exists>dev l. relink e Suc K m = Some (KFile dev (Suc l))" if "e = EFile m" for m
    using assms(4) [OF that] that by (auto simp: relink_file)
  then obtain t where "drop_entry e t1 = (Ok (), t)" "becomes t (relink e (\<lambda>l. l - 1) (relink e Suc K)) E c"
    using drop_entry_becomes [OF t1(2), of e] by blast
  then show ?thesis using t1(1) relink_Suc_pred [of e K] by (simp add: sbind_def)
qed

text \<open>Exchanging swaps the two entries and touches no node: not even the location of a
  directory that changed its place.\<close>

lemma dir_exchange_spec:
  assumes ok: "fs_ok s" and n: "nodes s n \<noteq> None" "nodes s n' \<noteq> None" and few: "few_links s"
  shows "\<exists>r t. dir_exchange n oldname n' newname s = Some (r, t) \<and>
    (case r of
       Ok _ \<Rightarrow> exchanged n oldname n' newname s t \<or> (n', newname) = (n, oldname) \<and> t = s
     | Err _ \<Rightarrow> becomes t (kd s) (ent s) (ino_counter s)
     | Panic \<Rightarrow> False)"
proof -
  have tok: "tree_ok s" using ok by blast
  note D = tree_okD [OF tok]
  show ?thesis
  proof (cases rule: same_fs_cases [OF tok n, case_names same other])
    case (other e)
    then show ?thesis using D(1) by (simp add: dir_exchange_def)
  next
    case (same d d')
    note E = ent_dir [OF same(2)] ent_dir [OF same(3)]
    show ?thesis
    proof (cases "(n', newname) = (n, oldname)")
      case True
      then show ?thesis using same(1) by (simp add: dir_exchange_def)
    next
      case ne: False
      then have ne': "(n, oldname) \<noteq> (n', newname)" by auto
      show ?thesis
      proof (cases "ent s (n, oldname)")
        case None
        then show ?thesis using same(1) E ne D(1) by (auto simp: dir_exchange_def)
      next
        case (Some old)
        have fit: "fits (kd s) (d_fs d) old" using shape_okD(3) [OF D(2) Some] same(4) by auto
        have pos: "\<exists>dev l. kd s m = Some (KFile dev (Suc l))" if "old = EFile m" for m
          using shape_links_pos [OF D(2)] Some that by blast
        obtain t0 where t0: "sbind (clone_entry old) (\<lambda>_. sbind (drop_entry old) (\<lambda>_. slift (Err NoEnt :: unit result))) s = (Err NoEnt, t0)"
          "becomes t0 (kd s) (ent s) (ino_counter s)"
          using clone_drop [OF D(1) few fit pos] by blast
        show ?thesis
        proof (cases "ent s (n', newname)")
          case None
          then show ?thesis using same(1) E ne Some D(1) t0 by (cases "n = n'") (auto simp: dir_exchange_def)
        next
          case (Some new)
          obtain t where t: "sbind (clone_entry old) (\<lambda>_. swap_entries n oldname old n' newname new) s = (Ok (), t)"
            "exchanged n oldname n' newname s t"
            using swap_entries_spec [OF ok \<open>ent s (n, oldname) = Some old\<close> Some ne' same(4,5) few] by blast
          obtain r where r: "check_not_above (entry_node new) s n' = Some r" "r \<noteq> Panic"
            using check_not_above_spec [OF tok same(5)] by blast
          show ?thesis using same(1) E ne Some \<open>ent s (n, oldname) = Some old\<close> t r D(1)
            by (cases "n = n'"; cases r) (auto simp: dir_exchange_def sbind_eqs)
        qed
      qed
    qed
  qed
qed

section \<open>Attributes\<close>

definition touched :: "fs \<Rightarrow> fs \<Rightarrow> bool" where
  "touched s t \<longleftrightarrow> becomes t (kd s) (ent s) (ino_counter s)"

lemma touched_refl: "tree_ok s \<Longrightarrow> touched s s"
  by (simp add: touched_def tree_okD(1))

lemma touched_tree_ok: "tree_ok s \<Longrightarrow> touched s t \<Longrightarrow> tree_ok t"
  unfolding touched_def using becomes_tree_ok tree_okD(2) by blast

lemma touched_linked: "touched s t \<Longrightarrow> linked (kd s) (ent s) \<Longrightarrow> linked (kd t) (ent t)"
  by (simp add: touched_def becomes_def)

lemma touched_set_node:
  assumes "nodes_ok s" "nodes s n = Some x" "kind_of y = kind_of x" "node_items y = node_items x" "node_ok y"
  shows "touched s (set_node n y s)"
  using same_shape_set_node [OF assms(2-4)] nodes_ok_set_node [OF assms(1,5)]
  by (simp add: touched_def becomes_def same_shape_def)

lemma change_node_spec:
  assumes "tree_ok s" "nodes s n \<noteq> None"
    and "\<And>x y. g x = Ok y \<Longrightarrow> node_ok x \<Longrightarrow> kind_of y = kind_of x \<and> node_items y = node_items x \<and> node_ok y"
  shows "\<exists>r t. change_node n g s = (r, t) \<and> touched s t \<and> (r = Panic \<longrightarrow> (\<exists>x. g x = Panic))"
proof -
  obtain x where x: "nodes s n = Some x" using assms(2) by auto
  have "nodes_ok s" using assms(1) by (simp add: tree_ok_def)
  then show ?thesis using assms(3) [of x] x touched_set_node [OF _ x] nodes_okD [OF _ x] touched_refl [OF assms(1)]
    by (cases "g x") (auto simp: change_node_def deref_def)
qed

lemma mode_ok_remove: "mode_ok m \<Longrightarrow> mode_ok (remove_flags m f)"
proof -
  assume "mode_ok m"
  then have "m AND mask 12 = m" by (simp add: mode_ok_def FileMode_from_bits_truncate_def all_bits_mask)
  moreover have "(m AND NOT f) AND mask 12 = (m AND mask 12) AND NOT f" by (simp only: and.assoc and.commute and.left_commute)
  ultimately have "(m AND NOT f) AND mask 12 = m AND NOT f" by simp
  then show ?thesis by (simp add: mode_ok_def FileMode_from_bits_truncate_def all_bits_mask remove_flags_def)
qed

lemma chmod_ok: "chmod mode ctx own = Ok own' \<Longrightarrow> mode_ok mode \<Longrightarrow> mode_ok (own_mode own')"
  by (auto simp: chmod_def result_simps Let_def mode_ok_remove)

lemma chown_ok: "chown uid gid ctx own = Ok own' \<Longrightarrow> own_mode own' = own_mode own"
  by (auto simp: chown_def result_simps Let_def)

lemma chmod_not_Panic: "chmod mode ctx own \<noteq> Panic" "chown uid gid ctx own \<noteq> Panic"
  by (auto simp: chmod_def chown_def result_simps Let_def ensure_def)

lemma inode_chmod_spec:
  assumes "tree_ok s" "nodes s n \<noteq> None" "mode_ok mode"
  shows "\<exists>r t. inode_chmod n mode ctx s = (r, t) \<and> touched s t \<and> r \<noteq> Panic"
proof -
  have 1: "kind_of y = kind_of x \<and> node_items y = node_items x \<and> node_ok y" if "node_chmod mode ctx x = Ok y" "node_ok x" for x y
    using that assms(3) by (cases x) (auto simp: result_simps chmod_ok)
  have 2: "node_chmod mode ctx x \<noteq> Panic" for x by (cases x) (auto simp: result_simps chmod_not_Panic)
  from change_node_spec [OF assms(1,2) 1] 2 show ?thesis unfolding inode_chmod_def by blast
qed

lemma inode_chown_spec:
  assumes "tree_ok s" "nodes s n \<noteq> None"
  shows "\<exists>r t. inode_chown n uid gid ctx s = (r, t) \<and> touched s t \<and> r \<noteq> Panic"
proof -
  have 1: "kind_of y = kind_of x \<and> node_items y = node_items x \<and> node_ok y" if "node_chown uid gid ctx x = Ok y" "node_ok x" for x y
    using that by (cases x) (auto simp: result_simps chown_ok)
  have 2: "node_chown uid gid ctx x \<noteq> Panic" for x by (cases x) (auto simp: result_simps chmod_not_Panic)
  from change_node_spec [OF assms 1] 2 show ?thesis unfolding inode_chown_def by blast
qed

lemma update_times_spec:
  assumes "tree_ok s" "nodes s n \<noteq> None"
  shows "\<exists>t. update_times n ct at mt s = (Ok (), t) \<and> touched s t"
proof -
  obtain x where x: "nodes s n = Some x" using assms(2) by auto
  have ok: "nodes_ok s" using assms(1) by (simp add: tree_ok_def)
  let ?y = "node_update_times ct at mt x"
  have "kind_of ?y = kind_of x" "node_items ?y = node_items x" "node_ok ?y"
    using nodes_okD [OF ok x] by (cases x; simp)+
  then show ?thesis using touched_set_node [OF ok x] x
    by (simp add: update_times_def change_node_def deref_def)
qed

section \<open>Hard links\<close>

definition hard_linked :: "nid \<Rightarrow> file_name \<Rightarrow> dir_entry \<Rightarrow> fs \<Rightarrow> fs \<Rightarrow> bool" where
  "hard_linked n name e s t \<longleftrightarrow> tree_ok t \<and> kd t = relink e Suc (kd s) \<and> ent t = (ent s)((n, name) \<mapsto> e) \<and>
     ino_counter t = ino_counter s"

fun linkable :: "dir_entry \<Rightarrow> bool" where
  "linkable (EDir _) = False"
| "linkable (EMount _) = False"
| "linkable _ = True"

lemma fits_alive: "fits K dev e \<Longrightarrow> K (entry_node e) \<noteq> None"
  by (cases e) auto

lemma link_entry_spec:
  assumes ok: "tree_ok s" and n': "kd s n' = Some (KDir dev loc)" and e: "fits (kd s) dev e" "few_links s" "ent s (n', name) = None"
  shows "\<exists>t. sbind (clone_entry e) (\<lambda>_ s. sbind (\<lambda>s. (Ok (), update_items n' (bt_insert name e) s)) (\<lambda>_.
      sbind (update_times (entry_node e) (clock s) None None) (\<lambda>_. sret x)) s) s = (Ok x, t) \<and> hard_linked n' name e s t"
proof -
  note D = tree_okD [OF ok]
  obtain t1 where t1: "clone_entry e s = (Ok (), t1)" "becomes t1 (relink e Suc (kd s)) (ent s) (ino_counter s)"
    using clone_entry_becomes [OF D(1) e(2,1)] by blast
  let ?t2 = "update_items n' (bt_insert name e) t1"
  have b: "becomes ?t2 (relink e Suc (kd s)) ((ent s)((n', name) \<mapsto> e)) (ino_counter s)"
    by (rule insert_item_becomes [OF t1(2), of n' dev loc]) (use n' in simp)
  have ok2: "tree_ok ?t2" using becomes_tree_ok [OF b] shape_set [OF D(2) n' e(1), of name] e(3) by simp
  have "kd ?t2 (entry_node e) \<noteq> None" using fits_alive [OF e(1)] b relink_None [of e Suc "kd s"] unfolding becomes_def by metis
  then have "nodes ?t2 (entry_node e) \<noteq> None" by simp
  then obtain t where t: "update_times (entry_node e) (clock t1) None None ?t2 = (Ok (), t)" "touched ?t2 t"
    using update_times_spec [OF ok2] by blast
  have "hard_linked n' name e s t" using touched_tree_ok [OF ok2 t(2)] t(2) b
    by (simp add: hard_linked_def touched_def becomes_def)
  then show ?thesis using t1(1) t(1) by (simp add: sbind_def)
qed

lemma dir_hard_link_spec:
  assumes ok: "tree_ok s" and n: "nodes s n \<noteq> None" "nodes s n' \<noteq> None" and few: "few_links s"
  shows "\<exists>r t. dir_hard_link n oldname follow n' newname s = (r, t) \<and>
    (case r of
       Ok None \<Rightarrow> \<exists>e. ent s (n, oldname) = Some e \<and> linkable e \<and> ent s (n', newname) = None \<and> hard_linked n' newname e s t
     | Ok (Some p) \<Rightarrow> follow \<and> (\<exists>m dev. ent s (n, oldname) = Some (ESymlink m) \<and> kd s m = Some (KSymlink dev p)) \<and> t = s
     | Err _ \<Rightarrow> touched s t
     | Panic \<Rightarrow> False)"
proof (cases rule: same_fs_cases [OF ok n, case_names same other])
  case (other e)
  then show ?thesis using touched_refl [OF ok] by (auto simp: dir_hard_link_def sbind_def)
next
  case (same d d')
  note D = tree_okD [OF ok] and E = ent_dir [OF same(2)] ent_dir [OF same(3)]
  show ?thesis
  proof (cases "ent s (n, oldname)")
    case None
    then show ?thesis using same(1) E touched_refl [OF ok] by (simp add: dir_hard_link_def sbind_def)
  next
    case (Some e)
    have fit: "fits (kd s) (d_fs d) e" using shape_okD(3) [OF D(2) Some] same(4) by auto
    have pos: "\<exists>dev l. kd s m = Some (KFile dev (Suc l))" if "e = EFile m" for m
      using shape_links_pos [OF D(2)] Some that by blast
    let ?enter = "\<lambda>_ s. sbind (\<lambda>s. (Ok (), update_items n' (bt_insert newname e) s)) (\<lambda>_.
      sbind (update_times (entry_node e) (clock s) None None) (\<lambda>_. sret None)) s"
    let ?fail = "\<lambda>x _. sbind (drop_entry e) (\<lambda>_. slift (Err x))"
    have start: "same_fs n n' s = Ok (d, d')" "bt_get oldname (d_items d) = Some e" "bt_get newname (d_items d') = ent s (n', newname)"
      using same(1) Some E by simp_all
    have first: "sbind (\<lambda>s. (same_fs n n' s, s)) f s = f (d, d') s" for f :: "dir \<times> dir \<Rightarrow> (fs, path option) stateful"
      using start(1) by (simp add: sbind_def)
    have fail: "\<exists>t. sbind (clone_entry e) (?fail x) s = (Err x :: path option result, t) \<and> touched s t" for x
      using clone_drop [OF D(1) few fit pos] unfolding touched_def by blast
    have enter: "\<exists>t. sbind (clone_entry e) ?enter s = (Ok (None :: path option), t) \<and> hard_linked n' newname e s t"
      if "ent s (n', newname) = None" by (rule link_entry_spec [OF ok same(5) fit few that])
    have unlinkable: "dir_hard_link n oldname follow n' newname s = sbind (clone_entry e) (?fail x) s"
      if "e = EDir m \<and> x = Perm \<or> e = EMount m \<and> x = Busy" for m x
      using that by (elim disjE conjE) (simp_all add: dir_hard_link_def first start)
    have followed: "dir_hard_link n oldname follow n' newname s = (Ok (Some p), s)"
      if "e = ESymlink m" "follow" "nodes s m = Some (TmpFsSymlink l)" "s_target l = p" for m l p
      using that by (simp add: dir_hard_link_def first start sbind_def)
    have entering: "dir_hard_link n oldname follow n' newname s =
        (if ent s (n', newname) = None then sbind (clone_entry e) ?enter s else sbind (clone_entry e) (?fail Exist) s)"
      if "linkable e" "\<nexists>m. follow \<and> e = ESymlink m"
      using that by (cases e; cases "ent s (n', newname)") (simp_all add: dir_hard_link_def first start)
    consider (dir) m x where "e = EDir m \<and> x = Perm \<or> e = EMount m \<and> x = Busy" | (link) m where "e = ESymlink m" "follow"
      | (plain) "linkable e" "\<nexists>m. follow \<and> e = ESymlink m" by (cases e) auto
    then show ?thesis
    proof cases
      case dir
      obtain t where "sbind (clone_entry e) (?fail x) s = (Err x :: path option result, t)" "touched s t" using fail by blast
      then show ?thesis using unlinkable [OF dir] by simp
    next
      case link
      then obtain p where p: "kd s m = Some (KSymlink (d_fs d) p)" using fit by auto
      then obtain l where "nodes s m = Some (TmpFsSymlink l)" "s_target l = p" by (auto simp: kd_def elim!: kind_of.elims)
      then show ?thesis using followed link p Some by auto
    next
      case plain
      show ?thesis
      proof (cases "ent s (n', newname)")
        case None
        then show ?thesis using entering [OF plain] enter plain(1) Some by auto
      next
        case (Some y)
        then show ?thesis using entering [OF plain] fail [of Exist] by auto
      qed
    qed
  qed
qed

section \<open>Freeing a node\<close>

lemma drop_items_spec:
  assumes "tree_ok t" "linked (kd t) (ent t)" "distinct (map fst es)" "\<And>name e. (name, e) \<in> set es \<Longrightarrow> ent t (m, name) = Some e"
  shows "\<exists>u. sfor (\<lambda>(name, e). sbind (remove_entry m name) (\<lambda>_. drop_entry e)) es t = (Ok (), u) \<and>
    tree_ok u \<and> linked (kd u) (ent u) \<and> ino_counter u = ino_counter t \<and>
    ent u = (\<lambda>(n, name). if n = m \<and> name \<in> fst ` set es then None else ent t (n, name))"
  using assms
proof (induction es arbitrary: t)
  case Nil
  then show ?case by simp
next
  case (Cons x es)
  obtain name e where x: "x = (name, e)" by (cases x)
  obtain u where u: "sbind (remove_entry m name) (\<lambda>_. drop_entry e) t = (Ok (), u)" "removed m name t u"
    using remove_spec [OF Cons.prems(1)] Cons.prems(4) x by force
  have e: "ent u = (ent t)((m, name) := None)" using u(2) by (simp add: removed_def)
  have "\<exists>v. sfor (\<lambda>(name, e). sbind (remove_entry m name) (\<lambda>_. drop_entry e)) es u = (Ok (), v) \<and>
    tree_ok v \<and> linked (kd v) (ent v) \<and> ino_counter v = ino_counter u \<and>
    ent v = (\<lambda>(n, name). if n = m \<and> name \<in> fst ` set es then None else ent u (n, name))"
  proof (rule Cons.IH)
    show "tree_ok u" "linked (kd u) (ent u)" using u(2) removed_linked Cons.prems(2) by (auto simp: removed_def)
    show "ent u (m, nm) = Some y" if "(nm, y) \<in> set es" for nm y
    proof -
      have "nm \<noteq> name" using that Cons.prems(3) x by force
      then show ?thesis using that Cons.prems(4) x e by simp
    qed
  qed (use Cons.prems(3) in simp)
  then obtain v where v: "sfor (\<lambda>(name, e). sbind (remove_entry m name) (\<lambda>_. drop_entry e)) es u = (Ok (), v)"
    "tree_ok v" "linked (kd v) (ent v)" "ino_counter v = ino_counter u"
    "ent v = (\<lambda>(n, name). if n = m \<and> name \<in> fst ` set es then None else ent u (n, name))" by blast
  have "ent v = (\<lambda>(n, name). if n = m \<and> name \<in> fst ` set (x # es) then None else ent t (n, name))"
    unfolding v(5) e x by (auto simp: fun_eq_iff)
  moreover have "sfor (\<lambda>(name, e). sbind (remove_entry m name) (\<lambda>_. drop_entry e)) (x # es) t = (Ok (), v)"
    using u(1) v(1) by (simp add: x sbind_eqs)
  ultimately show ?case using v u(2) by (auto simp: removed_def)
qed

text \<open>A node that no directory has an entry for may be freed.\<close>

lemma free_node_spec:
  assumes ok: "fs_ok s" and m: "m \<noteq> ROOT_NODE" "\<And>x e. ent s x = Some e \<Longrightarrow> entry_node e \<noteq> m"
  shows "\<exists>t. free_node m s = (Ok (), t) \<and> fs_ok t \<and> ino_counter t = ino_counter s \<and>
    (\<forall>x. ent t x \<noteq> None \<longrightarrow> ent s x \<noteq> None)"
proof -
  define es where "es = (case nodes s m of Some (TmpFsDir d) \<Rightarrow> d_items d | _ \<Rightarrow> [])"
  have nok: "nodes_ok s" using ok by (simp add: tree_ok_def)
  have items: "es = (case nodes s m of Some x \<Rightarrow> node_items x | None \<Rightarrow> [])"
    by (auto simp: es_def split: option.splits node.splits)
  have wf: "bt_wf es" using nodes_okD [OF nok, of m] by (auto simp: es_def split: option.splits node.splits)
  have get: "ent s (m, name) = bt_get name es" for name by (auto simp: items ent_def split: option.splits)
  have tok: "tree_ok s" and lk: "linked (kd s) (ent s)" using ok by blast+
  have has: "ent s (m, name) = Some e" if "(name, e) \<in> set es" for name e using that bt.entries_get [OF wf] get by simp
  obtain u where u: "sfor (\<lambda>(name, e). sbind (remove_entry m name) (\<lambda>_. drop_entry e)) es s = (Ok (), u)"
    "tree_ok u" "linked (kd u) (ent u)" "ino_counter u = ino_counter s"
    "ent u = (\<lambda>(n, name). if n = m \<and> name \<in> fst ` set es then None else ent s (n, name))"
    using drop_items_spec [OF tok lk bt.distinct_entries [OF wf] has] by blast
  have empty: "ent u (m, name) = None" for name
    using bt.keys_get [of name es] get [of name] unfolding u(5) by auto
  let ?t = "u\<lparr>nodes := (nodes u)(m := None)\<rparr>"
  have k: "kd ?t = (kd u)(m := None)" by (auto simp: kd_def fun_eq_iff)
  have "ent ?t (n, name) = ent u (n, name)" for n name
  proof (cases "n = m")
    case True
    then have "ent ?t (n, name) = None" by (simp add: ent_def)
    then show ?thesis using True empty by simp
  qed (simp add: ent_def)
  then have e: "ent ?t = ent u" by (auto simp: fun_eq_iff)
  have refs: "entry_node y \<noteq> m" if "ent u x = Some y" for x y
    using that m(2) unfolding u(5) by (cases x) (auto split: if_splits)
  have "shape_ok ((kd u)(m := None)) (ent u) (ino_counter u)"
    by (rule shape_free [OF tree_okD(2) [OF u(2)] m(1)]) (use refs empty in auto)
  moreover have "nodes_ok ?t" using u(2) by (auto simp: tree_ok_def nodes_ok_def split: if_splits)
  ultimately have "tree_ok ?t" by (simp add: tree_ok_def k e)
  moreover have "linked (kd ?t) (ent ?t)"
    unfolding k e linked_def
  proof (intro allI impI)
    fix n name d assume d: "ent u (n, name) = Some (EDir d)"
    then have "d \<noteq> m" using refs by fastforce
    then show "\<exists>dev. ((kd u)(m := None)) d = Some (KDir dev (LDirectory n name))"
      using u(3) d unfolding linked_def by simp
  qed
  moreover have "free_node m s = (Ok (), ?t)"
    using u(1) unfolding free_node_def es_def by (simp add: sbind_eqs)
  moreover have "\<forall>x. ent ?t x \<noteq> None \<longrightarrow> ent s x \<noteq> None" unfolding e u(5) by auto
  ultimately show ?thesis using u(4) by auto
qed

section \<open>Creating\<close>

lemma mode_ok_ALL: "mode_ok FileMode_ALL"
  by (simp add: mode_ok_def FileMode_from_bits_truncate_def FileMode_ALL_def FileMode_all_bits_def)

text \<open>What the four creating operations have in common.\<close>

definition creates ::
  "nid \<Rightarrow> file_name \<Rightarrow> (nid \<Rightarrow> dir_entry) \<Rightarrow> (nat \<Rightarrow> kind) \<Rightarrow> fs \<Rightarrow> (nid + nid) result \<Rightarrow> fs \<Rightarrow> bool" where
  "creates n name entry k s r t \<longleftrightarrow>
     (case r of
        Ok (Inr m) \<Rightarrow> (\<exists>dev loc. kd s n = Some (KDir dev loc) \<and> m = ino_counter s \<and> created n name (entry m) (k dev) s t \<and>
          fresh_kind (entry m) dev n name (k dev))
      | Ok (Inl m) \<Rightarrow> t = s \<and> (\<exists>e. ent s (n, name) = Some e \<and> m = entry_node e)
      | Err e \<Rightarrow> t = s \<and> e = NotDir \<and> (\<nexists>dev loc. kd s n = Some (KDir dev loc))
      | Panic \<Rightarrow> False)"

lemma creates_spec:
  assumes ok: "tree_ok s" and n: "nodes s n \<noteq> None"
    and new: "\<And>d. new d s = new_node (x d) s" "\<And>d. node_ok (x d)" "\<And>d. node_items (x d) = []" "\<And>d. kind_of (x d) = k (d_fs d)"
    and e: "\<And>m. entry_node (entry m) = m" "\<And>m dev. fresh_kind (entry m) dev n name (k dev)"
  shows "\<exists>r t. create n name new entry s = (r, t) \<and> creates n name entry k s r t"
proof (cases "\<exists>d. nodes s n = Some (TmpFsDir d)")
  case True
  then obtain d where d: "nodes s n = Some (TmpFsDir d)" by blast
  have kn: "kd s n = Some (KDir (d_fs d) (d_location d))" using d by (simp add: kd_def)
  have "fresh_kind (entry (ino_counter s)) (d_fs d) n name (kind_of (x d))" using e(2) new(4) by simp
  from create_spec [where x = "x d" and new = new and entry = entry, OF ok d new(1) new(2) new(3) e(1) this] show ?thesis
    using kn e(2) new(4) by (cases "ent s (n, name)") (auto simp: creates_def)
next
  case False
  obtain y where y: "nodes s n = Some y" using n by auto
  then have "as_dir n s = Err NotDir" using False by (intro tree_not_dir) auto
  moreover have "kd s n \<noteq> Some (KDir dev loc)" for dev loc using False by (auto elim: kd_DirE)
  ultimately show ?thesis by (auto simp: create_def sbind_def creates_def)
qed

lemma creates_fs_ok: "fs_ok s \<Longrightarrow> creates n name entry k s r t \<Longrightarrow> fs_ok t"
  using created_linked [of s n name] by (auto simp: creates_def created_def split: outcome.splits sum.splits)

lemma dir_create_file_spec:
  assumes "tree_ok s" "nodes s n \<noteq> None" "mode_ok mode"
  shows "\<exists>r t. dir_create_file n name mode uid gid s = (r, t) \<and> creates n name EFile (\<lambda>dev. KFile dev 1) s r t"
  unfolding dir_create_file_def
  by (rule creates_spec [where x = "\<lambda>d. file_node (d_fs d) mode uid gid (clock s)"])
    (use assms in \<open>simp_all add: TmpFsFile_new_def file_node_def Ownership_new_def\<close>)

lemma dir_create_dir_spec:
  assumes "tree_ok s" "nodes s n \<noteq> None" "mode_ok mode"
  shows "\<exists>r t. create n name (\<lambda>d. TmpFsDir_new (d_fs d) (LDirectory n name) mode uid gid) EDir s = (r, t) \<and>
    creates n name EDir (\<lambda>dev. KDir dev (LDirectory n name)) s r t"
  by (rule creates_spec [where x = "\<lambda>d. dir_node (d_fs d) (LDirectory n name) mode uid gid (clock s)"])
    (use assms in \<open>simp_all add: TmpFsDir_new_def dir_node_def Ownership_new_def\<close>)

lemma dir_create_char_dev_spec:
  assumes "tree_ok s" "nodes s n \<noteq> None" "mode_ok mode"
  shows "\<exists>r t. create n name (\<lambda>d. TmpFsCharDev_new (d_fs d) major minor mode uid gid) ECharDev s = (r, t) \<and>
    creates n name ECharDev KCharDev s r t"
  by (rule creates_spec [where x = "\<lambda>d. TmpFsCharDev \<lparr>c_fs = d_fs d, c_major = major, c_minor = minor,
      c_ownership = Ownership_new mode uid gid\<rparr>"])
    (use assms in \<open>simp_all add: TmpFsCharDev_new_def Ownership_new_def\<close>)

lemma dir_create_fifo_spec:
  assumes "tree_ok s" "nodes s n \<noteq> None" "mode_ok mode"
  shows "\<exists>r t. create n name (\<lambda>d. TmpFsFifo_new (d_fs d) mode uid gid) EFifo s = (r, t) \<and>
    creates n name EFifo KFifo s r t"
  by (rule creates_spec [where x = "\<lambda>d. TmpFsFifo \<lparr>p_fs = d_fs d, p_ownership = Ownership_new mode uid gid\<rparr>"])
    (use assms in \<open>simp_all add: TmpFsFifo_new_def Ownership_new_def\<close>)

lemma as_dir_cases:
  assumes "nodes s n \<noteq> None"
  obtains (dir) d where "nodes s n = Some (TmpFsDir d)" "as_dir n s = Ok d" "\<And>name. bt_get name (d_items d) = ent s (n, name)"
  | (other) "as_dir n s = Err NotDir"
proof (cases "\<exists>d. nodes s n = Some (TmpFsDir d)")
  case True
  then obtain d where "nodes s n = Some (TmpFsDir d)" by blast
  then show ?thesis using dir as_dir_Ok ent_dir by metis
next
  case False
  obtain y where "nodes s n = Some y" using assms by auto
  then show ?thesis using other False tree_not_dir [of s n y] by blast
qed

lemma dir_create_link_spec:
  assumes ok: "tree_ok s" and n: "nodes s n \<noteq> None"
  shows "\<exists>r t. dir_create_link n name target uid gid create_new s = (r, t) \<and>
    (case r of
       Ok m \<Rightarrow> \<exists>dev loc. kd s n = Some (KDir dev loc) \<and> m = ino_counter s \<and> (create_new \<longrightarrow> ent s (n, name) = None) \<and>
         entered n name (ESymlink m) (KSymlink dev target) s t
     | Err _ \<Rightarrow> t = s
     | Panic \<Rightarrow> False)"
proof (cases rule: as_dir_cases [OF n, case_names dir other])
  case (dir d)
  let ?x = "symlink_node (d_fs d) target uid gid (clock s)" and ?c = "ino_counter s"
  have "node_ok ?x" "node_items ?x = []" "kind_of ?x = KSymlink (d_fs d) target"
    by (simp_all add: symlink_node_def mode_ok_ALL)
  then obtain t1 t where t: "new_node ?x s = (?c, t1)" "insert_entry n name (ESymlink ?c) t1 = (Ok (), t)"
    "entered n name (ESymlink ?c) (KSymlink (d_fs d) target) s t"
    using enter_spec [OF ok dir(1), of ?x "ESymlink ?c" name] by auto
  moreover have "kd s n = Some (KDir (d_fs d) (d_location d))" using dir(1) by (simp add: kd_def)
  ultimately show ?thesis using dir(2,3)
    by (cases "ent s (n, name) = None \<or> \<not> create_new")
      (auto simp: dir_create_link_def sbind_def TmpFsSymlink_new_def)
qed (simp add: dir_create_link_def sbind_def)

text \<open>Mounting a fresh instance.\<close>

definition mount_new :: "nid \<Rightarrow> file_name \<Rightarrow> u64 \<Rightarrow> u32 \<Rightarrow> u32 \<Rightarrow> (fs, unit) stateful" where
  "mount_new n name mode uid gid s =
     (case new_dev s of (dev, s1) \<Rightarrow>
      case TmpFsDir_new dev (LMount n name) mode uid gid s1 of (m, s2) \<Rightarrow> dir_mount n name m s2)"

lemma mount_new_spec:
  assumes ok: "tree_ok s" and n: "nodes s n = Some (TmpFsDir d)" and mode: "mode_ok mode"
  shows "\<exists>t dev. mount_new n name mode uid gid s = (Ok (), t) \<and>
    entered n name (EMount (ino_counter s)) (KDir dev (LMount n name)) s t"
proof -
  let ?s = "snd (new_dev s)" and ?x = "dir_node (dev_counter s) (LMount n name) mode uid gid (clock s)" and ?c = "ino_counter s"
  have k: "kd ?s = kd s" "ent ?s = ent s" "nodes ?s = nodes s" "ino_counter ?s = ino_counter s" "clock ?s = clock s"
    by (auto simp: new_dev_def kd_def ent_def fun_eq_iff)
  have ok': "tree_ok ?s" using ok by (simp add: tree_ok_def k nodes_ok_def)
  have "node_ok ?x" "node_items ?x = []" "kind_of ?x = KDir (dev_counter s) (LMount n name)"
    using mode by (simp_all add: dir_node_def Ownership_new_def)
  then obtain t1 t where t: "new_node ?x ?s = (?c, t1)" "insert_entry n name (EMount ?c) t1 = (Ok (), t)"
    "entered n name (EMount ?c) (KDir (dev_counter s) (LMount n name)) ?s t"
    using enter_spec [OF ok', of n d ?x "EMount ?c" name] n k by auto
  then show ?thesis using k
    by (auto simp: mount_new_def TmpFsDir_new_def dir_mount_def entered_def new_dev_def)
qed

fun node_type :: "node \<Rightarrow> file_type" where
  "node_type (TmpFsDir _) = Dir"
| "node_type (TmpFsFile _) = File"
| "node_type (TmpFsSymlink _) = Link"
| "node_type (TmpFsCharDev _) = Char_Dev"
| "node_type (TmpFsFifo _) = Fifo"

lemma node_mode_ok: "node_ok x \<Longrightarrow> FileMode_from_bits_truncate (node_mode x) = node_mode x"
  using mode_ok_ALL by (cases x) (simp_all add: mode_ok_def)

lemma ty_of_Ok:
  assumes "tree_ok s" "nodes s n = Some x"
  shows "ty_of n s = Ok (node_type x)"
proof -
  have "node_ok x" using assms by (auto simp: tree_ok_def dest: nodes_okD)
  from node_mode_ok [OF this] show ?thesis using assms(2)
    by (cases x) (simp_all add: ty_of_def stat_of_def deref_def make_stat_def FileTypeAndMode_ty_new)
qed

lemma node_type_Dir: "node_type x = Dir \<longleftrightarrow> (\<exists>d. x = TmpFsDir d)"
  by (cases x) simp_all

lemma ent_alive:
  assumes "tree_ok s" "ent s (n, name) = Some e"
  shows "nodes s (entry_node e) \<noteq> None"
proof -
  obtain dev where "fits (kd s) dev e" using shape_okD(3) [OF tree_okD(2) [OF assms(1)] assms(2)] by blast
  from fits_alive [OF this] show ?thesis by simp
qed

text \<open>Deleting removes an entry of the right kind or changes nothing.\<close>

lemma delete_non_dir_spec:
  assumes ok: "tree_ok s" and n: "nodes s n \<noteq> None"
  shows "\<exists>r t. delete_non_dir n name s = (r, t) \<and>
    (case r of
       Ok _ \<Rightarrow> removed n name s t \<and> (\<exists>e. ent s (n, name) = Some e \<and> (\<forall>d. nodes s (entry_node e) \<noteq> Some (TmpFsDir d)))
     | Err _ \<Rightarrow> t = s
     | Panic \<Rightarrow> False)"
proof (cases rule: as_dir_cases [OF n, case_names dir other])
  case (dir d)
  show ?thesis
  proof (cases "ent s (n, name)")
    case None
    then show ?thesis using dir by (simp add: delete_non_dir_def sbind_def)
  next
    case (Some e)
    then obtain x where x: "nodes s (entry_node e) = Some x" using ent_alive [OF ok] by blast
    note ty = ty_of_Ok [OF ok x] node_type_Dir [of x]
    obtain t where "sbind (remove_entry n name) (\<lambda>_. drop_entry e) s = (Ok (), t)" "removed n name s t"
      using remove_spec [OF ok Some] by blast
    then show ?thesis using dir(2,3) Some ty x by (cases "node_type x = Dir") (auto simp: delete_non_dir_def sbind_eqs)
  qed
qed (simp add: delete_non_dir_def sbind_def)

lemma delete_dir_spec:
  assumes ok: "tree_ok s" and n: "nodes s n \<noteq> None"
  shows "\<exists>r t. delete_dir n name s = (r, t) \<and>
    (case r of
       Ok _ \<Rightarrow> removed n name s t \<and> (\<exists>e. ent s (n, name) = Some e \<and> (\<forall>nm. ent s (entry_node e, nm) = None))
     | Err _ \<Rightarrow> t = s
     | Panic \<Rightarrow> False)"
proof (cases rule: as_dir_cases [OF n, case_names dir other])
  case (dir d)
  show ?thesis
  proof (cases "ent s (n, name)")
    case None
    then show ?thesis using dir by (simp add: delete_dir_def sbind_def)
  next
    case (Some e)
    then obtain x where x: "nodes s (entry_node e) = Some x" using ent_alive [OF ok] by blast
    note ty = ty_of_Ok [OF ok x] node_type_Dir [of x]
    obtain t where t: "sbind (remove_entry n name) (\<lambda>_. drop_entry e) s = (Ok (), t)" "removed n name s t"
      using remove_spec [OF ok Some] by blast
    have "ent s (entry_node e, nm) = None" if "is_empty (entry_node e) s" for nm
      using that x by (auto simp: is_empty_def ent_def split: node.splits)
    then show ?thesis using dir(2,3) Some ty x t
      by (cases "node_type x = Dir"; cases "is_empty (entry_node e) s") (auto simp: delete_dir_def sbind_eqs)
  qed
qed (simp add: delete_dir_def sbind_def)

text \<open>Operations on files change neither the tree nor the links.\<close>

lemma with_file_touched:
  assumes ok: "tree_ok s" and w: "with_file n touch g (h, s) = (r, (h', t))"
    and touch: "\<And>c f. f_fs (touch c f) = f_fs f \<and> f_links (touch c f) = f_links f \<and> f_ownership (touch c f) = f_ownership f"
  shows "touched s t"
proof -
  have nok: "nodes_ok s" using ok by (simp add: tree_ok_def)
  show ?thesis
  proof (cases "\<exists>f. nodes s n = Some (TmpFsFile f)")
    case True
    then obtain f where f: "nodes s n = Some (TmpFsFile f)" by blast
    then obtain b where "t = set_node n (TmpFsFile ((touch (clock s) f)\<lparr>f_buffer := b\<rparr>)) s"
      using w by (auto simp: with_file_def Let_def split: prod.splits)
    then show ?thesis using touched_set_node [OF nok f, of "TmpFsFile ((touch (clock s) f)\<lparr>f_buffer := b\<rparr>)"] touch
      nodes_okD [OF nok f] by simp
  next
    case False
    then have "t = s" using w by (auto simp: with_file_def split: option.splits node.splits)
    then show ?thesis using touched_refl [OF ok] by simp
  qed
qed

end
