(* ===== verification/Lookup.thy ===== *)
theory Lookup
  imports Tree_Ops
begin

text \<open>
  Finding nodes by path and the operations on paths, \<^verbatim>\<open>tee/kernel/src/fs/node.rs\<close>. The
  access context is passed along and returned, because following a symbolic link uses up one
  of the links the context allows. The lookups only read the file system.
\<close>

section \<open>Lookups\<close>

lemma rbind_cong [fundef_cong]:
  "m = m' \<Longrightarrow> (\<And>x. m' = Ok x \<Longrightarrow> f x = g x) \<Longrightarrow> rbind m f = rbind m' g"
  by (cases m') auto

text \<open>
  A context that comes back from a lookup never allows more links than the one that went in
  (shown below); the recursions test this, so that they visibly end.
\<close>

definition within :: "file_access_context \<Rightarrow> file_access_context \<Rightarrow> 'a result \<Rightarrow> 'a result" where
  "within ctx ctx' k = (if symlink_recursion_limit ctx' \<le> symlink_recursion_limit ctx then k else Panic)"

lemma within_cong [fundef_cong]:
  "ctx = c \<Longrightarrow> ctx' = c' \<Longrightarrow> (symlink_recursion_limit c' \<le> symlink_recursion_limit c \<Longrightarrow> k = k') \<Longrightarrow>
   within ctx ctx' k = within c c' k'"
  by (simp add: within_def)

lemma follow_symlink_less:
  "follow_symlink ctx = Ok ctx' \<Longrightarrow> unat (symlink_recursion_limit ctx') < unat (symlink_recursion_limit ctx)"
  by (auto simp: follow_symlink_def unat_minus_one unat_gt_0 split: if_splits)

text \<open>The directory must be one that may be searched.\<close>

definition check_dir :: "nid \<Rightarrow> fs \<Rightarrow> file_access_context \<Rightarrow> bool \<Rightarrow> unit result" where
  "check_dir n s ctx search =
     rbind (stat_of n s) (\<lambda>st. rbind (FileTypeAndMode_ty (st_mode st)) (\<lambda>ty.
       ensure (ty = Dir) NotDir (if search then check_permissions ctx st Execute else Ok ())))"

text \<open>What a segment does once links are resolved: the new parent and node.\<close>

definition lookup_segment :: "fs \<Rightarrow> path_segment \<Rightarrow> nid \<Rightarrow> nid \<Rightarrow> file_access_context \<Rightarrow> (nid \<times> nid) result" where
  "lookup_segment s seg dir n ctx =
     rbind (if seg = Root then Ok () else check_dir n s ctx (seg \<noteq> Dot)) (\<lambda>_.
       case seg of
         Root \<Rightarrow> Ok (ROOT_NODE, ROOT_NODE)
       | Empty \<Rightarrow> Ok (dir, n)
       | Dot \<Rightarrow> Ok (dir, n)
       | DotDot \<Rightarrow> rmap (\<lambda>p. (p, p)) (parent n s)
       | FileName name \<Rightarrow> rmap (\<lambda>m. (n, m)) (get_node n name s))"

function resolve_links :: "fs \<Rightarrow> nid \<Rightarrow> nid \<Rightarrow> file_access_context \<Rightarrow> (nid \<times> file_access_context) result"
  and lookup_segments :: "fs \<Rightarrow> path_segment list \<Rightarrow> nid \<times> nid \<Rightarrow> file_access_context
    \<Rightarrow> ((nid \<times> nid) \<times> file_access_context) result" where
  "resolve_links s n start_dir ctx =
     rbind (deref n s) (\<lambda>x. case x of
       TmpFsSymlink l \<Rightarrow>
         rbind (follow_symlink ctx) (\<lambda>ctx1.
         rbind (segments (s_target l)) (\<lambda>segs.
         rbind (lookup_segments s segs (start_dir, start_dir) ctx1) (\<lambda>((dir, n'), ctx2).
           within ctx1 ctx2 (resolve_links s n' dir ctx2))))
     | _ \<Rightarrow> Ok (n, ctx))"
| "lookup_segments s [] dn ctx = Ok (dn, ctx)"
| "lookup_segments s (seg # segs) dn ctx =
     rbind (resolve_links s (snd dn) (fst dn) ctx) (\<lambda>(n, ctx').
     rbind (lookup_segment s seg (fst dn) n ctx') (\<lambda>dn'.
       within ctx ctx' (lookup_segments s segs dn' ctx')))"
  by pat_completeness auto
termination
proof (relation "measures [\<lambda>x. case x of Inl (s, n, d, c) \<Rightarrow> unat (symlink_recursion_limit c)
      | Inr (s, segs, dn, c) \<Rightarrow> unat (symlink_recursion_limit c),
    \<lambda>x. case x of Inl _ \<Rightarrow> 0 | Inr (s, segs, dn, c) \<Rightarrow> Suc (length segs)]", goal_cases)
  case 1
  show ?case by simp
qed (auto simp: word_le_nat_alt dest: follow_symlink_less)

definition lookup_node_with_parent ::
  "fs \<Rightarrow> nid \<Rightarrow> path \<Rightarrow> file_access_context \<Rightarrow> ((nid \<times> nid) \<times> file_access_context) result" where
  "lookup_node_with_parent s start_dir path ctx =
     rbind (segments path) (\<lambda>segs. lookup_segments s segs (start_dir, start_dir) ctx)"

definition lookup_node :: "fs \<Rightarrow> nid \<Rightarrow> path \<Rightarrow> file_access_context \<Rightarrow> (nid \<times> file_access_context) result" where
  "lookup_node s start_dir path ctx =
     rmap (\<lambda>((_, n), ctx'). (n, ctx')) (lookup_node_with_parent s start_dir path ctx)"

definition lookup_and_resolve_node :: "fs \<Rightarrow> nid \<Rightarrow> path \<Rightarrow> file_access_context \<Rightarrow> (nid \<times> file_access_context) result" where
  "lookup_and_resolve_node s start_dir path ctx =
     rbind (lookup_node_with_parent s start_dir path ctx) (\<lambda>((dir, n), ctx'). resolve_links s n dir ctx')"

text \<open>The parent of the last component of a path, that component, and whether slashes follow.\<close>

fun find_parent_loop ::
  "fs \<Rightarrow> path_segment list \<Rightarrow> nid \<Rightarrow> path_segment \<Rightarrow> bool \<Rightarrow> file_access_context
   \<Rightarrow> ((nid \<times> path_segment \<times> bool) \<times> file_access_context) result" where
  "find_parent_loop s [] dir seg trailing ctx = Ok ((dir, seg, trailing), ctx)"
| "find_parent_loop s (next_seg # segs) dir seg trailing ctx =
     (if next_seg = Empty then find_parent_loop s segs dir seg True ctx
      else
        rbind (case seg of
            Root \<Rightarrow> Ok (ROOT_NODE, ctx)
          | Empty \<Rightarrow> Ok (dir, ctx)
          | Dot \<Rightarrow> Ok (dir, ctx)
          | DotDot \<Rightarrow> rmap (\<lambda>p. (p, ctx)) (parent dir s)
          | FileName name \<Rightarrow> rbind (get_node dir name s) (\<lambda>n. resolve_links s n dir ctx)) (\<lambda>(dir', ctx').
        rbind (check_dir dir' s ctx' True) (\<lambda>_.
          find_parent_loop s segs dir' next_seg False ctx')))"

definition find_parent ::
  "fs \<Rightarrow> nid \<Rightarrow> path \<Rightarrow> file_access_context \<Rightarrow> ((nid \<times> path_segment \<times> bool) \<times> file_access_context) result" where
  "find_parent s start_dir path ctx =
     rbind (segments path) (\<lambda>segs. case segs of
         [] \<Rightarrow> Err Inval
       | first # segs' \<Rightarrow>
           rbind (find_parent_loop s segs' start_dir first False ctx) (\<lambda>((dir, seg, trailing), ctx').
           rbind (check_dir dir s ctx' True) (\<lambda>_. Ok ((dir, seg, trailing), ctx'))))"

section \<open>Operations on paths\<close>


definition check_open :: "file_access_context \<Rightarrow> stat \<Rightarrow> u64 \<Rightarrow> unit result" where
  "check_open ctx st flags =
     (if contains flags OpenFlags_WRONLY then check_permissions ctx st Write
      else if contains flags OpenFlags_RDWR then
        rbind (check_permissions ctx st Read) (\<lambda>_. check_permissions ctx st Write)
      else check_permissions ctx st Read)"

text \<open>The node is there already: it is opened, or its link is followed.\<close>

definition open_existing ::
  "nid \<Rightarrow> nid \<Rightarrow> u64 \<Rightarrow> file_access_context \<Rightarrow> fs \<Rightarrow> (nid + (nid \<times> path \<times> file_access_context)) result" where
  "open_existing m dir flags ctx s =
     rbind (stat_of m s) (\<lambda>st. rbind (FileTypeAndMode_ty (st_mode st)) (\<lambda>ty.
       if ty = Link then
         ensure (\<not> contains flags OpenFlags_EXCL) Exist
           (ensure (\<not> contains flags OpenFlags_NOFOLLOW) Loop
             (rbind (deref m s) (\<lambda>n. case n of
                TmpFsSymlink l \<Rightarrow> rbind (follow_symlink ctx) (\<lambda>ctx2. Ok (Inr (dir, s_target l, ctx2)))
              | _ \<Rightarrow> Err Inval)))
       else
         ensure (ty \<noteq> Dir) Exist
           (ensure (\<not> contains flags OpenFlags_EXCL) Exist
             (rbind (check_open ctx st flags) (\<lambda>_. Ok (Inl m))))))"

text \<open>One round of the loop of \<^verbatim>\<open>create_file\<close>: the file, or where to start over.\<close>

definition create_file_round ::
  "nid \<Rightarrow> path \<Rightarrow> u64 \<Rightarrow> u64 \<Rightarrow> file_access_context \<Rightarrow> (fs, nid + (nid \<times> path \<times> file_access_context)) stateful" where
  "create_file_round start_dir path mode flags ctx =
     sbind (\<lambda>s. (find_parent s start_dir path ctx, s)) (\<lambda>((dir, seg, trailing), ctx').
       case seg of
         FileName name \<Rightarrow>
           sbind (slift (ensure (\<not> trailing) IsDir (Ok ()))) (\<lambda>_.
           sbind (dir_create_file dir name mode (filesystem_user_id ctx') (filesystem_group_id ctx')) (\<lambda>x.
             case x of
               Inr m \<Rightarrow> sret (Inl m)
             | Inl m \<Rightarrow> (\<lambda>s. (open_existing m dir flags ctx' s, s))))
       | _ \<Rightarrow> slift (Err IsDir))"

text \<open>The loop: every further round has followed a link.\<close>

function create_file ::
  "nid \<Rightarrow> path \<Rightarrow> u64 \<Rightarrow> u64 \<Rightarrow> file_access_context \<Rightarrow> (fs, nid) stateful" where
  "create_file start_dir path mode flags ctx s =
     (case create_file_round start_dir path mode flags ctx s of
        (Ok (Inl m), t) \<Rightarrow> (Ok m, t)
      | (Ok (Inr (dir, target, ctx')), t) \<Rightarrow>
          if symlink_recursion_limit ctx' < symlink_recursion_limit ctx
          then create_file dir target mode flags ctx' t else (Panic, t)
      | (Err e, t) \<Rightarrow> (Err e, t)
      | (Panic, t) \<Rightarrow> (Panic, t))"
  by pat_completeness auto
termination
  by (relation "measure (\<lambda>(d, p, m, f, ctx, s). unat (symlink_recursion_limit ctx))") (auto simp: word_less_nat_alt)

text \<open>The other creating operations: \<open>otherwise\<close> is the error for a path that does not end in a name.\<close>

definition at_parent ::
  "nid \<Rightarrow> path \<Rightarrow> file_access_context \<Rightarrow> (path_segment \<Rightarrow> error_kind option)
   \<Rightarrow> (nid \<Rightarrow> file_name \<Rightarrow> bool \<Rightarrow> file_access_context \<Rightarrow> (fs, 'a) stateful) \<Rightarrow> (fs, 'a) stateful" where
  "at_parent start_dir path ctx otherwise act =
     sbind (\<lambda>s. (find_parent s start_dir path ctx, s)) (\<lambda>((dir, seg, trailing), ctx').
       case seg of
         FileName name \<Rightarrow> act dir name trailing ctx'
       | _ \<Rightarrow> slift (case otherwise seg of Some e \<Rightarrow> Err e | None \<Rightarrow> Panic))"

definition create_directory :: "nid \<Rightarrow> path \<Rightarrow> u64 \<Rightarrow> file_access_context \<Rightarrow> (fs, nid) stateful" where
  "create_directory start_dir path mode ctx =
     at_parent start_dir path ctx (\<lambda>_. Some Exist) (\<lambda>dir name _ ctx'.
       dir_create_dir dir name mode (filesystem_user_id ctx') (filesystem_group_id ctx'))"

definition create_link :: "nid \<Rightarrow> path \<Rightarrow> path \<Rightarrow> file_access_context \<Rightarrow> (fs, unit) stateful" where
  "create_link start_dir path target ctx =
     at_parent start_dir path ctx (\<lambda>_. Some Exist) (\<lambda>dir name trailing ctx'.
       if trailing then sbind (\<lambda>s. (get_node dir name s, s)) (\<lambda>_. slift (Err Exist))
       else sbind (dir_create_link dir name target (filesystem_user_id ctx') (filesystem_group_id ctx') True)
         (\<lambda>_. sret ()))"

definition read_link :: "fs \<Rightarrow> nid \<Rightarrow> path \<Rightarrow> file_access_context \<Rightarrow> path result" where
  "read_link s start_dir path ctx =
     rbind (lookup_node s start_dir path ctx) (\<lambda>(n, _).
     rbind (deref n s) (\<lambda>x. case x of TmpFsSymlink l \<Rightarrow> Ok (s_target l) | _ \<Rightarrow> Err Inval))"

definition create_fifo :: "nid \<Rightarrow> path \<Rightarrow> u64 \<Rightarrow> file_access_context \<Rightarrow> (fs, unit) stateful" where
  "create_fifo start_dir path mode ctx =
     at_parent start_dir path ctx (\<lambda>_. Some Exist) (\<lambda>dir name _ ctx'.
       dir_create_fifo dir name mode (filesystem_user_id ctx') (filesystem_group_id ctx'))"

definition create_char_dev :: "nid \<Rightarrow> path \<Rightarrow> u16 \<Rightarrow> u8 \<Rightarrow> u64 \<Rightarrow> file_access_context \<Rightarrow> (fs, unit) stateful" where
  "create_char_dev start_dir path major minor mode ctx =
     at_parent start_dir path ctx (\<lambda>_. Some Exist) (\<lambda>dir name _ ctx'.
       sbind (dir_create_char_dev dir name major minor mode (filesystem_user_id ctx') (filesystem_group_id ctx'))
         (\<lambda>_. sret ()))"

text \<open>\<open>create_node\<close> makes the root of the file system to be mounted, given its location.\<close>

definition mount :: "path \<Rightarrow> (location \<Rightarrow> (fs, nid) stateful) \<Rightarrow> file_access_context \<Rightarrow> (fs, unit) stateful" where
  "mount path create_node ctx =
     at_parent ROOT_NODE path ctx (\<lambda>_. None) (\<lambda>dir name _ ctx'.
       sbind (create_node (LMount dir name)) (\<lambda>m. dir_mount dir name m))"

definition check_writable :: "nid \<Rightarrow> file_access_context \<Rightarrow> (fs, unit) stateful" where
  "check_writable n ctx s = (rbind (stat_of n s) (\<lambda>st. check_permissions ctx st Write), s)"

definition unlink_file :: "nid \<Rightarrow> path \<Rightarrow> file_access_context \<Rightarrow> (fs, unit) stateful" where
  "unlink_file start_dir path ctx =
     at_parent start_dir path ctx (\<lambda>_. Some IsDir) (\<lambda>dir name trailing ctx'.
       sbind (slift (ensure (\<not> trailing) IsDir (Ok ()))) (\<lambda>_.
       sbind (check_writable dir ctx') (\<lambda>_. delete_non_dir dir name)))"

definition unlink_dir :: "nid \<Rightarrow> path \<Rightarrow> file_access_context \<Rightarrow> (fs, unit) stateful" where
  "unlink_dir start_dir path ctx =
     at_parent start_dir path ctx
       (\<lambda>seg. case seg of Root \<Rightarrow> Some NotEmpty | Dot \<Rightarrow> Some Inval | DotDot \<Rightarrow> Some NotEmpty | _ \<Rightarrow> None)
       (\<lambda>dir name _ ctx'. sbind (check_writable dir ctx') (\<lambda>_. delete_dir dir name))"

text \<open>One round of the loop of \<^verbatim>\<open>hard_link\<close>: \<open>None\<close> when it is done.\<close>

definition hard_link_round ::
  "nid \<Rightarrow> file_name \<Rightarrow> nid \<Rightarrow> path \<Rightarrow> bool \<Rightarrow> file_access_context
   \<Rightarrow> (fs, (nid \<times> path \<times> file_access_context) option) stateful" where
  "hard_link_round new_parent new_name target_dir target_path follow ctx =
     sbind (\<lambda>s. (find_parent s target_dir target_path ctx, s)) (\<lambda>((old_parent, seg, trailing), ctx').
     sbind (slift (ensure (\<not> trailing) Perm (Ok ()))) (\<lambda>_.
       case seg of
         FileName old_name \<Rightarrow>
           sbind (dir_hard_link old_parent old_name follow new_parent new_name) (\<lambda>x.
             case x of
               Some target \<Rightarrow> sbind (slift (follow_symlink ctx')) (\<lambda>ctx2. sret (Some (old_parent, target, ctx2)))
             | None \<Rightarrow> sret None)
       | _ \<Rightarrow> slift (Err Perm)))"

function hard_link_loop ::
  "nid \<Rightarrow> file_name \<Rightarrow> nid \<Rightarrow> path \<Rightarrow> bool \<Rightarrow> file_access_context \<Rightarrow> (fs, unit) stateful" where
  "hard_link_loop new_parent new_name target_dir target_path follow ctx s =
     (case hard_link_round new_parent new_name target_dir target_path follow ctx s of
        (Ok None, t) \<Rightarrow> (Ok (), t)
      | (Ok (Some (dir, target, ctx')), t) \<Rightarrow>
          if symlink_recursion_limit ctx' < symlink_recursion_limit ctx
          then hard_link_loop new_parent new_name dir target follow ctx' t else (Panic, t)
      | (Err e, t) \<Rightarrow> (Err e, t)
      | (Panic, t) \<Rightarrow> (Panic, t))"
  by pat_completeness auto
termination
  by (relation "measure (\<lambda>(np, nn, d, p, f, ctx, s). unat (symlink_recursion_limit ctx))") (auto simp: word_less_nat_alt)

definition hard_link ::
  "nid \<Rightarrow> path \<Rightarrow> nid \<Rightarrow> path \<Rightarrow> bool \<Rightarrow> file_access_context \<Rightarrow> (fs, unit) stateful" where
  "hard_link start_dir start_path target_dir target_path follow ctx =
     at_parent start_dir start_path ctx (\<lambda>_. Some Exist) (\<lambda>new_parent new_name _ ctx'.
       sbind (check_writable new_parent ctx') (\<lambda>_.
         hard_link_loop new_parent new_name target_dir target_path follow ctx'))"

text \<open>Both ends of a rename or an exchange; \<open>at_new\<close> is the error for a new path without a name.\<close>

definition rename_ends ::
  "nid \<Rightarrow> path \<Rightarrow> nid \<Rightarrow> path \<Rightarrow> error_kind \<Rightarrow> file_access_context
   \<Rightarrow> fs \<Rightarrow> ((nid \<times> file_name) \<times> (nid \<times> file_name)) result" where
  "rename_ends oldd old_path newd new_path at_new ctx s =
     rbind (find_parent s oldd old_path ctx) (\<lambda>((old_parent, seg, _), ctx1).
     rbind (case seg of
         FileName name \<Rightarrow> Ok name
       | Root \<Rightarrow> Err IsDir | Empty \<Rightarrow> Err IsDir | Dot \<Rightarrow> Err Busy | DotDot \<Rightarrow> Err Busy) (\<lambda>old_name.
     rbind (find_parent s newd new_path ctx1) (\<lambda>((new_parent, seg, _), ctx2).
     rbind (case seg of FileName name \<Rightarrow> Ok name | _ \<Rightarrow> Err at_new) (\<lambda>new_name.
     rbind (stat_of old_parent s) (\<lambda>st. rbind (check_permissions ctx2 st Write) (\<lambda>_.
     rbind (stat_of new_parent s) (\<lambda>st. rbind (check_permissions ctx2 st Write) (\<lambda>_.
       Ok ((old_parent, old_name), (new_parent, new_name))))))))))"

definition rename ::
  "nid \<Rightarrow> path \<Rightarrow> nid \<Rightarrow> path \<Rightarrow> bool \<Rightarrow> file_access_context \<Rightarrow> fs \<Rightarrow> (unit result \<times> fs) option" where
  "rename oldd old_path newd new_path no_replace ctx s =
     (case rename_ends oldd old_path newd new_path Exist ctx s of
        Ok ((n, oldname), (n', newname)) \<Rightarrow>
          dir_rename n oldname (has_trailing_slash old_path \<or> has_trailing_slash new_path) n' newname no_replace s
      | Err e \<Rightarrow> Some (Err e, s)
      | Panic \<Rightarrow> Some (Panic, s))"

definition exchange ::
  "nid \<Rightarrow> path \<Rightarrow> nid \<Rightarrow> path \<Rightarrow> file_access_context \<Rightarrow> fs \<Rightarrow> (unit result \<times> fs) option" where
  "exchange oldd old_path newd new_path ctx s =
     (case rename_ends oldd old_path newd new_path IsDir ctx s of
        Ok ((n, oldname), (n', newname)) \<Rightarrow> dir_exchange n oldname n' newname s
      | Err e \<Rightarrow> Some (Err e, s)
      | Panic \<Rightarrow> Some (Panic, s))"

end
