(* ===== verification/Lookup_Safety.thy ===== *)
theory Lookup_Safety
  imports Lookup
begin

text \<open>
  Lookups come to an end, hit no panic and return nodes that are alive; they are what an
  iterative lookup does that puts the segments of a link's target in front of the rest; and
  the path of a directory leads back to it.
\<close>

section \<open>The context\<close>

definition same_user :: "file_access_context \<Rightarrow> file_access_context \<Rightarrow> bool" where
  "same_user ctx ctx' \<longleftrightarrow> filesystem_user_id ctx' = filesystem_user_id ctx \<and>
     filesystem_group_id ctx' = filesystem_group_id ctx \<and> supplementary_group_ids ctx' = supplementary_group_ids ctx \<and>
     symlink_recursion_limit ctx' \<le> symlink_recursion_limit ctx"

lemma same_user_refl [simp]: "same_user ctx ctx"
  by (simp add: same_user_def)

lemma same_user_trans: "same_user a b \<Longrightarrow> same_user b c \<Longrightarrow> same_user a c"
  unfolding same_user_def by auto

lemma follow_symlink_user: "follow_symlink ctx = Ok ctx' \<Longrightarrow> same_user ctx ctx'"
  using follow_symlink_less [of ctx ctx'] by (auto simp: follow_symlink_def same_user_def word_le_nat_alt split: if_splits)

lemma within_user: "same_user ctx ctx' \<Longrightarrow> within ctx ctx' k = k"
  by (simp add: within_def same_user_def)

declare resolve_links.simps [simp del] lookup_segments.simps(2) [simp del]

lemma lookup_user:
  "resolve_links s n d ctx = Ok (m, ctx') \<Longrightarrow> same_user ctx ctx'"
  "lookup_segments s segs dn ctx = Ok (dn', ctx') \<Longrightarrow> same_user ctx ctx'"
proof (induction s n d ctx and s segs dn ctx arbitrary: m ctx' and dn' ctx' rule: resolve_links_lookup_segments.induct)
  case (1 s n start_dir ctx)
  from "1.prems" obtain x where x: "deref n s = Ok x" by (auto simp: resolve_links.simps [of s n] result_simps)
  show ?case
  proof (cases "\<exists>l. x = TmpFsSymlink l")
    case True
    then obtain l where l: "x = TmpFsSymlink l" by blast
    with x "1.prems" obtain ctx1 segs d' n' ctx2 where *: "follow_symlink ctx = Ok ctx1" "segments (s_target l) = Ok segs"
      "lookup_segments s segs (start_dir, start_dir) ctx1 = Ok ((d', n'), ctx2)" "within ctx1 ctx2 (resolve_links s n' d' ctx2) = Ok (m, ctx')"
      by (auto simp: resolve_links.simps [of s n] result_simps)
    have a: "same_user ctx1 ctx2" by (rule "1.IH"(1) [OF x l *(1,2,3)])
    have "same_user ctx2 ctx'"
      by (rule "1.IH"(2) [OF x l *(1,2,3) refl refl]) (use * in \<open>auto simp: within_def split: if_splits\<close>)
    with a follow_symlink_user [OF *(1)] show ?thesis using same_user_trans by blast
  next
    case False
    then have "ctx' = ctx" using "1.prems" x by (cases x) (auto simp: resolve_links.simps [of s n])
    then show ?thesis by simp
  qed
next
  case (3 s seg segs dn ctx)
  then obtain n ctx1 dn1 where *: "resolve_links s (snd dn) (fst dn) ctx = Ok (n, ctx1)" "lookup_segment s seg (fst dn) n ctx1 = Ok dn1"
    "within ctx ctx1 (lookup_segments s segs dn1 ctx1) = Ok (dn', ctx')"
    by (auto simp: lookup_segments.simps result_simps)
  have a: "same_user ctx ctx1" by (rule "3.IH"(1) [OF *(1)])
  have "same_user ctx1 ctx'"
    by (rule "3.IH"(2) [OF *(1) refl *(2)]) (use * in \<open>auto simp: within_def split: if_splits\<close>)
  with a show ?case using same_user_trans by blast
qed simp

text \<open>The equations of the source, without the tests.\<close>

lemma resolve_links_eq:
  "resolve_links s n start_dir ctx =
     rbind (deref n s) (\<lambda>x. case x of
       TmpFsSymlink l \<Rightarrow>
         rbind (follow_symlink ctx) (\<lambda>ctx1.
         rbind (lookup_node_with_parent s start_dir (s_target l) ctx1) (\<lambda>((dir, n'), ctx2). resolve_links s n' dir ctx2))
     | _ \<Rightarrow> Ok (n, ctx))"
proof (cases "deref n s")
  case (Ok x)
  show ?thesis
  proof (cases x)
    case (TmpFsSymlink l)
    show ?thesis
    proof (cases "follow_symlink ctx")
      case (Ok ctx1)
      let ?L = "lookup_segments s (segments_spec (s_target l)) (start_dir, start_dir) ctx1"
      have "same_user ctx1 ctx2" if "?L = Ok (dn, ctx2)" for dn ctx2 using lookup_user(2) [OF that] .
      then show ?thesis using \<open>deref n s = Ok x\<close> TmpFsSymlink Ok
        by (cases ?L) (auto simp: resolve_links.simps [of s n] lookup_node_with_parent_def segments_eq_spec within_user)
    qed (use Ok TmpFsSymlink in \<open>simp_all add: resolve_links.simps [of s n]\<close>)
  qed (use Ok in \<open>simp_all add: resolve_links.simps [of s n]\<close>)
qed (simp_all add: resolve_links.simps [of s n])

lemma lookup_segments_Cons:
  "lookup_segments s (seg # segs) (d, n) ctx =
     rbind (resolve_links s n d ctx) (\<lambda>(n', ctx'). rbind (lookup_segment s seg d n' ctx') (\<lambda>dn'. lookup_segments s segs dn' ctx'))"
proof (cases "resolve_links s n d ctx")
  case (Ok x)
  obtain n' ctx' where x: "x = (n', ctx')" by (cases x)
  from lookup_user(1) [OF Ok [unfolded x]] show ?thesis
    by (simp add: lookup_segments.simps Ok x within_user)
qed (simp_all add: lookup_segments.simps)

section \<open>The iterative lookup\<close>

text \<open>A link is followed by putting the segments of its target in front.\<close>

definition is_link :: "fs \<Rightarrow> nid \<Rightarrow> bool" where
  "is_link s n \<longleftrightarrow> (\<exists>l. nodes s n = Some (TmpFsSymlink l))"

function walk :: "fs \<Rightarrow> path_segment list \<Rightarrow> nid \<times> nid \<Rightarrow> file_access_context
    \<Rightarrow> ((nid \<times> nid) \<times> file_access_context) result" where
  "walk s [] dn ctx = Ok (dn, ctx)"
| "walk s (seg # segs) (d, n) ctx =
     rbind (deref n s) (\<lambda>x. case x of
       TmpFsSymlink l \<Rightarrow> rbind (follow_symlink ctx) (\<lambda>ctx'. walk s (segments_spec (s_target l) @ seg # segs) (d, d) ctx')
     | _ \<Rightarrow> rbind (lookup_segment s seg d n ctx) (\<lambda>dn. walk s segs dn ctx))"
  by pat_completeness auto
termination
  by (relation "measures [\<lambda>(s, segs, dn, ctx). unat (symlink_recursion_limit ctx), \<lambda>(s, segs, dn, ctx). length segs]")
    (auto dest: follow_symlink_less)

lemma resolve_links_plain: "\<not> is_link s n \<Longrightarrow> resolve_links s n d ctx = rmap (\<lambda>_. (n, ctx)) (deref n s)"
  by (cases "nodes s n") (auto simp: resolve_links_eq deref_def is_link_def split: node.splits)

lemma resolve_links_no_link:
  "resolve_links s n d ctx = Ok (m, ctx') \<Longrightarrow> \<not> is_link s m" and "lookup_segments s segs dn ctx = lookup_segments s segs dn ctx"
proof (induction s n d ctx and s segs dn ctx arbitrary: m ctx' rule: resolve_links_lookup_segments.induct)
  case (1 s n start_dir ctx)
  from "1.prems" obtain x where x: "deref n s = Ok x" by (auto simp: resolve_links.simps [of s n] result_simps)
  show ?case
  proof (cases "\<exists>l. x = TmpFsSymlink l")
    case True
    then obtain l where l: "x = TmpFsSymlink l" by blast
    with x "1.prems" obtain ctx1 segs d' n' ctx2 where *: "follow_symlink ctx = Ok ctx1" "segments (s_target l) = Ok segs"
      "lookup_segments s segs (start_dir, start_dir) ctx1 = Ok ((d', n'), ctx2)" "within ctx1 ctx2 (resolve_links s n' d' ctx2) = Ok (m, ctx')"
      by (auto simp: resolve_links.simps [of s n] result_simps)
    show ?thesis by (rule "1.IH"(2) [OF x l *(1,2,3) refl refl]) (use * in \<open>auto simp: within_def split: if_splits\<close>)
  next
    case False
    then have "m = n" using "1.prems" x by (cases x) (auto simp: resolve_links.simps [of s n])
    then show ?thesis using False x by (auto simp: is_link_def deref_def unwrap_eq_Ok)
  qed
qed simp_all

text \<open>The directory of a node that is not a link is of no account.\<close>

definition same_place :: "fs \<Rightarrow> nid \<times> nid \<Rightarrow> nid \<times> nid \<Rightarrow> bool" where
  "same_place s x y \<longleftrightarrow> snd x = snd y \<and> (fst x = fst y \<or> \<not> is_link s (snd x))"

definition same_outcome ::
  "fs \<Rightarrow> ((nid \<times> nid) \<times> file_access_context) result \<Rightarrow> ((nid \<times> nid) \<times> file_access_context) result \<Rightarrow> bool" where
  "same_outcome s r r' \<longleftrightarrow>
     (case r of
        Ok (x, c) \<Rightarrow> (\<exists>y. r' = Ok (y, c) \<and> same_place s x y)
      | Err e \<Rightarrow> r' = Err e
      | Panic \<Rightarrow> r' = Panic)"

lemma same_outcome_simps [simp]:
  "same_outcome s (Err e) (Err e)" "same_outcome s Panic Panic"
  "same_outcome s (Ok (x, c)) (Ok (y, c)) \<longleftrightarrow> same_place s x y"
  by (simp_all add: same_outcome_def)

lemma same_outcome_refl: "same_outcome s r r"
  by (cases r) (auto simp: same_outcome_def same_place_def)

lemma same_outcome_trans: "same_outcome s a b \<Longrightarrow> same_outcome s b c \<Longrightarrow> same_outcome s a c"
  by (cases a) (auto simp: same_outcome_def same_place_def)

lemma lookup_segment_place:
  assumes "\<not> is_link s n"
  shows "(\<exists>x y. lookup_segment s seg d n ctx = Ok x \<and> lookup_segment s seg d' n ctx = Ok y \<and> same_place s x y) \<or>
    (\<exists>e. lookup_segment s seg d n ctx = Err e \<and> lookup_segment s seg d' n ctx = Err e) \<or>
    lookup_segment s seg d n ctx = Panic \<and> lookup_segment s seg d' n ctx = Panic"
proof (cases "if seg = Root then Ok () else check_dir n s ctx (seg \<noteq> Dot)")
  case (Ok x)
  then show ?thesis using assms by (cases seg; cases "parent n s"; cases "case seg of FileName name \<Rightarrow> get_node n name s | _ \<Rightarrow> Panic")
    (auto simp: lookup_segment_def same_place_def)
qed (auto simp: lookup_segment_def)

lemma lookup_segments_place:
  "same_place s x y \<Longrightarrow> same_outcome s (lookup_segments s segs x ctx) (lookup_segments s segs y ctx)"
proof (induction segs arbitrary: x y ctx)
  case Nil
  then show ?case by (simp add:)
next
  case (Cons seg segs)
  obtain d n d' where xy: "x = (d, n)" "y = (d', n)" "d = d' \<or> \<not> is_link s n"
    using Cons.prems by (cases x; cases y) (auto simp: same_place_def)
  show ?case
  proof (cases "is_link s n")
    case True
    then show ?thesis using xy by (simp add: same_outcome_refl)
  next
    case False
    then show ?thesis
      using lookup_segment_place [OF False, of seg d ctx d'] Cons.IH unfolding xy
      by (cases "deref n s")
        (auto simp: lookup_segments_Cons resolve_links_plain)
  qed
qed

lemma lookup_segments_append:
  "lookup_segments s (segs1 @ segs2) dn ctx =
     rbind (lookup_segments s segs1 dn ctx) (\<lambda>(dn', ctx'). lookup_segments s segs2 dn' ctx')"
proof (induction segs1 arbitrary: dn ctx)
  case (Cons seg segs1)
  obtain d n where dn: "dn = (d, n)" by (cases dn)
  show ?case
  proof (cases "resolve_links s n d ctx")
    case (Ok x)
    then show ?thesis using Cons.IH unfolding dn
      by (cases x; cases "lookup_segment s seg d (fst x) (snd x)") (simp_all add: lookup_segments_Cons)
  qed (simp_all add: dn lookup_segments_Cons)
qed simp

lemma lookup_link:
  assumes "nodes s n = Some (TmpFsSymlink l)" "follow_symlink ctx = Ok ctx1"
  shows "same_outcome s (lookup_segments s (seg # segs) (d, n) ctx)
    (lookup_segments s (segments_spec (s_target l) @ seg # segs) (d, d) ctx1)"
proof -
  have r: "resolve_links s n d ctx =
      rbind (lookup_segments s (segments_spec (s_target l)) (d, d) ctx1) (\<lambda>((d', n'), ctx2). resolve_links s n' d' ctx2)"
    using assms by (subst resolve_links_eq) (simp add: deref_def lookup_node_with_parent_def segments_eq_spec)
  show ?thesis
  proof (cases "lookup_segments s (segments_spec (s_target l)) (d, d) ctx1")
    case (Ok x)
    obtain d' n' ctx2 where x: "x = ((d', n'), ctx2)" by (metis surj_pair)
    show ?thesis
    proof (cases "resolve_links s n' d' ctx2")
      case ok: (Ok y)
      obtain n2 ctx3 where y: "y = (n2, ctx3)" by (cases y)
      from resolve_links_no_link(1) [OF ok [unfolded y]] have "\<not> is_link s n2" .
      from lookup_segment_place [OF this, of seg d ctx3 d'] show ?thesis
        using lookup_segments_place [of s _ _ segs ctx3]
        by (auto simp: lookup_segments_Cons lookup_segments_append r Ok x ok y)
    qed (simp_all add: lookup_segments_Cons lookup_segments_append r Ok x)
  qed (simp_all add: lookup_segments_Cons lookup_segments_append r)
qed

lemma lookup_walk: "same_outcome s (lookup_segments s segs dn ctx) (walk s segs dn ctx)"
proof (induction s segs dn ctx rule: walk.induct)
  case (1 s dn ctx)
  then show ?case by (simp add: same_outcome_refl)
next
  case (2 s seg segs d n ctx)
  show ?case
  proof (cases "nodes s n")
    case None
    then show ?thesis by (simp add: lookup_segments_Cons resolve_links_plain is_link_def deref_def)
  next
    case (Some x)
    show ?thesis
    proof (cases "\<exists>l. x = TmpFsSymlink l")
      case True
      then obtain l where l: "x = TmpFsSymlink l" by blast
      show ?thesis
      proof (cases "follow_symlink ctx")
        case (Ok ctx1)
        have "same_outcome s (lookup_segments s (segments_spec (s_target l) @ seg # segs) (d, d) ctx1)
            (walk s (segments_spec (s_target l) @ seg # segs) (d, d) ctx1)"
          by (rule "2.IH"(3) [of x l ctx1]) (use Some l Ok in \<open>simp_all add: deref_def\<close>)
        then show ?thesis using lookup_link [OF Some [unfolded l] Ok] same_outcome_trans Some l Ok by (simp add: deref_def) blast
      qed (use Some l in \<open>simp_all add: lookup_segments_Cons resolve_links_eq [of s n] deref_def\<close>)
    next
      case False
      then have nl: "\<not> is_link s n" using Some by (simp add: is_link_def)
      have w: "walk s (seg # segs) (d, n) ctx = rbind (lookup_segment s seg d n ctx) (\<lambda>dn. walk s segs dn ctx)"
        using Some False by (cases x) (simp_all add: deref_def)
      have "same_outcome s (lookup_segments s segs dn ctx) (walk s segs dn ctx)" if "lookup_segment s seg d n ctx = Ok dn" for dn
        using False Some that "2.IH" by (cases x) (auto simp: deref_def)
      then show ?thesis using nl Some unfolding w
        by (cases "lookup_segment s seg d n ctx")
          (auto simp: lookup_segments_Cons resolve_links_plain deref_def)
    qed
  qed
qed

section \<open>Safety\<close>

definition safe :: "('a \<Rightarrow> bool) \<Rightarrow> 'a result \<Rightarrow> bool" where
  "safe P r \<longleftrightarrow> (case r of Ok x \<Rightarrow> P x | Err _ \<Rightarrow> True | Panic \<Rightarrow> False)"

lemma safe_simps [simp]: "safe P (Ok x) = P x" "safe P (Err e)" "\<not> safe P Panic"
  by (simp_all add: safe_def)

lemma safe_bind: "safe Q r \<Longrightarrow> (\<And>x. r = Ok x \<Longrightarrow> Q x \<Longrightarrow> safe P (f x)) \<Longrightarrow> safe P (rbind r f)"
  by (cases r) auto

lemma safe_map: "safe Q r \<Longrightarrow> (\<And>x. Q x \<Longrightarrow> P (f x)) \<Longrightarrow> safe P (rmap f r)"
  by (cases r) auto

lemma safe_ensure: "safe P k \<Longrightarrow> safe P (ensure c e k)"
  by (simp add: ensure_def)

abbreviation alive :: "fs \<Rightarrow> nid \<Rightarrow> bool" where
  "alive s n \<equiv> nodes s n \<noteq> None"

lemma check_permissions_safe: "safe (\<lambda>_. True) (check_permissions ctx st p)"
  by (auto simp: check_permissions_def Let_def ensure_def)

lemma stat_of_Ok:
  assumes "tree_ok s" "nodes s n = Some x"
  shows "stat_of n s = Ok (node_stat n x)" "FileTypeAndMode_ty (st_mode (node_stat n x)) = (Ok (node_type x) :: file_type result)"
proof -
  show "stat_of n s = Ok (node_stat n x)" using assms by (simp add: stat_of_def deref_def)
  then show "FileTypeAndMode_ty (st_mode (node_stat n x)) = (Ok (node_type x) :: file_type result)"
    using ty_of_Ok [OF assms] by (simp add: ty_of_def)
qed

lemma check_dir_safe:
  assumes "tree_ok s" "alive s n"
  shows "safe (\<lambda>_. \<exists>d. nodes s n = Some (TmpFsDir d)) (check_dir n s ctx search)"
proof -
  obtain x where x: "nodes s n = Some x" using assms(2) by auto
  show ?thesis using stat_of_Ok [OF assms(1) x] x check_permissions_safe [of ctx "node_stat n x" Execute]
    by (cases x; cases "check_permissions ctx (node_stat n x) Execute") (auto simp: check_dir_def)
qed

lemma get_node_safe:
  assumes "tree_ok s" "alive s n"
  shows "safe (alive s) (get_node n name s)"
proof (cases rule: as_dir_cases [OF assms(2), case_names dir other])
  case (dir d)
  then show ?thesis using ent_alive [OF assms(1), of n name] by (cases "ent s (n, name)") (simp_all add: get_node_def)
qed (simp add: get_node_def)

lemma parent_safe:
  assumes "alive s n"
  shows "safe (alive s) (parent n s)"
proof (cases rule: as_dir_cases [OF assms, case_names dir other])
  case (dir d)
  then show ?thesis using assms by (auto simp: parent_def location_get_def split: location.splits)
qed (simp add: parent_def)

lemma root_alive: "tree_ok s \<Longrightarrow> alive s ROOT_NODE"
  using shape_okD(1) [OF tree_okD(2)] by (metis kd_None option.distinct(1))

lemma lookup_segment_safe:
  assumes "tree_ok s" "alive s d" "alive s n"
  shows "safe (\<lambda>x. alive s (fst x) \<and> alive s (snd x)) (lookup_segment s seg d n ctx)"
  unfolding lookup_segment_def
proof (rule safe_bind)
  show "safe (\<lambda>_. True) (if seg = Root then Ok () else check_dir n s ctx (seg \<noteq> Dot))"
    using check_dir_safe [OF assms(1,3), of ctx "seg \<noteq> Dot"] by (auto simp: safe_def split: outcome.splits)
  show "safe (\<lambda>x. alive s (fst x) \<and> alive s (snd x))
      (case seg of Root \<Rightarrow> Ok (ROOT_NODE, ROOT_NODE) | Empty \<Rightarrow> Ok (d, n) | Dot \<Rightarrow> Ok (d, n)
       | DotDot \<Rightarrow> rmap (\<lambda>p. (p, p)) (parent n s) | FileName name \<Rightarrow> rmap (\<lambda>m. (n, m)) (get_node n name s))"
    using assms root_alive [OF assms(1)] safe_map [OF parent_safe [OF assms(3)], of "\<lambda>x. alive s (fst x) \<and> alive s (snd x)" "\<lambda>p. (p, p)"]
      safe_map [OF get_node_safe [OF assms(1,3)], of "\<lambda>x. alive s (fst x) \<and> alive s (snd x)" "\<lambda>m. (n, m)"]
    by (cases seg) simp_all
qed

lemma lookup_safe:
  "tree_ok s \<Longrightarrow> alive s n \<Longrightarrow> alive s d \<Longrightarrow> safe (\<lambda>x. alive s (fst x)) (resolve_links s n d ctx)"
  "tree_ok s \<Longrightarrow> alive s (fst dn) \<Longrightarrow> alive s (snd dn) \<Longrightarrow>
   safe (\<lambda>x. alive s (fst (fst x)) \<and> alive s (snd (fst x))) (lookup_segments s segs dn ctx)"
proof (induction s n d ctx and s segs dn ctx rule: resolve_links_lookup_segments.induct)
  case (1 s n start_dir ctx)
  obtain x where x: "nodes s n = Some x" using "1.prems" by auto
  show ?case
  proof (cases "\<exists>l. x = TmpFsSymlink l")
    case True
    then obtain l where l: "x = TmpFsSymlink l" by blast
    show ?thesis
    proof (cases "follow_symlink ctx")
      case (Ok ctx1)
      let ?L = "lookup_segments s (segments_spec (s_target l)) (start_dir, start_dir) ctx1"
      have L: "safe (\<lambda>x. alive s (fst (fst x)) \<and> alive s (snd (fst x))) ?L"
        by (rule "1.IH"(1) [of x l ctx1]) (use x l Ok "1.prems" in \<open>simp_all add: deref_def segments_eq_spec\<close>)
      have "safe (\<lambda>x. alive s (fst x)) (rbind ?L (\<lambda>((d', n'), ctx2). resolve_links s n' d' ctx2))"
      proof (rule safe_bind [OF L])
        fix y assume y: "?L = Ok y" "(\<lambda>x. alive s (fst (fst x)) \<and> alive s (snd (fst x))) y"
        obtain d' n' ctx2 where yy: "y = ((d', n'), ctx2)" by (metis surj_pair)
        note * = y(1) [unfolded yy] and a = y(2) [unfolded yy fst_conv snd_conv]
        have "symlink_recursion_limit ctx2 \<le> symlink_recursion_limit ctx1"
          using lookup_user(2) [OF *] by (simp add: same_user_def)
        then have "safe (\<lambda>x. alive s (fst x)) (resolve_links s n' d' ctx2)"
          by (intro "1.IH"(2) [of x l ctx1 "segments_spec (s_target l)" "((d', n'), ctx2)" "(d', n')" ctx2])
            (use x l Ok * a "1.prems" in \<open>simp_all add: deref_def segments_eq_spec\<close>)
        then show "safe (\<lambda>x. alive s (fst x)) ((\<lambda>((d', n'), ctx2). resolve_links s n' d' ctx2) y)" by (simp add: yy)
      qed
      then show ?thesis using x l Ok
        by (simp add: resolve_links_eq [of s n] deref_def lookup_node_with_parent_def segments_eq_spec)
    qed (use x l in \<open>auto simp: resolve_links_eq [of s n] deref_def follow_symlink_def split: if_splits\<close>)
  next
    case False
    then show ?thesis using x by (cases x) (simp_all add: resolve_links_eq [of s n] deref_def)
  qed
next
  case (3 s seg segs dn ctx)
  obtain d n where dn: "dn = (d, n)" by (cases dn)
  have R: "safe (\<lambda>x. alive s (fst x)) (resolve_links s n d ctx)" using "3.IH"(1) "3.prems" by (simp add: dn)
  show ?case unfolding dn lookup_segments_Cons
  proof (rule safe_bind [OF R])
    fix y assume y: "resolve_links s n d ctx = Ok y" "(\<lambda>x. alive s (fst x)) y"
    obtain n' ctx' where yy: "y = (n', ctx')" by (cases y)
    note r = y(1) [unfolded yy] and a = y(2) [unfolded yy fst_conv snd_conv]
    have S: "safe (\<lambda>x. alive s (fst x) \<and> alive s (snd x)) (lookup_segment s seg d n' ctx')"
      by (rule lookup_segment_safe) (use "3.prems" a dn in simp_all)
    have "safe (\<lambda>x. alive s (fst (fst x)) \<and> alive s (snd (fst x))) (rbind (lookup_segment s seg d n' ctx') (\<lambda>dn'. lookup_segments s segs dn' ctx'))"
    proof (rule safe_bind [OF S])
      fix dn' assume d': "lookup_segment s seg d n' ctx' = Ok dn'" "(\<lambda>x. alive s (fst x) \<and> alive s (snd x)) dn'"
      have "symlink_recursion_limit ctx' \<le> symlink_recursion_limit ctx" using lookup_user(1) [OF r] by (simp add: same_user_def)
      then show "safe (\<lambda>x. alive s (fst (fst x)) \<and> alive s (snd (fst x))) (lookup_segments s segs dn' ctx')"
        by (intro "3.IH"(2) [of "(n', ctx')" n' ctx' dn']) (use r d' dn "3.prems" in \<open>auto split: prod.splits\<close>)
    qed
    then show "safe (\<lambda>x. alive s (fst (fst x)) \<and> alive s (snd (fst x))) ((\<lambda>(n', ctx').
        rbind (lookup_segment s seg d n' ctx') (\<lambda>dn'. lookup_segments s segs dn' ctx')) y)" by (simp add: yy)
  qed
qed simp

lemma lookup_node_safe:
  assumes "tree_ok s" "alive s start"
  shows "safe (\<lambda>x. alive s (fst x)) (lookup_node s start path ctx)"
    and "safe (\<lambda>x. alive s (fst x)) (lookup_and_resolve_node s start path ctx)"
proof -
  have L: "safe (\<lambda>x. alive s (fst (fst x)) \<and> alive s (snd (fst x))) (lookup_node_with_parent s start path ctx)"
    using lookup_safe(2) [of s "(start, start)"] assms by (simp add: lookup_node_with_parent_def segments_eq_spec)
  show "safe (\<lambda>x. alive s (fst x)) (lookup_node s start path ctx)"
    unfolding lookup_node_def by (rule safe_map [OF L]) auto
  show "safe (\<lambda>x. alive s (fst x)) (lookup_and_resolve_node s start path ctx)"
    unfolding lookup_and_resolve_node_def
    by (rule safe_bind [OF L]) (use lookup_safe(1) [OF assms(1)] in auto)
qed

lemma find_parent_loop_safe:
  assumes "tree_ok s" "alive s dir"
  shows "safe (\<lambda>x. alive s (fst (fst x))) (find_parent_loop s segs dir seg trailing ctx)"
  using assms(2)
proof (induction segs arbitrary: dir seg trailing ctx)
  case (Cons next_seg segs)
  let ?step = "case seg of Root \<Rightarrow> Ok (ROOT_NODE, ctx) | Empty \<Rightarrow> Ok (dir, ctx) | Dot \<Rightarrow> Ok (dir, ctx)
    | DotDot \<Rightarrow> rmap (\<lambda>p. (p, ctx)) (parent dir s)
    | FileName name \<Rightarrow> rbind (get_node dir name s) (\<lambda>n. resolve_links s n dir ctx)"
  have S: "safe (\<lambda>x. alive s (fst x)) ?step"
    using Cons.prems root_alive [OF assms(1)] parent_safe [OF Cons.prems] get_node_safe [OF assms(1) Cons.prems]
      lookup_safe(1) [OF assms(1)]
    by (cases seg) (auto intro!: safe_map safe_bind)
  show ?case
  proof (cases "next_seg = Empty")
    case True
    then show ?thesis using Cons by simp
  next
    case False
    have "safe (\<lambda>x. alive s (fst (fst x))) (rbind ?step (\<lambda>(dir', ctx').
        rbind (check_dir dir' s ctx' True) (\<lambda>_. find_parent_loop s segs dir' next_seg False ctx')))"
    proof (rule safe_bind [OF S])
      fix y :: "nid \<times> file_access_context" assume y: "(\<lambda>x. alive s (fst x)) y"
      obtain d' ctx' where yy: "y = (d', ctx')" by (cases y)
      have "alive s d'" using y by (simp add: yy)
      from safe_bind [OF check_dir_safe [OF assms(1) this, of ctx' True] Cons.IH [OF this, of next_seg False ctx']]
      show "safe (\<lambda>x. alive s (fst (fst x))) ((\<lambda>(d', ctx').
          rbind (check_dir d' s ctx' True) (\<lambda>_. find_parent_loop s segs d' next_seg False ctx')) y)"
        unfolding yy prod.case .
    qed
    then show ?thesis using False by simp
  qed
qed simp

lemma find_parent_safe:
  assumes "tree_ok s" "alive s start"
  shows "safe (\<lambda>x. \<exists>d. nodes s (fst (fst x)) = Some (TmpFsDir d)) (find_parent s start path ctx)"
proof (cases "segments_spec path")
  case Nil
  then show ?thesis by (simp add: find_parent_def segments_eq_spec)
next
  case (Cons first segs)
  have "safe (\<lambda>x. \<exists>d. nodes s (fst (fst x)) = Some (TmpFsDir d))
      (rbind (find_parent_loop s segs start first False ctx) (\<lambda>((dir, seg, trailing), ctx').
        rbind (check_dir dir s ctx' True) (\<lambda>_. Ok ((dir, seg, trailing), ctx'))))"
  proof (rule safe_bind [OF find_parent_loop_safe [OF assms]])
    fix y :: "(nid \<times> path_segment \<times> bool) \<times> file_access_context" assume y: "(\<lambda>x. alive s (fst (fst x))) y"
    obtain d seg trailing ctx' where yy: "y = ((d, seg, trailing), ctx')" by (metis surj_pair)
    have "alive s d" using y by (simp add: yy)
    from check_dir_safe [OF assms(1) this] show "safe (\<lambda>x. \<exists>d. nodes s (fst (fst x)) = Some (TmpFsDir d))
        ((\<lambda>((d, seg, trailing), ctx'). rbind (check_dir d s ctx' True) (\<lambda>_. Ok ((d, seg, trailing), ctx'))) y)"
      unfolding yy prod.case by (rule safe_bind) simp
  qed
  then show ?thesis by (simp add: find_parent_def segments_eq_spec Cons)
qed

end
