(* ===== verification/File_System.thy ===== *)
theory File_System
  imports Lookup_Safety
begin

text \<open>
  The file system as a transition system. A step is one call of an operation of a directory or
  a file of \<^verbatim>\<open>tmpfs.rs\<close>, which holds the locks it needs from its start to its end; the threads
  of the kernel interleave such calls. The operations on paths of \<^verbatim>\<open>fs/node.rs\<close> are sequences
  of steps.
\<close>

section \<open>The start\<close>

definition fs_empty :: "timespec \<Rightarrow> fs" where
  "fs_empty now = \<lparr>nodes = Map.empty, ino_counter = 1, dev_counter = 1, clock = now\<rparr>"

definition fs_start :: "timespec \<Rightarrow> fs" where
  "fs_start now =
     (case new_dev (fs_empty now) of (dev, s) \<Rightarrow>
        snd (TmpFsDir_new dev LRoot (FileMode_from_bits_truncate 0x1ED) 0 0 s))"

section \<open>Steps\<close>

definition tmpfs_root :: "u64 \<Rightarrow> u32 \<Rightarrow> u32 \<Rightarrow> location \<Rightarrow> (fs, nid) stateful" where
  "tmpfs_root mode uid gid loc s =
     (case new_dev s of (dev, s1) \<Rightarrow> case TmpFsDir_new dev loc mode uid gid s1 of (m, s2) \<Rightarrow> (Ok m, s2))"

text \<open>Freeing takes a node without entries; exchanging is left to entries that are no directories.\<close>

definition unreferenced :: "nid \<Rightarrow> fs \<Rightarrow> bool" where
  "unreferenced m s \<longleftrightarrow> (\<forall>x e. ent s x = Some e \<longrightarrow> entry_node e \<noteq> m)"

definition plain_entry :: "nid \<Rightarrow> file_name \<Rightarrow> fs \<Rightarrow> bool" where
  "plain_entry n name s \<longleftrightarrow> (\<forall>m. ent s (n, name) \<noteq> Some (EDir m))"

inductive fs_step :: "fs \<Rightarrow> fs \<Rightarrow> bool" where
  create_file: "alive s n \<Longrightarrow> name_ok name \<Longrightarrow> mode_ok mode \<Longrightarrow>
    dir_create_file n name mode uid gid s = (r, t) \<Longrightarrow> fs_step s t"
| create_dir: "alive s n \<Longrightarrow> name_ok name \<Longrightarrow> mode_ok mode \<Longrightarrow>
    dir_create_dir n name mode uid gid s = (r, t) \<Longrightarrow> fs_step s t"
| create_char_dev: "alive s n \<Longrightarrow> name_ok name \<Longrightarrow> mode_ok mode \<Longrightarrow>
    dir_create_char_dev n name major minor mode uid gid s = (r, t) \<Longrightarrow> fs_step s t"
| create_fifo: "alive s n \<Longrightarrow> name_ok name \<Longrightarrow> mode_ok mode \<Longrightarrow>
    dir_create_fifo n name mode uid gid s = (r, t) \<Longrightarrow> fs_step s t"
| create_link: "alive s n \<Longrightarrow> name_ok name \<Longrightarrow>
    dir_create_link n name target uid gid create_new s = (r, t) \<Longrightarrow> fs_step s t"
| mount: "nodes s n = Some (TmpFsDir d) \<Longrightarrow> name_ok name \<Longrightarrow> mode_ok mode \<Longrightarrow>
    mount_new n name mode uid gid s = (r, t) \<Longrightarrow> fs_step s t"
| delete_non_dir: "alive s n \<Longrightarrow> delete_non_dir n name s = (r, t) \<Longrightarrow> fs_step s t"
| delete_dir: "alive s n \<Longrightarrow> delete_dir n name s = (r, t) \<Longrightarrow> fs_step s t"
| rename: "alive s n \<Longrightarrow> alive s n' \<Longrightarrow> name_ok newname \<Longrightarrow>
    dir_rename n oldname check n' newname no_replace s = Some (r, t) \<Longrightarrow> fs_step s t"
| exchange: "alive s n \<Longrightarrow> alive s n' \<Longrightarrow> few_links s \<Longrightarrow> name_ok oldname \<Longrightarrow> name_ok newname \<Longrightarrow> plain_entry n oldname s \<Longrightarrow> plain_entry n' newname s \<Longrightarrow>
    dir_exchange n oldname n' newname s = Some (r, t) \<Longrightarrow> fs_step s t"
| hard_link: "alive s n \<Longrightarrow> alive s n' \<Longrightarrow> few_links s \<Longrightarrow> name_ok newname \<Longrightarrow>
    dir_hard_link n oldname follow n' newname s = (r, t) \<Longrightarrow> fs_step s t"
| chmod: "alive s n \<Longrightarrow> mode_ok mode \<Longrightarrow> inode_chmod n mode ctx s = (r, t) \<Longrightarrow> fs_step s t"
| chown: "alive s n \<Longrightarrow> inode_chown n uid gid ctx s = (r, t) \<Longrightarrow> fs_step s t"
| times: "alive s n \<Longrightarrow> update_times n ct at mt s = (r, t) \<Longrightarrow> fs_step s t"
| file_read: "file_read n offset buf no_atime (h, s) = (r, (h', t)) \<Longrightarrow> fs_step s t"
| file_write: "file_write n offset bs (h, s) = (r1, (h', t)) \<Longrightarrow> fs_step s t"
| file_append: "file_append n bs (h, s) = (r1, (h', t)) \<Longrightarrow> fs_step s t"
| file_truncate: "file_truncate n l (h, s) = (r2, (h', t)) \<Longrightarrow> fs_step s t"
| file_get_page: "file_get_page n i sh (h, s) = (r3, (h', t)) \<Longrightarrow> fs_step s t"
| free: "m \<noteq> ROOT_NODE \<Longrightarrow> unreferenced m s \<Longrightarrow> free_node m s = (r, t) \<Longrightarrow> fs_step s t"
| tick: "fs_step s (s\<lparr>clock := now\<rparr>)"

section \<open>The invariant\<close>

definition names_ok :: "fs \<Rightarrow> bool" where
  "names_ok s \<longleftrightarrow> (\<forall>n name. ent s (n, name) \<noteq> None \<longrightarrow> name_ok name)"

definition fs_inv :: "fs \<Rightarrow> bool" where
  "fs_inv s \<longleftrightarrow> fs_ok s \<and> names_ok s"

lemma fs_invD: "fs_inv s \<Longrightarrow> tree_ok s" "fs_inv s \<Longrightarrow> linked (kd s) (ent s)" "fs_inv s \<Longrightarrow> fs_ok s" "fs_inv s \<Longrightarrow> names_ok s"
  by (simp_all add: fs_inv_def)

lemma names_ok_less: "names_ok s \<Longrightarrow> (\<And>x. ent t x \<noteq> None \<Longrightarrow> ent s x \<noteq> None) \<Longrightarrow> names_ok t"
  unfolding names_ok_def by blast

lemma names_ok_more: "names_ok s \<Longrightarrow> name_ok name \<Longrightarrow> (\<And>x. ent t x \<noteq> None \<Longrightarrow> x = (n, name) \<or> ent s x \<noteq> None) \<Longrightarrow> names_ok t"
  unfolding names_ok_def by blast

lemma touched_inv: "fs_inv s \<Longrightarrow> touched s t \<Longrightarrow> fs_inv t"
  unfolding fs_inv_def
  by (auto simp: touched_tree_ok touched_linked) (simp add: names_ok_def touched_def becomes_def)

lemma creates_inv:
  assumes "fs_inv s" "creates n name entry k s r t" "name_ok name"
  shows "fs_inv t"
proof -
  have "names_ok t"
  proof (cases r)
    case (Ok x)
    show ?thesis using assms Ok names_ok_more [OF fs_invD(4) [OF assms(1)] assms(3), of t n]
      by (cases x) (auto simp: creates_def created_def fs_inv_def split: if_splits)
  qed (use assms in \<open>auto simp: creates_def fs_inv_def\<close>)
  then show ?thesis using creates_fs_ok [OF fs_invD(3) [OF assms(1)] assms(2)] by (simp add: fs_inv_def)
qed

lemma entered_inv:
  assumes "fs_inv s" "entered n name e k s t" "fresh_kind e dev n name k" "name_ok name"
  shows "fs_inv t"
  using names_ok_more [OF fs_invD(4) [OF assms(1)] assms(4), of t n] assms(2)
    entered_linked [OF fs_invD(1) [OF assms(1)] assms(2) fs_invD(2) [OF assms(1)] assms(3)]
  by (auto simp: fs_inv_def entered_def split: if_splits)

lemma removed_inv:
  assumes "fs_inv s" "removed n name s t"
  shows "fs_inv t"
  using fs_invD(4) [OF assms(1)] assms(2) removed_linked [OF assms(2) fs_invD(2) [OF assms(1)]]
  by (auto simp: fs_inv_def removed_def names_ok_def)

lemma hard_linked_inv:
  assumes "fs_inv s" "hard_linked n name e s t" "linkable e" "name_ok name"
  shows "fs_inv t"
proof -
  have "linked (kd t) (ent t)"
    using linked_set [OF fs_invD(2) [OF assms(1)], of e n name] linked_relink [of "Some e" Suc "kd s"] assms(2,3)
    by (cases e) (auto simp: hard_linked_def)
  then show ?thesis
    using names_ok_more [OF fs_invD(4) [OF assms(1)] assms(4), of t n] assms(2)
    by (auto simp: fs_inv_def hard_linked_def split: if_splits)
qed

lemma rename_inv:
  assumes "fs_inv s" "rename_outcome n oldname n' newname check no_replace s r t" "name_ok newname"
  shows "fs_inv t"
proof (cases r)
  case (Ok u)
  then obtain e dev where e: "ent s (n, oldname) = Some e"
    "(n', newname) = (n, oldname) \<and> t = s \<or> moved n oldname n' newname e dev s t"
    using assms(2) by (auto simp: rename_outcome_def split: if_splits)
  show ?thesis
  proof (cases "(n', newname) = (n, oldname) \<and> t = s")
    case False
    with e(2) have m: "moved n oldname n' newname e dev s t" by blast
    from moved_linked [OF fs_invD(1) [OF assms(1)] fs_invD(2) [OF assms(1)] m e(1)]
    show ?thesis using m fs_invD(4) [OF assms(1)] assms(3) by (auto simp: fs_inv_def moved_def names_ok_def)
  qed (use assms(1) in simp)
qed (use assms in \<open>auto simp: rename_outcome_def\<close>)

lemma exchanged_inv:
  assumes "fs_inv s" "exchanged n a n' b s t" "plain_entry n a s" "plain_entry n' b s" "name_ok a" "name_ok b"
  shows "fs_inv t"
proof -
  have "linked (kd t) (ent t)"
    using fs_invD(2) [OF assms(1)] assms(2,3,4) by (auto simp: linked_def exchanged_def plain_entry_def split: if_splits)
  moreover have "names_ok t"
    using fs_invD(4) [OF assms(1)] assms(2,5,6) by (auto simp: names_ok_def exchanged_def)
  ultimately show ?thesis using assms(2) by (simp add: fs_inv_def exchanged_def)
qed


text \<open>The outcomes of the operations, in one form.\<close>

definition keeps :: "'a result \<times> fs \<Rightarrow> bool" where
  "keeps x \<longleftrightarrow> (case x of (r, t) \<Rightarrow> r \<noteq> Panic \<and> fs_inv t)"

lemma create_sum:
  assumes "\<exists>r t. m s = (r, t) \<and> creates n name entry k s r t" "fs_inv s" "name_ok name"
  shows "keeps (m s)" and "keeps (sbind m (\<lambda>x. slift (or_exist x)) s)"
    and "keeps (sbind m (\<lambda>x. slift (rmap g (or_exist x))) s)"
proof -
  obtain r t where *: "m s = (r, t)" "creates n name entry k s r t" using assms(1) by blast
  have t: "fs_inv t" by (rule creates_inv [OF assms(2) *(2) assms(3)])
  have r: "r \<noteq> Panic" using *(2) by (auto simp: creates_def)
  show "keeps (m s)" using * t r by (simp add: keeps_def)
  have e: "or_exist x \<noteq> Panic" for x :: "nid + nid" by (simp add: or_exist_def split: sum.splits)
  show "keeps (sbind m (\<lambda>x. slift (or_exist x)) s)"
    using * t r e by (cases r) (auto simp: keeps_def sbind_def slift_def)
  have e': "rmap g (or_exist x) \<noteq> Panic" for x :: "nid + nid" by (simp add: or_exist_def split: sum.splits)
  show "keeps (sbind m (\<lambda>x. slift (rmap g (or_exist x))) s)"
    using * t r e' by (cases r) (auto simp: keeps_def sbind_def slift_def)
qed

lemma create_keeps:
  assumes "fs_inv s" "alive s n" "name_ok name" "mode_ok mode"
  shows "keeps (dir_create_file n name mode uid gid s)" "keeps (dir_create_dir n name mode uid gid s)"
    "keeps (dir_create_char_dev n name major minor mode uid gid s)" "keeps (dir_create_fifo n name mode uid gid s)"
proof -
  note a = fs_invD(1) [OF assms(1)] assms(2,4)
  show "keeps (dir_create_file n name mode uid gid s)"
    by (rule create_sum(1) [where m = "dir_create_file n name mode uid gid", OF dir_create_file_spec [OF a] assms(1,3)])
  show "keeps (dir_create_dir n name mode uid gid s)" unfolding dir_create_dir_def
    by (rule create_sum(2) [OF _ assms(1,3)], rule dir_create_dir_spec [OF a])
  show "keeps (dir_create_char_dev n name major minor mode uid gid s)" unfolding dir_create_char_dev_def
    by (rule create_sum(2) [OF _ assms(1,3)], rule dir_create_char_dev_spec [OF a])
  show "keeps (dir_create_fifo n name mode uid gid s)" unfolding dir_create_fifo_def
    by (rule create_sum(3) [OF _ assms(1,3)], rule dir_create_fifo_spec [OF a])
qed

lemma create_link_keeps:
  assumes "fs_inv s" "alive s n" "name_ok name"
  shows "keeps (dir_create_link n name target uid gid create_new s)"
proof -
  obtain r t where *: "dir_create_link n name target uid gid create_new s = (r, t)"
    "case r of Ok m \<Rightarrow> \<exists>dev loc. kd s n = Some (KDir dev loc) \<and> m = ino_counter s \<and> (create_new \<longrightarrow> ent s (n, name) = None) \<and>
         entered n name (ESymlink m) (KSymlink dev target) s t
     | Err _ \<Rightarrow> t = s | Panic \<Rightarrow> False"
    using dir_create_link_spec [OF fs_invD(1) [OF assms(1)] assms(2)] by blast
  show ?thesis
  proof (cases r)
    case (Ok m)
    with *(2) obtain dev where "entered n name (ESymlink m) (KSymlink dev target) s t" by auto
    from entered_inv [OF assms(1) this, of dev] show ?thesis using * Ok assms(3) by (simp add: keeps_def)
  qed (use * assms in \<open>auto simp: keeps_def\<close>)
qed

lemma mount_keeps:
  assumes "fs_inv s" "nodes s n = Some (TmpFsDir d)" "name_ok name" "mode_ok mode"
  shows "keeps (mount_new n name mode uid gid s)"
proof -
  obtain t dev where *: "mount_new n name mode uid gid s = (Ok (), t)"
    "entered n name (EMount (ino_counter s)) (KDir dev (LMount n name)) s t"
    using mount_new_spec [OF fs_invD(1) [OF assms(1)] assms(2,4)] by blast
  from entered_inv [OF assms(1) *(2), of dev] assms(3) show ?thesis by (simp add: *(1) keeps_def)
qed

lemma delete_keeps:
  assumes "fs_inv s" "alive s n"
  shows "keeps (delete_non_dir n name s)" "keeps (delete_dir n name s)"
proof -
  note inv = removed_inv [OF assms(1), of n name] assms(1)
  from delete_non_dir_spec [OF fs_invD(1) [OF assms(1)] assms(2), of name] show "keeps (delete_non_dir n name s)"
  proof (elim exE conjE)
    fix r t assume "delete_non_dir n name s = (r, t)" "case r of Ok _ \<Rightarrow> removed n name s t \<and> (\<exists>e. ent s (n, name) = Some e \<and> (\<forall>d. nodes s (entry_node e) \<noteq> Some (TmpFsDir d)))
     | Err _ \<Rightarrow> t = s | Panic \<Rightarrow> False"
    then show ?thesis using inv by (cases r) (auto simp: keeps_def)
  qed
  from delete_dir_spec [OF fs_invD(1) [OF assms(1)] assms(2), of name] show "keeps (delete_dir n name s)"
  proof (elim exE conjE)
    fix r t assume "delete_dir n name s = (r, t)" "case r of Ok _ \<Rightarrow> removed n name s t \<and> (\<exists>e. ent s (n, name) = Some e \<and> (\<forall>nm. ent s (entry_node e, nm) = None))
     | Err _ \<Rightarrow> t = s | Panic \<Rightarrow> False"
    then show ?thesis using inv by (cases r) (auto simp: keeps_def)
  qed
qed

lemma rename_keeps:
  assumes "fs_inv s" "alive s n" "alive s n'" "name_ok newname"
  shows "\<exists>x. dir_rename n oldname check n' newname no_replace s = Some x \<and> keeps x"
proof -
  obtain r t where *: "dir_rename n oldname check n' newname no_replace s = Some (r, t)"
    "rename_outcome n oldname n' newname check no_replace s r t"
    using dir_rename_spec [OF fs_invD(3) [OF assms(1)] assms(2,3)] by blast
  then show ?thesis using rename_inv [OF assms(1) *(2) assms(4)] by (auto simp: keeps_def rename_outcome_def)
qed

lemma exchange_keeps:
  assumes "fs_inv s" "alive s n" "alive s n'" "few_links s" "name_ok oldname" "name_ok newname"
    "plain_entry n oldname s" "plain_entry n' newname s"
  shows "\<exists>x. dir_exchange n oldname n' newname s = Some x \<and> keeps x"
proof -
  obtain r t where *: "dir_exchange n oldname n' newname s = Some (r, t)"
    "case r of Ok _ \<Rightarrow> exchanged n oldname n' newname s t \<or> (n', newname) = (n, oldname) \<and> t = s
     | Err _ \<Rightarrow> becomes t (kd s) (ent s) (ino_counter s) | Panic \<Rightarrow> False"
    using dir_exchange_spec [OF fs_invD(3) [OF assms(1)] assms(2,3,4)] by blast
  have "fs_inv t" using *(2) exchanged_inv [OF assms(1) _ assms(7,8,5,6)] touched_inv [OF assms(1), of t] assms(1)
    by (cases r) (auto simp: touched_def)
  then show ?thesis using * by (auto simp: keeps_def)
qed

lemma hard_link_keeps:
  assumes "fs_inv s" "alive s n" "alive s n'" "few_links s" "name_ok newname"
  shows "keeps (dir_hard_link n oldname follow n' newname s)"
proof -
  obtain r t where *: "dir_hard_link n oldname follow n' newname s = (r, t)"
    "case r of
       Ok None \<Rightarrow> \<exists>e. ent s (n, oldname) = Some e \<and> linkable e \<and> ent s (n', newname) = None \<and> hard_linked n' newname e s t
     | Ok (Some p) \<Rightarrow> follow \<and> (\<exists>m dev. ent s (n, oldname) = Some (ESymlink m) \<and> kd s m = Some (KSymlink dev p)) \<and> t = s
     | Err _ \<Rightarrow> touched s t | Panic \<Rightarrow> False"
    using dir_hard_link_spec [OF fs_invD(1) [OF assms(1)] assms(2,3,4)] by blast
  have "fs_inv t"
    using *(2) hard_linked_inv [OF assms(1) _ _ assms(5)] touched_inv [OF assms(1), of t] assms(1)
    by (auto split: outcome.splits option.splits)
  then show ?thesis using * by (auto simp: keeps_def)
qed

lemma attribute_keeps:
  assumes "fs_inv s" "alive s n"
  shows "mode_ok mode \<Longrightarrow> keeps (inode_chmod n mode ctx s)" "keeps (inode_chown n uid gid ctx s)"
    "keeps (update_times n ct at mt s)"
  using inode_chmod_spec [OF fs_invD(1) [OF assms(1)] assms(2), of mode ctx]
    inode_chown_spec [OF fs_invD(1) [OF assms(1)] assms(2), of uid gid ctx]
    update_times_spec [OF fs_invD(1) [OF assms(1)] assms(2), of ct at mt] touched_inv [OF assms(1)]
  by (auto simp: keeps_def)

lemma with_file_inv:
  assumes "fs_inv s" "with_file n touch g (h, s) = (r, (h', t))"
    "\<And>c f. f_fs (touch c f) = f_fs f \<and> f_links (touch c f) = f_links f \<and> f_ownership (touch c f) = f_ownership f"
  shows "fs_inv t"
  by (rule touched_inv [OF assms(1)], rule with_file_touched [OF fs_invD(1) [OF assms(1)] assms(2)]) (rule assms(3))

lemma file_inv:
  assumes "fs_inv s"
  shows "file_read n offset buf no_atime (h, s) = (r, (h', t)) \<Longrightarrow> fs_inv t"
    "file_write n offset bs (h, s) = (r1, (h', t)) \<Longrightarrow> fs_inv t" "file_append n bs (h, s) = (r1, (h', t)) \<Longrightarrow> fs_inv t"
    "file_truncate n l (h, s) = (r2, (h', t)) \<Longrightarrow> fs_inv t" "file_get_page n i sh (h, s) = (r3, (h', t)) \<Longrightarrow> fs_inv t"
  unfolding file_read_def file_write_def file_append_def file_truncate_def file_get_page_def
  by (erule with_file_inv [OF assms], simp add: touch_write_def)+

lemma free_keeps:
  assumes "fs_inv s" "m \<noteq> ROOT_NODE" "unreferenced m s"
  shows "keeps (free_node m s)"
proof -
  obtain t where t: "free_node m s = (Ok (), t)" "fs_ok t" "\<forall>x. ent t x \<noteq> None \<longrightarrow> ent s x \<noteq> None"
    using free_node_spec [OF fs_invD(3) [OF assms(1)] assms(2)] assms(3) unfolding unreferenced_def by blast
  have "names_ok t" by (rule names_ok_less [OF fs_invD(4) [OF assms(1)]]) (use t(3) in blast)
  then show ?thesis using t by (simp add: keeps_def fs_inv_def)
qed

lemma tick_inv: "fs_inv s \<Longrightarrow> fs_inv (s\<lparr>clock := now\<rparr>)"
  by (rule touched_inv) (auto simp: touched_def becomes_def kd_def ent_def fs_inv_def tree_ok_def nodes_ok_def)

lemma keepsD: "keeps x \<Longrightarrow> x = (r, t) \<Longrightarrow> fs_inv t"
  by (simp add: keeps_def)

lemma fs_step_inv:
  assumes "fs_step s t" "fs_inv s"
  shows "fs_inv t"
  using assms(1)
proof cases
  case (rename n n' newname oldname check no_replace r)
  then show ?thesis using rename_keeps [OF assms(2), of n n' newname oldname check no_replace] by (auto simp: keeps_def)
next
  case (exchange n n' oldname newname r)
  then show ?thesis using exchange_keeps [OF assms(2), of n n' oldname newname] by (auto simp: keeps_def)
next
  case tick
  then show ?thesis using tick_inv [OF assms(2)] by simp
qed (erule keepsD [rotated], rule create_keeps create_link_keeps mount_keeps delete_keeps hard_link_keeps attribute_keeps free_keeps,
    (assumption | rule assms(2))+ | rule file_inv [OF assms(2)], assumption)+

definition fs_init :: "fs \<Rightarrow> bool" where
  "fs_init s \<longleftrightarrow> (\<exists>now. s = fs_start now)"

lemma fs_start_eq:
  "fs_start now = \<lparr>nodes = [ROOT_NODE \<mapsto> dir_node 1 LRoot (FileMode_from_bits_truncate 0x1ED) 0 0 now],
     ino_counter = 2, dev_counter = 2, clock = now\<rparr>"
  by (simp add: fs_start_def new_dev_def fs_empty_def TmpFsDir_new_def new_node_def set_node_def)

lemma mode_ok_truncate: "mode_ok (FileMode_from_bits_truncate m)"
  by (simp add: mode_ok_def FileMode_from_bits_truncate_def and.assoc)

lemma fs_start_inv: "fs_inv (fs_start now)"
proof -
  have k: "kd (fs_start now) = [ROOT_NODE \<mapsto> KDir 1 LRoot]"
    by (rule ext) (simp add: fs_start_eq kd_def dir_node_def)
  have e: "ent (fs_start now) = Map.empty"
    by (rule ext) (auto simp: fs_start_eq ent_def dir_node_def bt.get_empty)
  have "up (kd (fs_start now)) = {}" by (auto simp: up_def k split: if_splits)
  then have "shape_ok (kd (fs_start now)) (ent (fs_start now)) (ino_counter (fs_start now))"
    by (auto simp: shape_ok_def k e acyclic_def) (simp_all add: fs_start_eq)
  moreover have "nodes_ok (fs_start now)"
    by (auto simp: nodes_ok_def fs_start_eq dir_node_def Ownership_new_def mode_ok_truncate bt.wf_empty split: if_splits)
  ultimately show ?thesis by (simp add: fs_inv_def tree_ok_def linked_def names_ok_def e)
qed

interpretation tfs: step_system fs_init fs_step fs_inv
  by unfold_locales (auto simp: fs_init_def intro: fs_start_inv fs_step_inv)

section \<open>Operations on paths are sequences of steps\<close>

definition runs :: "fs \<Rightarrow> 'a result \<times> fs \<Rightarrow> bool" where
  "runs s x \<longleftrightarrow> fst x \<noteq> Panic \<and> fs_step\<^sup>*\<^sup>* s (snd x)"

lemma runs_step: "keeps x \<Longrightarrow> (\<And>r t. x = (r, t) \<Longrightarrow> fs_step s t) \<Longrightarrow> runs s x"
  by (cases x) (auto simp: keeps_def runs_def)

lemma runs_stop [simp]:
  "runs s (sret x s)" "runs s (slift (Err e) s)" "runs s (slift (Ok x) s)" "runs s (Ok x, s)" "runs s (Err e, s)" "\<not> runs s (Panic, t)"
  by (simp_all add: runs_def sret_def slift_def)

lemma runs_bind:
  assumes "runs s (m s)" "\<And>x t. m s = (Ok x, t) \<Longrightarrow> fs_step\<^sup>*\<^sup>* s t \<Longrightarrow> runs t (f x t)"
  shows "runs s (sbind m f s)"
proof (cases "m s")
  case (Pair r t)
  then have st: "fs_step\<^sup>*\<^sup>* s t" "r \<noteq> Panic" using assms(1) by (auto simp: runs_def)
  show ?thesis
  proof (cases r)
    case (Ok x)
    with assms(2) Pair st have "runs t (f x t)" by blast
    then show ?thesis using st(1) Pair Ok by (auto simp: runs_def sbind_eqs)
  qed (use st Pair in \<open>simp_all add: runs_def sbind_def\<close>)
qed

lemma runs_read:
  assumes "safe P (g s)" "\<And>x. g s = Ok x \<Longrightarrow> P x \<Longrightarrow> runs s (f x s)"
  shows "runs s (sbind (\<lambda>s. (g s, s)) f s)"
  using assms by (cases "g s") (auto simp: sbind_def runs_def)

lemma runs_ensure: "(c \<Longrightarrow> runs s (f () s)) \<Longrightarrow> runs s (sbind (slift (ensure c e (Ok ()))) f s)"
  by (cases c) (auto simp: sbind_def runs_def slift_def ensure_def)

lemma runs_map: "runs s (m s) \<Longrightarrow> runs s (sbind m (\<lambda>x. sret (g x)) s)"
  by (rule runs_bind) simp_all

text \<open>What \<^const>\<open>find_parent\<close> returns.\<close>

lemma find_parent_loop_seg:
  "find_parent_loop s segs dir seg trailing ctx = Ok ((d, seg', tr), ctx') \<Longrightarrow>
   seg' \<in> set (seg # segs) \<and> (seg' = Empty \<longrightarrow> seg = Empty)"
  by (induction segs arbitrary: dir seg trailing ctx) (force simp: result_simps split: if_splits)+

lemma find_parent_loop_user:
  "find_parent_loop s segs dir seg trailing ctx = Ok (x, ctx') \<Longrightarrow> same_user ctx ctx'"
proof (induction segs arbitrary: dir seg trailing ctx)
  case (Cons next_seg segs)
  show ?case
  proof (cases "next_seg = Empty")
    case False
    with Cons.prems obtain dir1 ctx1 where *: "(case seg of Root \<Rightarrow> Ok (ROOT_NODE, ctx) | Empty \<Rightarrow> Ok (dir, ctx) | Dot \<Rightarrow> Ok (dir, ctx)
        | DotDot \<Rightarrow> rmap (\<lambda>p. (p, ctx)) (parent dir s)
        | FileName name \<Rightarrow> rbind (get_node dir name s) (\<lambda>n. resolve_links s n dir ctx)) = Ok (dir1, ctx1)"
      "find_parent_loop s segs dir1 next_seg False ctx1 = Ok (x, ctx')"
      by (auto simp: result_simps)
    have "same_user ctx ctx1" using *(1) lookup_user(1) by (cases seg) (auto simp: result_simps)
    then show ?thesis using Cons.IH [OF *(2)] same_user_trans by blast
  qed (use Cons in auto)
qed simp

lemma first_segment: "path \<noteq> [] \<Longrightarrow> hd (segments_spec path) \<noteq> Empty"
  by (cases path) (auto simp: segments_spec_def is_absolute_def piece_def split: list.splits)

lemma find_parent_result:
  assumes "find_parent s start path ctx = Ok ((d, seg, tr), ctx')"
  shows "same_user ctx ctx'" "seg = FileName name \<Longrightarrow> name_ok name" "path \<noteq> [] \<Longrightarrow> seg \<noteq> Empty"
proof -
  obtain first segs where segs: "segments_spec path = first # segs"
    using assms by (cases "segments_spec path") (auto simp: find_parent_def segments_eq_spec)
  then have l: "find_parent_loop s segs start first False ctx = Ok ((d, seg, tr), ctx')"
    using assms by (auto simp: find_parent_def segments_eq_spec result_simps)
  show "same_user ctx ctx'" by (rule find_parent_loop_user [OF l])
  have m: "seg \<in> set (segments_spec path)" "seg = Empty \<longrightarrow> first = Empty"
    using find_parent_loop_seg [OF l] by (simp_all add: segs)
  show "seg = FileName name \<Longrightarrow> name_ok name" using m(1) segments_spec_names by blast
  show "path \<noteq> [] \<Longrightarrow> seg \<noteq> Empty" using m(2) first_segment [of path] by (auto simp: segs)
qed

lemma at_parent_runs:
  assumes inv: "fs_inv s" and start: "alive s start"
    and act: "\<And>dir d name trailing ctx'. nodes s dir = Some (TmpFsDir d) \<Longrightarrow> name_ok name \<Longrightarrow> same_user ctx ctx' \<Longrightarrow>
      runs s (act dir name trailing ctx' s)"
    and otherwise: "\<And>dir seg tr ctx'. find_parent s start path ctx = Ok ((dir, seg, tr), ctx') \<Longrightarrow>
      (\<And>name. seg \<noteq> FileName name) \<Longrightarrow> otherwise seg \<noteq> None"
  shows "runs s (at_parent start path ctx otherwise act s)"
  unfolding at_parent_def
proof (rule runs_read [where g = "\<lambda>s. find_parent s start path ctx", OF find_parent_safe [OF fs_invD(1) [OF inv] start]])
  fix x assume x: "find_parent s start path ctx = Ok x" "\<exists>d. nodes s (fst (fst x)) = Some (TmpFsDir d)"
  obtain dir seg trailing ctx' where xx: "x = ((dir, seg, trailing), ctx')" by (metis surj_pair)
  note f = find_parent_result [OF x(1) [unfolded xx]]
  show "runs s ((\<lambda>((dir, seg, trailing), ctx').
      case seg of FileName name \<Rightarrow> act dir name trailing ctx'
       | _ \<Rightarrow> slift (case otherwise seg of Some e \<Rightarrow> Err e | None \<Rightarrow> Panic)) x s)"
  proof (cases "\<exists>name. seg = FileName name")
    case True
    then show ?thesis using act x(2) f(1,2) by (auto simp: xx)
  next
    case False
    then obtain e where "otherwise seg = Some e" using otherwise [OF x(1) [unfolded xx]] by auto
    then show ?thesis using False by (cases seg) (auto simp: xx)
  qed
qed


section \<open>Each operation\<close>

lemma check_open_safe: "safe (\<lambda>_. True) (check_open ctx st flags)"
  using check_permissions_safe [of ctx st Read] check_permissions_safe [of ctx st Write]
  by (cases "check_permissions ctx st Read") (auto simp: check_open_def)

lemma open_existing_safe:
  assumes "tree_ok s" "alive s m"
  shows "safe (\<lambda>x. \<forall>dir' target ctx'. x = Inr (dir', target, ctx') \<longrightarrow>
    dir' = dir \<and> symlink_recursion_limit ctx' < symlink_recursion_limit ctx) (open_existing m dir flags ctx s)"
proof -
  obtain x where x: "nodes s m = Some x" using assms(2) by auto
  have f: "safe (\<lambda>ctx'. symlink_recursion_limit ctx' < symlink_recursion_limit ctx) (follow_symlink ctx)"
    using follow_symlink_less [of ctx] by (cases "follow_symlink ctx") (auto simp: word_less_nat_alt follow_symlink_def split: if_splits)
  show ?thesis using stat_of_Ok [OF assms(1) x] x check_open_safe [of ctx "node_stat m x" flags] f
    by (cases x; cases "check_open ctx (node_stat m x) flags"; cases "follow_symlink ctx")
      (auto simp: open_existing_def ensure_def deref_def)
qed

lemma create_file_round_spec:
  assumes inv: "fs_inv s" and start: "alive s start" and mode: "mode_ok mode"
  shows "\<exists>r t. create_file_round start path mode flags ctx s = (r, t) \<and> r \<noteq> Panic \<and> fs_step\<^sup>*\<^sup>* s t \<and>
    (\<forall>dir target ctx'. r = Ok (Inr (dir, target, ctx')) \<longrightarrow>
      t = s \<and> alive s dir \<and> symlink_recursion_limit ctx' < symlink_recursion_limit ctx)"
proof (cases "find_parent s start path ctx")
  case (Ok x)
  obtain dir seg trailing ctx1 where xx: "x = ((dir, seg, trailing), ctx1)" by (metis surj_pair)
  note f = find_parent_result [OF Ok [unfolded xx]]
  have dir: "alive s dir" using find_parent_safe [OF fs_invD(1) [OF inv] start, of path ctx] Ok by (auto simp: xx)
  show ?thesis
  proof (cases "(\<exists>name. seg = FileName name) \<and> \<not> trailing")
    case True
    then obtain name where seg: "seg = FileName name" "\<not> trailing" by blast
    let ?c = "dir_create_file dir name mode (filesystem_user_id ctx1) (filesystem_group_id ctx1)"
    obtain r t where c: "?c s = (r, t)" "creates dir name EFile (\<lambda>dev. KFile dev 1) s r t"
      using dir_create_file_spec [OF fs_invD(1) [OF inv] dir mode] by blast
    have st: "fs_step\<^sup>*\<^sup>* s t" using fs_step.create_file [OF dir f(2) [OF seg(1)] mode c(1)] by blast
    have eq: "create_file_round start path mode flags ctx s =
        sbind ?c (\<lambda>x. case x of Inr m \<Rightarrow> sret (Inl m) | Inl m \<Rightarrow> (\<lambda>s. (open_existing m dir flags ctx1 s, s))) s"
      by (simp add: create_file_round_def Ok xx seg sbind_def slift_def ensure_def)
    show ?thesis
    proof (cases "\<exists>m. r = Ok (Inl m)")
      case True
      then obtain m where m: "r = Ok (Inl m)" by blast
      have t: "t = s" "alive s m" using c(2) m ent_alive [OF fs_invD(1) [OF inv], of dir name] by (auto simp: creates_def)
      have eq': "create_file_round start path mode flags ctx s = (open_existing m dir flags ctx1 s, s)"
        unfolding eq using c(1) by (simp add: sbind_def m t)
      have "symlink_recursion_limit ctx1 \<le> symlink_recursion_limit ctx" using f(1) by (simp add: same_user_def)
      with open_existing_safe [OF fs_invD(1) [OF inv] t(2), of dir ctx1 flags] show ?thesis
        using dir unfolding eq' by (cases "open_existing m dir flags ctx1 s") auto
    next
      case False
      then show ?thesis unfolding eq using c st
        by (cases r) (auto simp: sbind_def sret_def creates_def split: sum.splits)
    qed
  next
    case False
    then show ?thesis
      by (cases seg) (auto simp: create_file_round_def Ok xx sbind_def slift_def ensure_def)
  qed
next
  case Panic
  then show ?thesis using find_parent_safe [OF fs_invD(1) [OF inv] start, of path ctx] by simp
qed (auto simp: create_file_round_def sbind_def)

lemma create_file_runs:
  assumes "fs_inv s" "alive s start" "mode_ok mode"
  shows "runs s (create_file start path mode flags ctx s)"
  using assms
proof (induction start path mode flags ctx s rule: create_file.induct)
  case (1 start path mode flags ctx s)
  let ?R = "create_file_round start path mode flags ctx s"
  obtain r t where rt: "?R = (r, t)" "r \<noteq> Panic" "fs_step\<^sup>*\<^sup>* s t"
    "\<forall>dir target ctx'. r = Ok (Inr (dir, target, ctx')) \<longrightarrow>
      t = s \<and> alive s dir \<and> symlink_recursion_limit ctx' < symlink_recursion_limit ctx"
    using create_file_round_spec [OF "1.prems"] by blast
  show ?case
  proof (cases "\<exists>dir target ctx'. r = Ok (Inr (dir, target, ctx'))")
    case True
    then obtain dir target ctx' where r: "r = Ok (Inr (dir, target, ctx'))" by blast
    have c: "t = s \<and> alive s dir \<and> symlink_recursion_limit ctx' < symlink_recursion_limit ctx" using rt(4) r by blast
    have "runs s (create_file dir target mode flags ctx' t)"
      using "1.IH" [OF rt(1) [symmetric] r refl refl refl] c "1.prems" by metis
    then show ?thesis using rt r c by (simp add: create_file.simps [of start])
  next
    case False
    then show ?thesis using rt
      by (auto simp: create_file.simps [of start] runs_def split: outcome.splits sum.splits)
  qed
qed


lemma at_name_runs:
  assumes "fs_inv s" "alive s start"
    and "\<And>dir name trailing ctx'. alive s dir \<Longrightarrow> name_ok name \<Longrightarrow> same_user ctx ctx' \<Longrightarrow> runs s (act dir name trailing ctx' s)"
  shows "runs s (at_parent start path ctx (\<lambda>_. Some e) act s)"
  by (rule at_parent_runs [OF assms(1,2)]) (use assms(3) in auto)

lemma create_path_runs:
  assumes "fs_inv s" "alive s start" "mode_ok mode"
  shows "runs s (create_directory start path mode ctx s)" "runs s (create_fifo start path mode ctx s)"
    "runs s (create_char_dev start path major minor mode ctx s)"
proof -
  show "runs s (create_directory start path mode ctx s)" unfolding create_directory_def
    by (rule at_name_runs [OF assms(1,2)], rule runs_step)
      (auto intro: create_keeps [OF assms(1) _ _ assms(3)] fs_step.create_dir [OF _ _ assms(3)])
  show "runs s (create_fifo start path mode ctx s)" unfolding create_fifo_def
    by (rule at_name_runs [OF assms(1,2)], rule runs_step)
      (auto intro: create_keeps [OF assms(1) _ _ assms(3)] fs_step.create_fifo [OF _ _ assms(3)])
  show "runs s (create_char_dev start path major minor mode ctx s)" unfolding create_char_dev_def
    by (rule at_name_runs [OF assms(1,2)], rule runs_map, rule runs_step)
      (auto intro: create_keeps [OF assms(1) _ _ assms(3)] fs_step.create_char_dev [OF _ _ assms(3)])
qed

lemma create_link_runs:
  assumes "fs_inv s" "alive s start"
  shows "runs s (create_link start path target ctx s)"
  unfolding create_link_def
proof (rule at_name_runs [OF assms])
  fix dir name trailing ctx' assume a: "alive s dir" "name_ok name"
  let ?l = "dir_create_link dir name target (filesystem_user_id ctx') (filesystem_group_id ctx') True"
  have "runs s (?l s)" by (rule runs_step [OF create_link_keeps [OF assms(1) a]]) (rule fs_step.create_link [OF a])
  then have "runs s (sbind ?l (\<lambda>_. sret ()) s)" by (rule runs_map)
  moreover have "runs s (sbind (\<lambda>s. (get_node dir name s, s)) (\<lambda>_. slift (Err Exist :: unit result)) s)"
    by (rule runs_read [where g = "get_node dir name", OF get_node_safe [OF fs_invD(1) [OF assms(1)] a(1)]]) simp
  ultimately show "runs s ((if trailing then sbind (\<lambda>s. (get_node dir name s, s)) (\<lambda>_. slift (Err Exist)) else sbind ?l (\<lambda>_. sret ())) s)"
    by simp
qed

lemma check_writable_runs:
  assumes "fs_inv s" "alive s n" "runs s (f () s)"
  shows "runs s (sbind (check_writable n ctx) f s)"
proof -
  obtain x where x: "nodes s n = Some x" using assms(2) by auto
  have "safe (\<lambda>_. True) (rbind (stat_of n s) (\<lambda>st. check_permissions ctx st Write))"
    using stat_of_Ok(1) [OF fs_invD(1) [OF assms(1)] x] check_permissions_safe by simp
  then show ?thesis using assms(3)
    by (cases "rbind (stat_of n s) (\<lambda>st. check_permissions ctx st Write)") (simp_all add: check_writable_def sbind_def)
qed

lemma unlink_runs:
  assumes "fs_inv s" "alive s start"
  shows "runs s (unlink_file start path ctx s)" "path \<noteq> [] \<Longrightarrow> runs s (unlink_dir start path ctx s)"
proof -
  show "runs s (unlink_file start path ctx s)" unfolding unlink_file_def
    by (rule at_name_runs [OF assms], rule runs_ensure, rule check_writable_runs [OF assms(1)], assumption, rule runs_step)
      (auto intro: delete_keeps [OF assms(1)] fs_step.delete_non_dir)
  assume p: "path \<noteq> []"
  show "runs s (unlink_dir start path ctx s)" unfolding unlink_dir_def
  proof (rule at_parent_runs [OF assms])
    fix dir d name trailing ctx' assume "nodes s dir = Some (TmpFsDir d)"
    then have a: "alive s dir" by simp
    have "runs s (delete_dir dir name s)"
      by (rule runs_step [OF delete_keeps(2) [OF assms(1) a]]) (rule fs_step.delete_dir [OF a])
    then show "runs s (sbind (check_writable dir ctx') (\<lambda>_. delete_dir dir name) s)" by (rule check_writable_runs [OF assms(1) a])
  next
    fix dir seg tr ctx' assume "find_parent s start path ctx = Ok ((dir, seg, tr), ctx')" "\<And>name. seg \<noteq> FileName name"
    with find_parent_result(3) [OF this(1) p] show "(case seg of Root \<Rightarrow> Some NotEmpty | Dot \<Rightarrow> Some Inval | DotDot \<Rightarrow> Some NotEmpty | _ \<Rightarrow> None) \<noteq> None"
      by (cases seg) auto
  qed
qed

lemma mount_runs:
  assumes "fs_inv s" "mode_ok mode"
    and "\<And>d seg tr ctx'. find_parent s ROOT_NODE path ctx = Ok ((d, seg, tr), ctx') \<Longrightarrow> \<exists>name. seg = FileName name"
  shows "runs s (mount path (tmpfs_root mode uid gid) ctx s)"
  unfolding mount_def
proof (rule at_parent_runs [OF assms(1) root_alive [OF fs_invD(1) [OF assms(1)]]])
  fix dir d name trailing ctx' assume a: "nodes s dir = Some (TmpFsDir d)" "name_ok name"
  have "sbind (tmpfs_root mode uid gid (LMount dir name)) (\<lambda>m. dir_mount dir name m) s = mount_new dir name mode uid gid s"
    by (simp add: mount_new_def tmpfs_root_def sbind_def split: prod.splits)
  moreover have "runs s (mount_new dir name mode uid gid s)"
    by (rule runs_step [OF mount_keeps [OF assms(1) a assms(2)]]) (rule fs_step.mount [OF a assms(2)])
  ultimately show "runs s (sbind (tmpfs_root mode uid gid (LMount dir name)) (\<lambda>m. dir_mount dir name m) s)" by simp
next
  fix dir seg tr ctx' assume "find_parent s ROOT_NODE path ctx = Ok ((dir, seg, tr), ctx')" "\<And>name. seg \<noteq> FileName name"
  then show "None \<noteq> None" using assms(3) by blast
qed


lemma hard_link_round_spec:
  assumes inv: "fs_inv s" and few: "few_links s" and p: "alive s new_parent" "name_ok new_name" and start: "alive s dir"
  shows "\<exists>r t. hard_link_round new_parent new_name dir path follow ctx s = (r, t) \<and> r \<noteq> Panic \<and> fs_step\<^sup>*\<^sup>* s t \<and>
    (\<forall>dir' target ctx'. r = Ok (Some (dir', target, ctx')) \<longrightarrow>
      t = s \<and> alive s dir' \<and> symlink_recursion_limit ctx' < symlink_recursion_limit ctx)"
proof (cases "find_parent s dir path ctx")
  case (Ok x)
  obtain old seg trailing ctx1 where xx: "x = ((old, seg, trailing), ctx1)" by (metis surj_pair)
  note f = find_parent_result [OF Ok [unfolded xx]]
  have old: "alive s old" using find_parent_safe [OF fs_invD(1) [OF inv] start, of path ctx] Ok by (auto simp: xx)
  show ?thesis
  proof (cases "(\<exists>name. seg = FileName name) \<and> \<not> trailing")
    case True
    then obtain name where seg: "seg = FileName name" "\<not> trailing" by blast
    let ?l = "dir_hard_link old name follow new_parent new_name"
    obtain r t where l: "?l s = (r, t)" by fastforce
    have st: "fs_step\<^sup>*\<^sup>* s t" using fs_step.hard_link [OF old p(1) few p(2) l] by blast
    have np: "r \<noteq> Panic" using hard_link_keeps [OF inv old p(1) few p(2), of name follow] l by (simp add: keeps_def)
    have eq: "hard_link_round new_parent new_name dir path follow ctx s =
        sbind ?l (\<lambda>x. case x of
            Some target \<Rightarrow> sbind (slift (follow_symlink ctx1)) (\<lambda>ctx2. sret (Some (old, target, ctx2)))
          | None \<Rightarrow> sret None) s"
      by (simp add: hard_link_round_def Ok xx seg sbind_def slift_def ensure_def)
    show ?thesis
    proof (cases "\<exists>target. r = Ok (Some target)")
      case True
      then obtain target where r: "r = Ok (Some target)" by blast
      have t: "t = s" using dir_hard_link_spec [OF fs_invD(1) [OF inv] old p(1) few, of name follow new_name] l r by auto
      have lim: "symlink_recursion_limit ctx1 \<le> symlink_recursion_limit ctx" using f(1) by (simp add: same_user_def)
      have "follow_symlink ctx1 \<noteq> Panic" by (simp add: follow_symlink_def)
      then show ?thesis using old lim follow_symlink_less [of ctx1] unfolding eq
        by (cases "follow_symlink ctx1") (auto simp: sbind_def l r t slift_def sret_def word_le_nat_alt word_less_nat_alt)
    next
      case False
      then show ?thesis unfolding eq using l st np by (cases r) (auto simp: sbind_def sret_def split: option.splits)
    qed
  next
    case False
    then show ?thesis by (cases seg) (auto simp: hard_link_round_def Ok xx sbind_def slift_def ensure_def)
  qed
next
  case Panic
  then show ?thesis using find_parent_safe [OF fs_invD(1) [OF inv] start, of path ctx] by simp
qed (auto simp: hard_link_round_def sbind_def)

lemma hard_link_loop_runs:
  assumes "fs_inv s" "few_links s" "alive s new_parent" "name_ok new_name" "alive s dir"
  shows "runs s (hard_link_loop new_parent new_name dir path follow ctx s)"
  using assms
proof (induction new_parent new_name dir path follow ctx s rule: hard_link_loop.induct)
  case (1 new_parent new_name dir path follow ctx s)
  let ?R = "hard_link_round new_parent new_name dir path follow ctx s"
  obtain r t where rt: "?R = (r, t)" "r \<noteq> Panic" "fs_step\<^sup>*\<^sup>* s t"
    "\<forall>dir' target ctx'. r = Ok (Some (dir', target, ctx')) \<longrightarrow>
      t = s \<and> alive s dir' \<and> symlink_recursion_limit ctx' < symlink_recursion_limit ctx"
    using hard_link_round_spec [OF "1.prems"] by blast
  show ?case
  proof (cases "\<exists>dir' target ctx'. r = Ok (Some (dir', target, ctx'))")
    case True
    then obtain dir' target ctx' where r: "r = Ok (Some (dir', target, ctx'))" by blast
    have c: "t = s \<and> alive s dir' \<and> symlink_recursion_limit ctx' < symlink_recursion_limit ctx" using rt(4) r by blast
    have "runs s (hard_link_loop new_parent new_name dir' target follow ctx' t)"
      using "1.IH" [OF rt(1) [symmetric] r refl refl refl] c "1.prems" by metis
    then show ?thesis using rt r c by (simp add: hard_link_loop.simps [of _ _ dir])
  next
    case False
    then show ?thesis using rt
      by (auto simp: hard_link_loop.simps [of _ _ dir] runs_def split: outcome.splits option.splits)
  qed
qed

lemma hard_link_runs:
  assumes "fs_inv s" "few_links s" "alive s start" "alive s target_dir"
  shows "runs s (hard_link start path target_dir target_path follow ctx s)"
  unfolding hard_link_def
  by (rule at_name_runs [OF assms(1,3)], rule check_writable_runs [OF assms(1)], assumption)
    (rule hard_link_loop_runs [OF assms(1,2) _ _ assms(4)])

lemma rename_ends_safe:
  assumes inv: "fs_inv s" and d: "alive s oldd" "alive s newd"
  shows "safe (\<lambda>x. alive s (fst (fst x)) \<and> name_ok (snd (fst x)) \<and> alive s (fst (snd x)) \<and> name_ok (snd (snd x)))
    (rename_ends oldd old_path newd new_path at_new ctx s)"
proof -
  note ok = fs_invD(1) [OF inv]
  have w: "safe (\<lambda>_. True) (rbind (stat_of n s) (\<lambda>st. check_permissions c st Write))" if "alive s n" for n c
    using that stat_of_Ok(1) [OF ok] check_permissions_safe by fastforce
  show ?thesis
  proof (cases "find_parent s oldd old_path ctx")
    case (Ok x)
    obtain n seg tr ctx1 where x: "x = ((n, seg, tr), ctx1)" by (metis surj_pair)
    note f = find_parent_result [OF Ok [unfolded x]]
    have n: "alive s n" using find_parent_safe [OF ok d(1), of old_path ctx] Ok by (auto simp: x)
    show ?thesis
    proof (cases "find_parent s newd new_path ctx1")
      case Ok': (Ok y)
      obtain n' seg' tr' ctx2 where y: "y = ((n', seg', tr'), ctx2)" by (metis surj_pair)
      note f' = find_parent_result [OF Ok' [unfolded y]]
      have n': "alive s n'" using find_parent_safe [OF ok d(2), of new_path ctx1] Ok' by (auto simp: y)
      obtain st st' where st: "stat_of n s = Ok st" "stat_of n' s = Ok st'" using stat_of_Ok(1) [OF ok] n n' by blast
      show ?thesis
        using f(2) f'(2) n n' w [OF n, of ctx2] w [OF n', of ctx2]
        by (cases seg; cases seg'; cases "check_permissions ctx2 st Write"; cases "check_permissions ctx2 st' Write")
          (simp_all add: rename_ends_def Ok x Ok' y st)
    next
      case Panic
      then show ?thesis using find_parent_safe [OF ok d(2), of new_path ctx1] by simp
    qed (cases seg; simp add: rename_ends_def Ok x)
  next
    case Panic
    then show ?thesis using find_parent_safe [OF ok d(1), of old_path ctx] by simp
  qed (simp add: rename_ends_def)
qed

lemma rename_runs:
  assumes "fs_inv s" "alive s oldd" "alive s newd"
  shows "\<exists>x. rename oldd old_path newd new_path no_replace ctx s = Some x \<and> runs s x"
proof (cases "rename_ends oldd old_path newd new_path Exist ctx s")
  case (Ok x)
  obtain n a n' b where x: "x = ((n, a), (n', b))" by (metis surj_pair)
  have e: "alive s n" "alive s n'" "name_ok b" using rename_ends_safe [OF assms, of old_path new_path Exist ctx] Ok by (auto simp: x)
  let ?c = "has_trailing_slash old_path \<or> has_trailing_slash new_path"
  obtain y where y: "dir_rename n a ?c n' b no_replace s = Some y" "keeps y" using rename_keeps [OF assms(1) e] by blast
  have "runs s y" by (rule runs_step [OF y(2)]) (use fs_step.rename [OF e] y(1) in blast)
  then show ?thesis using y(1) by (simp add: rename_def Ok x)
next
  case Panic
  then show ?thesis using rename_ends_safe [OF assms, of old_path new_path Exist ctx] by simp
qed (simp add: rename_def)

lemma exchange_runs:
  assumes "fs_inv s" "alive s oldd" "alive s newd" "few_links s"
    and plain: "\<And>n a n' b. rename_ends oldd old_path newd new_path IsDir ctx s = Ok ((n, a), (n', b)) \<Longrightarrow>
      plain_entry n a s \<and> plain_entry n' b s"
  shows "\<exists>x. exchange oldd old_path newd new_path ctx s = Some x \<and> runs s x"
proof (cases "rename_ends oldd old_path newd new_path IsDir ctx s")
  case (Ok x)
  obtain n a n' b where x: "x = ((n, a), (n', b))" by (metis surj_pair)
  have e: "alive s n" "alive s n'" "few_links s" "name_ok a" "name_ok b" "plain_entry n a s" "plain_entry n' b s"
    using rename_ends_safe [OF assms(1-3), of old_path new_path IsDir ctx] plain [OF Ok [unfolded x]] Ok assms(4) by (auto simp: x)
  obtain y where y: "dir_exchange n a n' b s = Some y" "keeps y" using exchange_keeps [OF assms(1) e] by blast
  have "runs s y" by (rule runs_step [OF y(2)]) (use fs_step.exchange [OF e] y(1) in blast)
  then show ?thesis using y(1) by (simp add: exchange_def Ok x)
next
  case Panic
  then show ?thesis using rename_ends_safe [OF assms(1-3), of old_path new_path IsDir ctx] by simp
qed (simp add: exchange_def)

end
