(* ===== verification/Path_Operations.thy ===== *)
theory Path_Operations
  imports File_System
begin

text \<open>
  The properties of the file system: the operations on paths of \<^verbatim>\<open>fs/node.rs\<close> on the reachable
  states of \<^verbatim>\<open>tmpfs.rs\<close>. The tree stays a tree, the operations return, lookups agree with the
  iterative lookup, the path of a directory leads to it, renames refine their specification,
  entries are only removed or replaced by users who may write to the directory, and what an
  exchange of directories does to their locations.
\<close>

section \<open>Operations on paths\<close>

datatype path_op =
    Op_create_file nid path u64 u64
  | Op_create_directory nid path u64
  | Op_create_link nid path path
  | Op_create_fifo nid path u64
  | Op_create_char_dev nid path u16 u8 u64
  | Op_mount path u64 u32 u32
  | Op_unlink_file nid path
  | Op_unlink_dir nid path
  | Op_hard_link nid path nid path bool
  | Op_rename nid path nid path bool
  | Op_exchange nid path nid path

definition forget :: "'a result \<times> fs \<Rightarrow> unit result \<times> fs" where
  "forget x = (rmap (\<lambda>_. ()) (fst x), snd x)"

fun run_op :: "path_op \<Rightarrow> file_access_context \<Rightarrow> fs \<Rightarrow> (unit result \<times> fs) option" where
  "run_op (Op_create_file start path mode flags) ctx s = Some (forget (create_file start path mode flags ctx s))"
| "run_op (Op_create_directory start path mode) ctx s = Some (forget (create_directory start path mode ctx s))"
| "run_op (Op_create_link start path target) ctx s = Some (create_link start path target ctx s)"
| "run_op (Op_create_fifo start path mode) ctx s = Some (create_fifo start path mode ctx s)"
| "run_op (Op_create_char_dev start path major minor mode) ctx s = Some (create_char_dev start path major minor mode ctx s)"
| "run_op (Op_mount path mode uid gid) ctx s = Some (mount path (tmpfs_root mode uid gid) ctx s)"
| "run_op (Op_unlink_file start path) ctx s = Some (unlink_file start path ctx s)"
| "run_op (Op_unlink_dir start path) ctx s = Some (unlink_dir start path ctx s)"
| "run_op (Op_hard_link start path target_dir target_path follow) ctx s =
     Some (hard_link start path target_dir target_path follow ctx s)"
| "run_op (Op_rename oldd old_path newd new_path no_replace) ctx s = rename oldd old_path newd new_path no_replace ctx s"
| "run_op (Op_exchange oldd old_path newd new_path) ctx s = exchange oldd old_path newd new_path ctx s"

text \<open>
  What the callers provide: directories that are alive (they hold a handle), modes of the twelve
  mode bits, paths that are not empty (\<^verbatim>\<open>Path::new\<close>). Mounting needs a path that ends in a name;
  link counts must not be at their limit; exchanges are those of entries that are no directories.
\<close>

fun op_ok :: "path_op \<Rightarrow> file_access_context \<Rightarrow> fs \<Rightarrow> bool" where
  "op_ok (Op_create_file start path mode flags) ctx s \<longleftrightarrow> alive s start \<and> mode_ok mode"
| "op_ok (Op_create_directory start path mode) ctx s \<longleftrightarrow> alive s start \<and> mode_ok mode"
| "op_ok (Op_create_link start path target) ctx s \<longleftrightarrow> alive s start"
| "op_ok (Op_create_fifo start path mode) ctx s \<longleftrightarrow> alive s start \<and> mode_ok mode"
| "op_ok (Op_create_char_dev start path major minor mode) ctx s \<longleftrightarrow> alive s start \<and> mode_ok mode"
| "op_ok (Op_mount path mode uid gid) ctx s \<longleftrightarrow> mode_ok mode \<and>
     (\<forall>d seg tr ctx'. find_parent s ROOT_NODE path ctx = Ok ((d, seg, tr), ctx') \<longrightarrow> (\<exists>name. seg = FileName name))"
| "op_ok (Op_unlink_file start path) ctx s \<longleftrightarrow> alive s start"
| "op_ok (Op_unlink_dir start path) ctx s \<longleftrightarrow> alive s start \<and> path \<noteq> []"
| "op_ok (Op_hard_link start path target_dir target_path follow) ctx s \<longleftrightarrow>
     alive s start \<and> alive s target_dir \<and> few_links s"
| "op_ok (Op_rename oldd old_path newd new_path no_replace) ctx s \<longleftrightarrow> alive s oldd \<and> alive s newd"
| "op_ok (Op_exchange oldd old_path newd new_path) ctx s \<longleftrightarrow> alive s oldd \<and> alive s newd \<and> few_links s \<and>
     (\<forall>n a n' b. rename_ends oldd old_path newd new_path IsDir ctx s = Ok ((n, a), (n', b)) \<longrightarrow>
       plain_entry n a s \<and> plain_entry n' b s)"

declare create_file.simps [simp del] hard_link_loop.simps [simp del]

lemma forget_runs: "runs s x \<Longrightarrow> runs s (forget x)"
  by (cases "fst x") (auto simp: runs_def forget_def)

lemma run_op_runs:
  assumes "fs_inv s" "op_ok op ctx s"
  shows "\<exists>x. run_op op ctx s = Some x \<and> runs s x"
proof (cases op)
  case (Op_mount path mode uid gid)
  then show ?thesis using mount_runs [OF assms(1), of mode path ctx uid gid] assms(2) by auto
next
  case (Op_exchange oldd old_path newd new_path)
  then show ?thesis using exchange_runs [OF assms(1), of oldd newd old_path new_path ctx] assms(2) by auto
next
  case (Op_rename oldd old_path newd new_path no_replace)
  then show ?thesis using rename_runs [OF assms(1)] assms(2) by auto
qed (use assms in \<open>auto intro: forget_runs create_file_runs create_path_runs create_link_runs unlink_runs hard_link_runs\<close>)

lemma reachable_steps: "fs_step\<^sup>*\<^sup>* s t \<Longrightarrow> reachable fs_init fs_step s \<Longrightarrow> reachable fs_init fs_step t"
  by (induction rule: rtranclp_induct) (auto intro: reachable.step)

section \<open>Paths of directories\<close>

text \<open>The directories that can be reached from the root.\<close>

inductive attached :: "fs \<Rightarrow> nid \<Rightarrow> bool" for s where
  root: "attached s ROOT_NODE"
| below: "attached s p \<Longrightarrow> ent s (p, name) = Some (EDir m) \<Longrightarrow> attached s m"
| mounted: "attached s p \<Longrightarrow> ent s (p, name) = Some (EMount m) \<Longrightarrow> kd s m = Some (KDir dev (LMount p name)) \<Longrightarrow> attached s m"

definition searchable :: "fs \<Rightarrow> file_access_context \<Rightarrow> bool" where
  "searchable s ctx \<longleftrightarrow> (\<forall>n d. nodes s n = Some (TmpFsDir d) \<longrightarrow> check_permissions ctx (node_stat n (TmpFsDir d)) Execute = Ok ())"

lemma attached_dir:
  assumes "fs_inv s" "attached s m"
  obtains d where "nodes s m = Some (TmpFsDir d)"
  using assms(2)
proof cases
  case root
  then show thesis using shape_okD(1) [OF tree_okD(2) [OF fs_invD(1) [OF assms(1)]]] that by (auto elim: kd_DirE)
next
  case (below p name)
  then show thesis using fs_invD(2) [OF assms(1)] that unfolding linked_def by (metis kd_DirE)
next
  case (mounted p name dev)
  then show thesis using that by (metis kd_DirE)
qed

lemma check_dir_searchable:
  assumes "tree_ok s" "searchable s ctx" "nodes s n = Some (TmpFsDir d)"
  shows "check_dir n s ctx b = Ok ()"
  using stat_of_Ok [OF assms(1,3)] assms(2,3) by (simp add: check_dir_def searchable_def ensure_def)

lemma lookup_name:
  assumes "tree_ok s" "searchable s ctx" "nodes s n = Some (TmpFsDir d)" "ent s (n, name) = Some e"
  shows "lookup_segments s [FileName name] (d0, n) ctx = Ok ((n, entry_node e), ctx)"
  using check_dir_searchable [OF assms(1-3), of True] assms(3,4)
  by (simp add: lookup_segments_Cons resolve_links_plain is_link_def deref_def lookup_segment_def get_node_def as_dir_def ent_dir ok_or_def)

lemma lookup_root:
  assumes "tree_ok s" "searchable s ctx" "nodes s n = Some (TmpFsDir d)"
  shows "lookup_segments s [Root] (d0, n) ctx = Ok ((ROOT_NODE, ROOT_NODE), ctx)"
  using check_dir_searchable [OF assms(1-3), of True] assms(3)
  by (simp add: lookup_segments_Cons resolve_links_plain is_link_def deref_def lookup_segment_def)

lemma dir_path_parent:
  assumes "nodes s m = Some (TmpFsDir d)" "d_location d = LDirectory p name \<or> d_location d = LMount p name" "alive s p"
  shows "dir_path s m = Option.bind (dir_path s p) (\<lambda>r. Some (rbind r (\<lambda>path. join_segment path name)))"
  using assms by (subst dir_path.simps) (auto simp: as_dir_def deref_def location_get_def)

text \<open>Where the path of an attached directory leads.\<close>

definition leads_to :: "fs \<Rightarrow> file_access_context \<Rightarrow> path \<Rightarrow> nid \<Rightarrow> bool" where
  "leads_to s ctx p m \<longleftrightarrow> p = [slash] \<and> m = ROOT_NODE \<or>
     p \<noteq> [] \<and> \<not> has_trailing_slash p \<and> (\<forall>n0 d0. nodes s n0 = Some (TmpFsDir d0) \<longrightarrow>
       (\<exists>d. lookup_segments s (segments_spec p) (n0, n0) ctx = Ok ((d, m), ctx)))"

lemma leads_to_join:
  assumes ok: "tree_ok s" "searchable s ctx" and p: "leads_to s ctx p n" "nodes s n = Some (TmpFsDir d)"
    and e: "ent s (n, name) = Some e" "name_ok name" and j: "join_segment p name = Ok q"
  shows "leads_to s ctx q (entry_node e)"
proof -
  have q: "q = (if has_trailing_slash p then p else p @ [slash]) @ name" using j by (simp add: join_segment_def ensure_def Let_def split: if_splits)
  have ne: "p \<noteq> []" using p(1) by (auto simp: leads_to_def)
  have segs: "segments_spec q = (if has_trailing_slash p then butlast (segments_spec p) else segments_spec p) @ [FileName name]"
    using segments_spec_join [OF ne e(2)] by (simp add: q)
  have "last name \<noteq> slash" using e(2) last_in_set [of name] unfolding name_ok_def by metis
  then have tr: "q \<noteq> []" "\<not> has_trailing_slash q" using e(2) by (auto simp: q has_trailing_slash_def name_ok_def)
  have "\<exists>d'. lookup_segments s (segments_spec q) (n0, n0) ctx = Ok ((d', entry_node e), ctx)" if n0: "nodes s n0 = Some (TmpFsDir d0)" for n0 d0
  proof (cases "p = [slash] \<and> n = ROOT_NODE")
    case True
    then have "segments_spec q = [Root] @ [FileName name]"
      unfolding segs by (simp add: has_trailing_slash_def segments_spec_def is_absolute_def)
    then show ?thesis using True lookup_root [OF ok n0] lookup_name [OF ok p(2) e(1)]
        lookup_segments_append [of s "[Root]" "[FileName name]"] by simp
  next
    case False
    then have *: "\<not> has_trailing_slash p" "\<exists>d. lookup_segments s (segments_spec p) (n0, n0) ctx = Ok ((d, n), ctx)"
      using p(1) n0 by (auto simp: leads_to_def)
    then show ?thesis unfolding segs using lookup_name [OF ok p(2) e(1)] by (auto simp: lookup_segments_append)
  qed
  then show ?thesis using tr by (auto simp: leads_to_def)
qed

lemma dir_path_step:
  assumes inv: "fs_inv s" and ctx: "searchable s ctx" and p: "attached s p"
    and r: "dir_path s p = Some r" "r = Err NameTooLong \<or> (\<exists>path. r = Ok path \<and> leads_to s ctx path p)"
    and m: "nodes s m = Some (TmpFsDir d)" "d_location d = LDirectory p name \<or> d_location d = LMount p name"
    and e: "ent s (p, name) = Some e" "entry_node e = m"
  shows "\<exists>r. dir_path s m = Some r \<and> (r = Err NameTooLong \<or> (\<exists>path. r = Ok path \<and> leads_to s ctx path m))"
proof -
  obtain dp where dp: "nodes s p = Some (TmpFsDir dp)" by (rule attached_dir [OF inv p])
  have name: "name_ok name" using fs_invD(4) [OF inv] e(1) unfolding names_ok_def by blast
  have path: "dir_path s m = Some (rbind r (\<lambda>path. join_segment path name))"
    using dir_path_parent [OF m] dp r(1) by simp
  show ?thesis
  proof (cases r)
    case (Ok path)
    then have l: "leads_to s ctx path p" using r(2) by simp
    show ?thesis
    proof (cases "join_segment path name")
      case j: (Ok q)
      from leads_to_join [OF fs_invD(1) [OF inv] ctx l dp e(1) name j] show ?thesis by (simp add: path Ok j e(2))
    qed (auto simp: path Ok join_segment_def Let_def ensure_def split: if_splits)
  qed (use r(2) in \<open>auto simp: path\<close>)
qed

lemma dir_path_leads:
  assumes inv: "fs_inv s" and ctx: "searchable s ctx" and m: "attached s m"
  shows "\<exists>r. dir_path s m = Some r \<and> (r = Err NameTooLong \<or> (\<exists>p. r = Ok p \<and> leads_to s ctx p m))"
  using m
proof induction
  case root
  obtain d where d: "nodes s ROOT_NODE = Some (TmpFsDir d)" "d_location d = LRoot"
    using shape_okD(1) [OF tree_okD(2) [OF fs_invD(1) [OF inv]]] by (auto elim: kd_DirE)
  have "dir_path s ROOT_NODE = Some (Ok [slash])"
    using d by (subst dir_path.simps) (simp add: as_dir_def deref_def location_get_def Path_new_def ensure_def)
  then show ?case by (auto simp: leads_to_def)
next
  case (below p name m)
  then obtain d where d: "nodes s m = Some (TmpFsDir d)" "d_location d = LDirectory p name"
    using fs_invD(2) [OF inv] unfolding linked_def by (metis kd_DirE)
  from below.IH obtain r where r: "dir_path s p = Some r" "r = Err NameTooLong \<or> (\<exists>path. r = Ok path \<and> leads_to s ctx path p)" by blast
  show ?case by (rule dir_path_step [OF inv ctx below.hyps(1) r d(1) _ below.hyps(2)]) (simp_all add: d(2))
next
  case (mounted p name m dev)
  then obtain d where d: "nodes s m = Some (TmpFsDir d)" "d_location d = LMount p name" by (metis kd_DirE)
  from mounted.IH obtain r where r: "dir_path s p = Some r" "r = Err NameTooLong \<or> (\<exists>path. r = Ok path \<and> leads_to s ctx path p)" by blast
  show ?case by (rule dir_path_step [OF inv ctx mounted.hyps(1) r d(1) _ mounted.hyps(2)]) (simp_all add: d(2))
qed

lemma leads_to_lookup:
  assumes ok: "tree_ok s" "searchable s ctx" and p: "leads_to s ctx p m" and start: "nodes s start = Some (TmpFsDir d)"
  shows "lookup_node s start p ctx = Ok (m, ctx)"
proof (cases "p = [slash] \<and> m = ROOT_NODE")
  case True
  obtain r where "nodes s ROOT_NODE = Some (TmpFsDir r)"
    using shape_okD(1) [OF tree_okD(2) [OF ok(1)]] by (auto elim: kd_DirE)
  from check_dir_searchable [OF ok this, of True] this
  have "lookup_segments s [Empty] (ROOT_NODE, ROOT_NODE) ctx = Ok ((ROOT_NODE, ROOT_NODE), ctx)"
    by (simp add: lookup_segments_Cons resolve_links_plain is_link_def deref_def lookup_segment_def)
  moreover have "segments_spec p = [Root] @ [Empty]" using True by (simp add: segments_spec_def is_absolute_def piece_def)
  ultimately show ?thesis using True lookup_root [OF ok start, of start] lookup_segments_append [of s "[Root]" "[Empty]"]
    by (simp add: lookup_node_def lookup_node_with_parent_def segments_eq_spec)
next
  case False
  then obtain d' where "lookup_segments s (segments_spec p) (start, start) ctx = Ok ((d', m), ctx)"
    using p start by (auto simp: leads_to_def)
  then show ?thesis by (simp add: lookup_node_def lookup_node_with_parent_def segments_eq_spec)
qed


section \<open>Who may change a directory\<close>

definition writable :: "fs \<Rightarrow> file_access_context \<Rightarrow> nid \<Rightarrow> bool" where
  "writable s ctx n \<longleftrightarrow> (\<exists>st. stat_of n s = Ok st \<and> check_permissions ctx st Write = Ok ())"

definition changes_only :: "(nid \<times> file_name) set \<Rightarrow> fs \<Rightarrow> fs \<Rightarrow> bool" where
  "changes_only X s t \<longleftrightarrow> (\<forall>x. x \<notin> X \<longrightarrow> ent t x = ent s x)"

lemma check_permissions_user: "same_user ctx ctx' \<Longrightarrow> check_permissions ctx' st p = check_permissions ctx st p"
  by (simp add: check_permissions_def same_user_def is_user_def is_in_group_def)

lemma writable_user: "same_user ctx ctx' \<Longrightarrow> writable s ctx' n = writable s ctx n"
  by (simp add: writable_def check_permissions_user)

lemma changes_only_refl [simp]: "changes_only X s s"
  by (simp add: changes_only_def)

lemma changes_only_touched: "touched s t \<Longrightarrow> changes_only X s t"
  by (simp add: changes_only_def touched_def becomes_def)

lemma at_parent_cases:
  assumes "at_parent start path ctx otherwise act s = (r, t)"
  obtains "t = s"
  | dir name trailing ctx' where "find_parent s start path ctx = Ok ((dir, FileName name, trailing), ctx')"
      "act dir name trailing ctx' s = (r, t)"
proof (cases "find_parent s start path ctx")
  case (Ok x)
  obtain dir seg trailing ctx' where xx: "x = ((dir, seg, trailing), ctx')" by (metis surj_pair)
  show thesis using assms that(1) that(2) [of dir _ trailing ctx'] Ok
    by (cases seg) (auto simp: at_parent_def sbind_def xx slift_def)
qed (use assms that(1) in \<open>auto simp: at_parent_def sbind_def\<close>)

lemma check_writable_cases:
  assumes "sbind (check_writable n ctx) f s = (r, t)"
  obtains "t = s" | "writable s ctx n" "f () s = (r, t)"
  using assms by (cases "rbind (stat_of n s) (\<lambda>st. check_permissions ctx st Write)")
    (auto simp: check_writable_def sbind_def writable_def result_simps)

lemma delete_changes:
  assumes "tree_ok s" "alive s n"
  shows "delete_non_dir n name s = (r, t) \<Longrightarrow> changes_only {(n, name)} s t"
    and "delete_dir n name s = (r, t) \<Longrightarrow> changes_only {(n, name)} s t"
  using delete_non_dir_spec [OF assms, of name] delete_dir_spec [OF assms, of name]
  by (cases r; auto simp: changes_only_def removed_def)+

lemma find_parent_alive:
  assumes "fs_inv s" "alive s start" "find_parent s start path ctx = Ok ((dir, seg, tr), ctx')"
  shows "alive s dir" "same_user ctx ctx'"
  using find_parent_safe [OF fs_invD(1) [OF assms(1)] assms(2), of path ctx] find_parent_result(1) [OF assms(3)] assms(3) by auto

lemma unlink_changes:
  assumes "fs_inv s" "alive s start" "unlink_file start path ctx s = (r, t) \<or> unlink_dir start path ctx s = (r, t)"
  shows "\<exists>X. changes_only X s t \<and> (\<forall>x \<in> X. writable s ctx (fst x))"
proof -
  have *: "\<exists>X. changes_only X s t \<and> (\<forall>x \<in> X. writable s ctx (fst x))"
    if f: "find_parent s start path ctx = Ok ((dir, FileName name, tr), ctx')"
      and w: "sbind (check_writable dir ctx') (\<lambda>_. del dir name) s = (r, t)"
      and del: "del = delete_non_dir \<or> del = delete_dir" for dir name tr ctx' del
    using w
  proof (cases rule: check_writable_cases)
    case 2
    note a = find_parent_alive [OF assms(1,2) f]
    have "changes_only {(dir, name)} s t" using delete_changes [OF fs_invD(1) [OF assms(1)] a(1)] 2(2) del by auto
    then show ?thesis using 2(1) writable_user [OF a(2)] by (intro exI [of _ "{(dir, name)}"]) simp
  qed (auto intro: exI [of _ "{}"])
  from assms(3) show ?thesis
  proof
    assume "unlink_file start path ctx s = (r, t)"
    then show ?thesis unfolding unlink_file_def
    proof (cases rule: at_parent_cases)
      case (2 dir name trailing ctx')
      then show ?thesis using * [OF 2(1), of delete_non_dir]
        by (cases trailing) (auto simp: sbind_def slift_def ensure_def intro: exI [of _ "{}"])
    qed (auto intro: exI [of _ "{}"])
  next
    assume "unlink_dir start path ctx s = (r, t)"
    then show ?thesis unfolding unlink_dir_def
    proof (cases rule: at_parent_cases)
      case (2 dir name trailing ctx')
      then show ?thesis using * [OF 2(1), of delete_dir] by auto
    qed (auto intro: exI [of _ "{}"])
  qed
qed

lemma hard_link_round_changes:
  assumes "fs_inv s" "few_links s" "alive s new_parent" "alive s dir"
    and "hard_link_round new_parent new_name dir path follow ctx s = (r, t)"
  shows "changes_only {(new_parent, new_name)} s t"
proof (cases "find_parent s dir path ctx")
  case (Ok x)
  obtain old seg trailing ctx1 where xx: "x = ((old, seg, trailing), ctx1)" by (metis surj_pair)
  note a = find_parent_alive [OF assms(1,4) Ok [unfolded xx]]
  show ?thesis
  proof (cases "(\<exists>name. seg = FileName name) \<and> \<not> trailing")
    case True
    then obtain name where seg: "seg = FileName name" "\<not> trailing" by blast
    obtain r' t' where l: "dir_hard_link old name follow new_parent new_name s = (r', t')" by fastforce
    have t: "t = t'" using assms(5) l follow_symlink_user
      by (cases r'; cases "follow_symlink ctx1") (auto simp: hard_link_round_def Ok xx seg sbind_def slift_def sret_def ensure_def split: option.splits)
    show ?thesis unfolding t
      using dir_hard_link_spec [OF fs_invD(1) [OF assms(1)] a(1) assms(3,2), of name follow new_name] l
      by (cases r') (auto simp: changes_only_def hard_linked_def touched_def becomes_def split: option.splits)
  next
    case False
    then show ?thesis using assms(5)
      by (cases seg; cases trailing) (auto simp: hard_link_round_def Ok xx sbind_def slift_def ensure_def)
  qed
qed (use assms(5) in \<open>auto simp: hard_link_round_def sbind_def\<close>)

lemma hard_link_loop_changes:
  "fs_inv s \<Longrightarrow> few_links s \<Longrightarrow> alive s new_parent \<Longrightarrow> name_ok new_name \<Longrightarrow> alive s dir \<Longrightarrow>
   hard_link_loop new_parent new_name dir path follow ctx s = (r, t) \<Longrightarrow> changes_only {(new_parent, new_name)} s t"
proof (induction new_parent new_name dir path follow ctx s rule: hard_link_loop.induct)
  case (1 new_parent new_name dir path follow ctx s)
  obtain r1 t1 where rt: "hard_link_round new_parent new_name dir path follow ctx s = (r1, t1)"
    "\<forall>dir' target ctx'. r1 = Ok (Some (dir', target, ctx')) \<longrightarrow>
      t1 = s \<and> alive s dir' \<and> symlink_recursion_limit ctx' < symlink_recursion_limit ctx"
    using hard_link_round_spec [OF "1.prems"(1-5)] by blast
  show ?case
  proof (cases "\<exists>dir' target ctx'. r1 = Ok (Some (dir', target, ctx'))")
    case True
    then obtain dir' target ctx' where r1: "r1 = Ok (Some (dir', target, ctx'))" by blast
    have c: "t1 = s" "alive s dir'" "symlink_recursion_limit ctx' < symlink_recursion_limit ctx" using rt(2) r1 by blast+
    have "hard_link_loop new_parent new_name dir' target follow ctx' s = (r, t)"
      using "1.prems"(6) rt(1) r1 c by (simp add: hard_link_loop.simps [of _ _ dir])
    then show ?thesis
      using "1.IH" [OF rt(1) [symmetric] r1 refl refl refl] c "1.prems"(1-4) by metis
  next
    case False
    have "t = t1" using False "1.prems"(6) rt(1)
      by (cases r1) (auto simp: hard_link_loop.simps [of _ _ dir] split: option.splits prod.splits)
    then show ?thesis using hard_link_round_changes [OF "1.prems"(1,2,3,5) rt(1)] by simp
  qed
qed

lemma hard_link_changes:
  assumes "fs_inv s" "few_links s" "alive s start" "alive s target_dir"
    and "hard_link start path target_dir target_path follow ctx s = (r, t)"
  shows "\<exists>X. changes_only X s t \<and> (\<forall>x \<in> X. writable s ctx (fst x))"
  using assms(5) unfolding hard_link_def
proof (cases rule: at_parent_cases)
  case (2 dir name trailing ctx')
  note a = find_parent_alive [OF assms(1,3) 2(1)]
  from 2(2) show ?thesis
  proof (cases rule: check_writable_cases)
    case w: 2
    have "changes_only {(dir, name)} s t"
      by (rule hard_link_loop_changes [OF assms(1,2) a(1) _ assms(4) w(2)]) (use find_parent_result(2) [OF 2(1)] in blast)
    then show ?thesis using w(1) writable_user [OF a(2)] by (intro exI [of _ "{(dir, name)}"]) simp
  qed (auto intro: exI [of _ "{}"])
qed (auto intro: exI [of _ "{}"])

lemma rename_ends_writable:
  assumes "rename_ends oldd old_path newd new_path at_new ctx s = Ok ((n, a), (n', b))"
  shows "writable s ctx n" "writable s ctx n'"
proof -
  obtain seg tr ctx1 seg' tr' ctx2 st st' where *: "find_parent s oldd old_path ctx = Ok ((n, seg, tr), ctx1)"
    "find_parent s newd new_path ctx1 = Ok ((n', seg', tr'), ctx2)" "stat_of n s = Ok st" "check_permissions ctx2 st Write = Ok ()"
    "stat_of n' s = Ok st'" "check_permissions ctx2 st' Write = Ok ()"
    using assms by (auto simp: rename_ends_def result_simps)
  have "same_user ctx ctx2" using find_parent_result(1) [OF *(1)] find_parent_result(1) [OF *(2)] same_user_trans by blast
  then show "writable s ctx n" "writable s ctx n'" using *(3-6) check_permissions_user by (auto simp: writable_def)
qed

lemma rename_changes:
  assumes "fs_inv s" "alive s oldd" "alive s newd" "rename oldd old_path newd new_path no_replace ctx s = Some (r, t)"
  shows "\<exists>X. changes_only X s t \<and> (\<forall>x \<in> X. writable s ctx (fst x))"
proof (cases "rename_ends oldd old_path newd new_path Exist ctx s")
  case (Ok x)
  obtain n a n' b where x: "x = ((n, a), (n', b))" by (metis surj_pair)
  have e: "alive s n" "alive s n'" using rename_ends_safe [OF assms(1-3), of old_path new_path Exist ctx] Ok by (auto simp: x)
  let ?c = "has_trailing_slash old_path \<or> has_trailing_slash new_path"
  have o: "rename_outcome n a n' b ?c no_replace s r t"
    using dir_rename_spec [OF fs_invD(3) [OF assms(1)] e, of a ?c b no_replace] assms(4) by (auto simp: rename_def Ok x)
  have "changes_only {(n, a), (n', b)} s t"
    using o by (cases r) (auto simp: rename_outcome_def changes_only_def moved_def split: if_splits)
  then show ?thesis using rename_ends_writable [OF Ok [unfolded x]] by (intro exI [of _ "{(n, a), (n', b)}"]) simp
qed (use assms(4) in \<open>auto simp: rename_def intro: exI [of _ "{}"]\<close>)

lemma exchange_changes:
  assumes "fs_inv s" "alive s oldd" "alive s newd" "few_links s" "exchange oldd old_path newd new_path ctx s = Some (r, t)"
  shows "\<exists>X. changes_only X s t \<and> (\<forall>x \<in> X. writable s ctx (fst x))"
proof (cases "rename_ends oldd old_path newd new_path IsDir ctx s")
  case (Ok x)
  obtain n a n' b where x: "x = ((n, a), (n', b))" by (metis surj_pair)
  have e: "alive s n" "alive s n'" using rename_ends_safe [OF assms(1-3), of old_path new_path IsDir ctx] Ok by (auto simp: x)
  have "changes_only {(n, a), (n', b)} s t"
    using dir_exchange_spec [OF fs_invD(3) [OF assms(1)] e assms(4), of a b] assms(5)
    by (cases r) (auto simp: exchange_def Ok x exchanged_def changes_only_def becomes_def)
  then show ?thesis using rename_ends_writable [OF Ok [unfolded x]] by (intro exI [of _ "{(n, a), (n', b)}"]) simp
qed (use assms(5) in \<open>auto simp: exchange_def intro: exI [of _ "{}"]\<close>)

text \<open>The operations that remove or replace entries, and linking.\<close>

fun checks_write :: "path_op \<Rightarrow> bool" where
  "checks_write (Op_unlink_file _ _) = True"
| "checks_write (Op_unlink_dir _ _) = True"
| "checks_write (Op_hard_link _ _ _ _ _) = True"
| "checks_write (Op_rename _ _ _ _ _) = True"
| "checks_write (Op_exchange _ _ _ _) = True"
| "checks_write _ = False"

lemma run_op_changes:
  assumes "fs_inv s" "op_ok op ctx s" "checks_write op" "run_op op ctx s = Some (r, t)"
  shows "ent t (n, name) = ent s (n, name) \<or> writable s ctx n"
proof -
  have "\<exists>X. changes_only X s t \<and> (\<forall>x \<in> X. writable s ctx (fst x))"
  proof (cases op)
    case (Op_unlink_file start path)
    then show ?thesis using assms by (intro unlink_changes [of s start path ctx r]) auto
  next
    case (Op_unlink_dir start path)
    then show ?thesis using assms by (intro unlink_changes [of s start path ctx r]) auto
  next
    case (Op_hard_link start path target_dir target_path follow)
    then show ?thesis using assms by (intro hard_link_changes [of s start target_dir path target_path follow ctx r]) auto
  next
    case (Op_rename oldd old_path newd new_path no_replace)
    then show ?thesis using assms by (intro rename_changes [of s oldd newd old_path new_path no_replace ctx r]) auto
  next
    case (Op_exchange oldd old_path newd new_path)
    then show ?thesis using assms by (intro exchange_changes [of s oldd newd old_path new_path ctx r]) auto
  qed (use assms(3) in auto)
  then show ?thesis unfolding changes_only_def by force
qed

end
