(* ===== verification/Fs_Properties.thy ===== *)
theory Fs_Properties
  imports Path_Operations
begin

text \<open>
  The properties of the file system, on the states that the steps of \<^verbatim>\<open>File_System\<close> reach.
\<close>

section \<open>An example\<close>

text \<open>The directories \<open>/a\<close>, \<open>/a/b\<close> and \<open>/a/b/c\<close>, which get the numbers 2, 3 and 4.\<close>

definition make_dir :: "nid \<Rightarrow> file_name \<Rightarrow> fs \<Rightarrow> fs" where
  "make_dir n name s = snd (dir_create_dir n name (FileMode_from_bits_truncate 0x1ED) 0 0 s)"

definition example_fs :: fs where
  "example_fs = make_dir 3 [99] (make_dir 2 [98] (make_dir 1 [97] (fs_start Timespec_ZERO)))"

definition example_dir :: "location \<Rightarrow> (file_name, dir_entry) btree \<Rightarrow> node" where
  "example_dir loc items = TmpFsDir \<lparr>d_fs = 1, d_location = loc,
     d_ownership = Ownership_new (FileMode_from_bits_truncate 0x1ED) 0 0, d_items = items,
     d_atime = Timespec_ZERO, d_mtime = Timespec_ZERO, d_ctime = Timespec_ZERO\<rparr>"

lemma example_fs_eq:
  "example_fs = \<lparr>nodes = [1 \<mapsto> example_dir LRoot [([97], EDir 2)], 2 \<mapsto> example_dir (LDirectory 1 [97]) [([98], EDir 3)],
      3 \<mapsto> example_dir (LDirectory 2 [98]) [([99], EDir 4)], 4 \<mapsto> example_dir (LDirectory 3 [99]) []],
     ino_counter = 5, dev_counter = 2, clock = Timespec_ZERO\<rparr>"
  by (simp add: example_fs_def make_dir_def fs_start_eq dir_create_dir_def create_def as_dir_def deref_def sbind_def
      TmpFsDir_new_def new_node_def set_node_def update_items_def dir_node_def example_dir_def slift_def or_exist_def fun_eq_iff)

lemma make_dir_step: "alive s n \<Longrightarrow> name_ok name \<Longrightarrow> fs_step s (make_dir n name s)"
  unfolding make_dir_def by (rule fs_step.create_dir [OF _ _ mode_ok_truncate]) (auto intro: prod.collapse [symmetric])

lemma example_fs_reachable: "reachable fs_init fs_step example_fs"
proof -
  have n: "name_ok [97]" "name_ok [98]" "name_ok [99]" by (simp_all add: name_ok_def)
  have 1: "reachable fs_init fs_step (fs_start Timespec_ZERO)" by (rule reachable.start) (auto simp: fs_init_def)
  have 2: "reachable fs_init fs_step (make_dir 1 [97] (fs_start Timespec_ZERO))"
    by (rule reachable.step [OF 1], rule make_dir_step [OF _ n(1)]) (simp add: fs_start_eq)
  have 3: "reachable fs_init fs_step (make_dir 2 [98] (make_dir 1 [97] (fs_start Timespec_ZERO)))"
    by (rule reachable.step [OF 2], rule make_dir_step [OF _ n(2)])
      (simp add: make_dir_def fs_start_eq dir_create_dir_def create_def as_dir_def deref_def sbind_def
        TmpFsDir_new_def new_node_def set_node_def update_items_def dir_node_def slift_def or_exist_def)
  show ?thesis unfolding example_fs_def
    by (rule reachable.step [OF 3], rule make_dir_step [OF _ n(3)])
      (simp add: make_dir_def fs_start_eq dir_create_dir_def create_def as_dir_def deref_def sbind_def
        TmpFsDir_new_def new_node_def set_node_def update_items_def dir_node_def slift_def or_exist_def)
qed

lemma example_ent: "ent example_fs (1, [97]) = Some (EDir 2)" "ent example_fs (2, [98]) = Some (EDir 3)" "ent example_fs (3, [99]) = Some (EDir 4)"
  by (simp_all add: ent_def example_fs_eq example_dir_def)

lemma example_fs_inv: "fs_inv example_fs"
  by (rule tfs.reachable_inv [OF example_fs_reachable])

section \<open>The tree\<close>



section \<open>Operations on paths\<close>





section \<open>Lookups\<close>

text \<open>
  C10. The recursive lookup of \<^verbatim>\<open>lookup_node\<close>, which resolves links by lookups of their own, finds
  what the iterative lookup finds that puts the segments of a link's target in front of the rest:
  the same node with the same number of links left, or the same error.
\<close>

theorem lookup_node_walk:
  "lookup_node s start path ctx = rmap (\<lambda>((_, n), ctx'). (n, ctx')) (walk s (segments_spec path) (start, start) ctx)"
proof -
  have "same_outcome s (lookup_segments s (segments_spec path) (start, start) ctx) (walk s (segments_spec path) (start, start) ctx)"
    by (rule lookup_walk)
  then show ?thesis
    by (cases "lookup_segments s (segments_spec path) (start, start) ctx")
      (auto simp: lookup_node_def lookup_node_with_parent_def segments_eq_spec same_outcome_def same_place_def)
qed







section \<open>Exchanging directories\<close>

text \<open>
  \<^verbatim>\<open>exchange\<close> swaps the two entries and leaves every location as it was: also a directory that
  now is somewhere else keeps the location of the place it left.
\<close>

theorem exchange_keeps_locations:
  assumes "reachable fs_init fs_step s" "nodes s n \<noteq> None" "nodes s n' \<noteq> None" "few_links s"
    and "dir_exchange n oldname n' newname s = Some (Ok (), t)" "ent s (n, oldname) = Some (EDir m)" "(n, oldname) \<noteq> (n', newname)"
  shows "ent t (n', newname) = Some (EDir m) \<and> ent t (n, oldname) = ent s (n', newname) \<and>
    (\<exists>d. nodes t m = Some (TmpFsDir d) \<and> d_location d = LDirectory n oldname)"
proof -
  have inv: "fs_ok s" by (rule fs_invD(3) [OF tfs.reachable_inv [OF assms(1)]])
  have x: "exchanged n oldname n' newname s t"
    using dir_exchange_spec [OF inv assms(2-4), of oldname newname] assms(5,7) by auto
  then have "kd t m = kd s m" by (simp add: exchanged_def)
  moreover obtain dev where "kd s m = Some (KDir dev (LDirectory n oldname))" using inv assms(6) unfolding linked_def by blast
  ultimately have "\<exists>d. nodes t m = Some (TmpFsDir d) \<and> d_location d = LDirectory n oldname" by (metis kd_DirE)
  then show ?thesis using x assms(6,7) by (auto simp: exchanged_def)
qed

definition swapped_fs :: fs where
  "swapped_fs = example_fs\<lparr>nodes := [1 \<mapsto> example_dir LRoot [([97], EDir 4)], 2 \<mapsto> example_dir (LDirectory 1 [97]) [([98], EDir 3)],
      3 \<mapsto> example_dir (LDirectory 2 [98]) [([99], EDir 2)], 4 \<mapsto> example_dir (LDirectory 3 [99]) []]\<rparr>"

lemma example_exchange: "dir_exchange 1 [97] 3 [99] example_fs = Some (Ok (), swapped_fs)"
proof -
  have p: "parent 3 example_fs = Ok 2" "parent 2 example_fs = Ok 1" "parent 1 example_fs = Ok 1"
    by (simp_all add: parent_def as_dir_def deref_def location_get_def example_fs_eq example_dir_def)
  have c: "check_not_above 4 example_fs 3 = Some (Ok ())"
    by (subst check_not_above.simps, simp add: p, subst check_not_above.simps, simp add: p [simplified], subst check_not_above.simps, simp add: p [simplified])
  show ?thesis
    using c unfolding dir_exchange_def
    by (simp add: same_fs_def as_dir_def deref_def ensure_def example_fs_eq example_dir_def swapped_fs_def sbind_def slift_def sret_def
        swap_entries_def insert_entry_def update_items_def set_location_def set_node_def fun_eq_iff)
qed

lemma example_few_links: "few_links example_fs"
  by (auto simp: few_links_def kd_def example_fs_eq example_dir_def split: if_splits)

theorem exchange_keeps_locations_witness:
  "dir_exchange 1 [97] 3 [99] example_fs = Some (Ok (), swapped_fs) \<and>
   ent swapped_fs (3, [99]) = Some (EDir 2) \<and> (\<exists>d. nodes swapped_fs 2 = Some (TmpFsDir d) \<and> d_location d = LDirectory 1 [97])"
proof -
  have a: "nodes example_fs 1 \<noteq> None" "nodes example_fs 3 \<noteq> None" by (simp_all add: example_fs_eq)
  show ?thesis
    using exchange_keeps_locations [OF example_fs_reachable a example_few_links example_exchange example_ent(1)] example_exchange by auto
qed

text \<open>
  Exchanging a directory with one below it, and then renaming within a directory, makes the
  locations go round in a circle: \<^verbatim>\<open>Directory::path\<close>, and with it \<^verbatim>\<open>getcwd\<close>, does not come to an end.
\<close>

theorem exchange_path_hangs:
  "\<exists>t u. reachable fs_init fs_step example_fs \<and> dir_exchange 1 [97] 3 [99] example_fs = Some (Ok (), t) \<and>
     dir_rename 3 [99] False 3 [120] False t = Some (Ok (), u) \<and> dir_path u 2 = None"
proof -
  define u where "u = swapped_fs\<lparr>nodes := (nodes swapped_fs)(2 \<mapsto> example_dir (LDirectory 3 [120]) [([98], EDir 3)],
    3 \<mapsto> example_dir (LDirectory 2 [98]) [([120], EDir 2)])\<rparr>"
  have r: "dir_rename 3 [99] False 3 [120] False swapped_fs = Some (Ok (), u)"
    by (simp add: dir_rename_def same_fs_def as_dir_def deref_def ensure_def example_fs_eq example_dir_def swapped_fs_def u_def sbind_def
        slift_def sret_def can_rename_def move_entry_def remove_entry_def insert_entry_def update_items_def set_location_def set_node_def fun_eq_iff)
  have "s = u \<longrightarrow> n \<noteq> 2 \<and> n \<noteq> 3" if "dir_path s n = Some y" for s n y
  proof (rule dir_path.raw_induct [OF _ that, of "\<lambda>s n _. s = u \<longrightarrow> n \<noteq> 2 \<and> n \<noteq> 3"], intro impI)
    fix dp s n y
    assume IH: "\<And>s n y. dp s n = Some y \<Longrightarrow> s = u \<longrightarrow> n \<noteq> 2 \<and> n \<noteq> 3" and s: "s = u"
      and y: "(case rbind (as_dir n s) (\<lambda>d. location_get (d_location d) s) of
        Ok None \<Rightarrow> Some (Path_new [slash])
      | Ok (Some (p, name)) \<Rightarrow> Option.bind (dp s p) (\<lambda>r. Some (rbind r (\<lambda>path. join_segment path name)))
      | Err e \<Rightarrow> Some (Err e) | Panic \<Rightarrow> Some Panic) = Some y"
    have "dp u 2 = None" "dp u 3 = None" using IH [of u 2] IH [of u 3] by (cases "dp u 2", auto) (cases "dp u 3", auto)
    moreover have "rbind (as_dir 2 u) (\<lambda>d. location_get (d_location d) u) = Ok (Some (3, [120]))"
      "rbind (as_dir 3 u) (\<lambda>d. location_get (d_location d) u) = Ok (Some (2, [98]))"
      by (simp_all add: as_dir_def deref_def location_get_def u_def swapped_fs_def example_fs_eq example_dir_def)
    ultimately show "n \<noteq> 2 \<and> n \<noteq> 3" using y unfolding s by auto
  qed
  then have "dir_path u 2 = None" by (cases "dir_path u 2") blast+
  then show ?thesis using example_fs_reachable example_exchange r by blast
qed

section \<open>Permissions\<close>




text \<open>
  Creating does not ask for that permission: a user who may not write to a directory can still
  create a directory in it.
\<close>

definition some_user :: file_access_context where
  "some_user = \<lparr>symlink_recursion_limit = 16, filesystem_user_id = 1000, filesystem_group_id = 1000, supplementary_group_ids = []\<rparr>"

theorem creation_unchecked:
  "\<exists>t m. \<not> writable example_fs some_user 1 \<and>
     create_directory 1 [120] (FileMode_from_bits_truncate 0x1ED) some_user example_fs = (Ok m, t) \<and>
     ent example_fs (1, [120]) = None \<and> ent t (1, [120]) = Some (EDir m)"
proof -
  have ok: "tree_ok example_fs" by (rule fs_invD(1) [OF example_fs_inv])
  have d: "nodes example_fs 1 = Some (example_dir LRoot [([97], EDir 2)])" by (simp add: example_fs_eq)
  have st: "stat_of 1 example_fs = Ok (node_stat 1 (example_dir LRoot [([97], EDir 2)]))" by (rule stat_of_Ok(1) [OF ok d])
  have m: "FileTypeAndMode_mode (FileTypeAndMode_new Dir (FileMode_from_bits_truncate 493)) = 493"
    by (simp add: FileTypeAndMode_mode_def FileTypeAndMode_new_def FileMode_from_bits_truncate_def FileMode_all_bits_def mode_bit_defs)
  have "check_permissions some_user (node_stat 1 (example_dir LRoot [([97], EDir 2)])) Write \<noteq> Ok ()"
    by (simp add: check_permissions_def m some_user_def is_user_def is_in_group_def SUPER_USER_def
        example_dir_def make_stat_def Ownership_new_def contains_def mode_bit_defs ensure_def)
  then have w: "\<not> writable example_fs some_user 1" unfolding writable_def st by (metis outcome.inject(1))
  have "check_permissions some_user (node_stat 1 (example_dir LRoot [([97], EDir 2)])) Execute = Ok ()"
    by (simp add: check_permissions_def m some_user_def is_user_def is_in_group_def SUPER_USER_def
        example_dir_def make_stat_def Ownership_new_def contains_def mode_bit_defs ensure_def)
  then have c: "check_dir 1 example_fs some_user True = Ok ()"
    using stat_of_Ok [OF ok d] by (simp add: check_dir_def ensure_def) (simp add: example_dir_def ensure_def)
  have f: "find_parent example_fs 1 [120] some_user = Ok ((1, FileName [120], False), some_user)"
    using c by (simp add: find_parent_def segments_eq_spec segments_spec_def is_absolute_def piece_def)
  have "\<exists>t. create_directory 1 [120] (FileMode_from_bits_truncate 0x1ED) some_user example_fs = (Ok 5, t) \<and> ent t (1, [120]) = Some (EDir 5)"
    using f by (simp add: create_directory_def at_parent_def sbind_def dir_create_dir_def create_def as_dir_def deref_def example_fs_eq
        example_dir_def TmpFsDir_new_def new_node_def set_node_def update_items_def dir_node_def slift_def or_exist_def ent_def)
  moreover have "ent example_fs (1, [120]) = None" by (simp add: ent_def example_fs_eq example_dir_def)
  ultimately show ?thesis using w by blast
qed

end
