(* ===== verification/Streams.thy ===== *)
theory Streams
  imports Notify File_Access
begin

text \<open>
  Byte streams: \<^verbatim>\<open>tee/kernel/src/fs/fd/stream_buffer.rs\<close>, on which pipes (\<^verbatim>\<open>fd/pipe/anon.rs\<close>)
  and stream sockets (\<^verbatim>\<open>fd/unix_socket/stream.rs\<close>) are built. The two halves share a queue of
  bytes, a notification primitive and a reference count; \<open>cap\<close> and \<open>atomic\<close> are the parameters
  \<^verbatim>\<open>CAPACITY\<close> and \<^verbatim>\<open>ATOMIC_WRITE_SIZE\<close> of the type. Each definition is one critical section of
  the lock around the queue, unless it says otherwise.
\<close>

section \<open>The halves of a stream\<close>

abbreviation PIPE_CAPACITY :: nat where
  "PIPE_CAPACITY \<equiv> 0x10000"

abbreviation PIPE_BUF :: nat where
  "PIPE_BUF \<equiv> 0x1000"

abbreviation SOCKET_CAPACITY :: nat where
  "SOCKET_CAPACITY \<equiv> 262144"

record stream =
  s_buffer :: bytes
  s_read_half :: bool
  s_write_half :: bool
  s_notify :: notify

definition Stream_new :: stream where
  "Stream_new = \<lparr>s_buffer = [], s_read_half = True, s_write_half = True, s_notify = Notify_new\<rparr>"

definition strong_count :: "stream \<Rightarrow> nat" where
  "strong_count st = (if s_read_half st then 1 else 0) + (if s_write_half st then 1 else 0)"

definition stream_notify :: "(stream, unit) stateful" where
  "stream_notify st =
     (case Notify_notify (s_notify st) of
        Ok (n, _) \<Rightarrow> (Ok (), st\<lparr>s_notify := n\<rparr>)
      | Err e \<Rightarrow> (Err e, st)
      | Panic \<Rightarrow> (Panic, st))"

text \<open>What reading does before it takes bytes out: nothing to read, or whether the stream was
  too full for an atomic write.\<close>

definition read_start :: "nat \<Rightarrow> nat \<Rightarrow> stream \<Rightarrow> bool option result" where
  "read_start cap atomic st =
     (if s_buffer st = [] then (if strong_count st = 1 then Ok None else Err Again)
      else rmap (\<lambda>room. Some (room < atomic)) (usub cap (length (s_buffer st))))"

definition take_bytes :: "nat \<Rightarrow> bool \<Rightarrow> (stream, bytes) stateful" where
  "take_bytes n was_full =
     sbind (\<lambda>st. (Ok (take n (s_buffer st)), st\<lparr>s_buffer := drop n (s_buffer st)\<rparr>)) (\<lambda>data.
     sbind (if was_full then stream_notify else sret ()) (\<lambda>_. sret data))"

definition stream_read :: "nat \<Rightarrow> nat \<Rightarrow> nat \<Rightarrow> (stream, bytes) stateful" where
  "stream_read cap atomic n =
     (if n = 0 then sret []
      else sbind (\<lambda>st. (read_start cap atomic st, st)) (\<lambda>x.
        case x of None \<Rightarrow> sret [] | Some was_full \<Rightarrow> take_bytes n was_full))"

text \<open>
  \<open>copy k bs\<close> copies bytes to the user's memory, \<open>k\<close> bytes into the user's buffer; \<open>split\<close> is
  where the queue wraps around. When copying fails nothing is taken out.
\<close>

definition stream_read_to_user ::
  "nat \<Rightarrow> nat \<Rightarrow> nat \<Rightarrow> (nat \<Rightarrow> bytes \<Rightarrow> unit result) \<Rightarrow> nat \<Rightarrow> (stream, nat) stateful" where
  "stream_read_to_user cap atomic split copy n =
     (if n = 0 then sret 0
      else sbind (\<lambda>st. (read_start cap atomic st, st)) (\<lambda>x.
        case x of
          None \<Rightarrow> sret 0
        | Some was_full \<Rightarrow> (\<lambda>st.
            let l = min n (length (s_buffer st));
                slice1 = take split (s_buffer st);
                slice2 = drop split (s_buffer st);
                len1 = min l (length slice1);
                len2 = l - len1 in
            sbind (slift (copy 0 (take len1 slice1))) (\<lambda>_.
            sbind (slift (if take len2 slice2 = [] then Ok () else copy len1 (take len2 slice2))) (\<lambda>_.
            sbind (take_bytes l was_full) (\<lambda>_. sret l))) st)))"

text \<open>How many of \<open>n\<close> bytes can be written.\<close>

definition write_room :: "nat \<Rightarrow> nat \<Rightarrow> nat \<Rightarrow> stream \<Rightarrow> nat result" where
  "write_room cap atomic n st =
     rbind (usub cap (length (s_buffer st))) (\<lambda>room.
       ensure (if n \<le> atomic then n \<le> room else 0 < room) Again (Ok (min n room)))"

definition write_push :: "nat \<Rightarrow> nat \<Rightarrow> bytes \<Rightarrow> (stream, nat) stateful" where
  "write_push cap atomic bs =
     sbind (\<lambda>st. (write_room cap atomic (length bs) st, st)) (\<lambda>n st.
       (Ok n, st\<lparr>s_buffer := s_buffer st @ take n bs\<rparr>))"

text \<open>\<^verbatim>\<open>WriteHalf::write\<close>: the count is checked before the lock is taken, and the notification
  is sent after it is released.\<close>

definition stream_write :: "nat \<Rightarrow> nat \<Rightarrow> bytes \<Rightarrow> (stream, nat) stateful" where
  "stream_write cap atomic bs =
     sbind (\<lambda>st. (ensure (1 < strong_count st) Pipe (Ok ()), st)) (\<lambda>_.
       if bs = [] then sret 0
       else sbind (write_push cap atomic bs) (\<lambda>n. sbind stream_notify (\<lambda>_. sret n)))"

text \<open>
  \<open>fetch k n\<close> reads \<open>n\<close> bytes of the user's memory, \<open>k\<close> bytes into the user's buffer; \<open>second\<close> is
  how much of the queue lies after the point where it wraps around, once it has been extended.
  When fetching fails the queue is cut back to what it was.
\<close>

definition fetch_bytes :: "nat \<Rightarrow> (nat \<Rightarrow> nat \<Rightarrow> bytes result) \<Rightarrow> nat \<Rightarrow> bytes result" where
  "fetch_bytes second fetch n =
     (if n \<le> second then fetch 0 n
      else rbind (fetch 0 (n - second)) (\<lambda>a. rmap (\<lambda>b. a @ b) (fetch (n - second) second)))"

definition write_push_user :: "nat \<Rightarrow> nat \<Rightarrow> nat \<Rightarrow> (nat \<Rightarrow> nat \<Rightarrow> bytes result) \<Rightarrow> nat \<Rightarrow> (stream, nat) stateful" where
  "write_push_user cap atomic second fetch n =
     sbind (\<lambda>st. (write_room cap atomic n st, st)) (\<lambda>l.
     sbind (slift (fetch_bytes second fetch l)) (\<lambda>bs st.
       (Ok l, st\<lparr>s_buffer := s_buffer st @ bs\<rparr>)))"

definition stream_write_from_user ::
  "nat \<Rightarrow> nat \<Rightarrow> nat \<Rightarrow> (nat \<Rightarrow> nat \<Rightarrow> bytes result) \<Rightarrow> nat \<Rightarrow> (stream, nat) stateful" where
  "stream_write_from_user cap atomic second fetch n =
     sbind (\<lambda>st. (ensure (1 < strong_count st) Pipe (Ok ()), st)) (\<lambda>_.
       if n = 0 then sret 0
       else sbind (write_push_user cap atomic second fetch n) (\<lambda>l. sbind stream_notify (\<lambda>_. sret l)))"

text \<open>Readiness.\<close>

datatype event = READ | WRITE | ERR | HUP

definition flag :: "event \<Rightarrow> bool \<Rightarrow> event set" where
  "flag e b = (if b then {e} else {})"

definition read_poll_ready :: "event set \<Rightarrow> stream \<Rightarrow> event set" where
  "read_poll_ready ev st =
     (flag READ (s_buffer st \<noteq> [] \<or> strong_count st = 1) \<union> flag HUP (strong_count st = 1)) \<inter> ev"

definition write_poll_ready :: "nat \<Rightarrow> event set \<Rightarrow> stream \<Rightarrow> event set" where
  "write_poll_ready cap ev st =
     (flag WRITE (length (s_buffer st) < cap \<or> strong_count st = 1) \<union> flag ERR (strong_count st = 1)) \<inter> ev"

text \<open>The test in the loop of \<^verbatim>\<open>ready_for_write\<close>.\<close>

definition ready_for_write :: "nat \<Rightarrow> nat \<Rightarrow> nat \<Rightarrow> stream \<Rightarrow> bool result" where
  "ready_for_write cap atomic n st =
     rmap (\<lambda>room. (if n \<le> atomic then n \<le> room else 0 < room) \<or> strong_count st = 1)
       (usub cap (length (s_buffer st)))"

definition make_write_half :: "stream \<Rightarrow> stream result" where
  "make_write_half st = rassert (strong_count st = 1) (Ok (st\<lparr>s_write_half := True\<rparr>))"

definition make_read_half :: "stream \<Rightarrow> stream result" where
  "make_read_half st = rassert (strong_count st = 1) (Ok (st\<lparr>s_read_half := True\<rparr>))"


section \<open>The transition system\<close>

text \<open>
  Tasks that wait: for readiness of a half, or for room to write. A task takes the wait first,
  then looks at the stream, and parks when it is not ready; \<open>owed\<close> counts the notifications that
  are about to be sent, by a write that has released the lock or by a half that was dropped (its
  count goes down first). \<open>sent\<close> and \<open>received\<close> are the bytes written and read so far.
\<close>

datatype interest = Read_events "event set" | Write_events "event set" | Room nat

datatype task = Idle | Checking interest u64 | Parked interest u64

record stream_sys =
  strm :: stream
  tasks :: "nat \<Rightarrow> task"
  owed :: nat
  sent :: bytes
  received :: bytes

fun is_ready :: "nat \<Rightarrow> nat \<Rightarrow> interest \<Rightarrow> stream \<Rightarrow> bool" where
  "is_ready cap atomic (Read_events ev) st \<longleftrightarrow> read_poll_ready ev st \<noteq> {}"
| "is_ready cap atomic (Write_events ev) st \<longleftrightarrow> write_poll_ready cap ev st \<noteq> {}"
| "is_ready cap atomic (Room n) st \<longleftrightarrow> ready_for_write cap atomic n st = Ok True"

inductive stream_step :: "nat \<Rightarrow> nat \<Rightarrow> stream_sys \<Rightarrow> stream_sys \<Rightarrow> bool" for cap atomic where
  read: "s_read_half (strm s) \<Longrightarrow> stream_read cap atomic n (strm s) = (Ok data, st) \<Longrightarrow>
    stream_step cap atomic s (s\<lparr>strm := st, received := received s @ data\<rparr>)"
| read_to_user: "s_read_half (strm s) \<Longrightarrow> stream_read_to_user cap atomic split copy n (strm s) = (Ok l, st) \<Longrightarrow>
    stream_step cap atomic s (s\<lparr>strm := st, received := received s @ take l (s_buffer (strm s))\<rparr>)"
| push: "s_write_half (strm s) \<Longrightarrow> bs \<noteq> [] \<Longrightarrow> write_push cap atomic bs (strm s) = (Ok n, st) \<Longrightarrow>
    stream_step cap atomic s (s\<lparr>strm := st, sent := sent s @ take n bs, owed := Suc (owed s)\<rparr>)"
| push_user: "s_write_half (strm s) \<Longrightarrow> n > 0 \<Longrightarrow> write_push_user cap atomic second fetch n (strm s) = (Ok l, st) \<Longrightarrow>
    (\<And>k m bs. fetch k m = Ok bs \<Longrightarrow> length bs = m) \<Longrightarrow>
    stream_step cap atomic s (s\<lparr>strm := st, sent := sent s @ drop (length (s_buffer (strm s))) (s_buffer st), owed := Suc (owed s)\<rparr>)"
| notify: "owed s > 0 \<Longrightarrow> stream_notify (strm s) = (Ok (), st) \<Longrightarrow>
    stream_step cap atomic s (s\<lparr>strm := st, owed := owed s - 1\<rparr>)"
| set_flags: "stream_notify (strm s) = (Ok (), st) \<Longrightarrow> stream_step cap atomic s (s\<lparr>strm := st\<rparr>)"
| drop_read: "s_read_half (strm s) \<Longrightarrow>
    stream_step cap atomic s (s\<lparr>strm := (strm s)\<lparr>s_read_half := False\<rparr>, owed := Suc (owed s)\<rparr>)"
| drop_write: "s_write_half (strm s) \<Longrightarrow>
    stream_step cap atomic s (s\<lparr>strm := (strm s)\<lparr>s_write_half := False\<rparr>, owed := Suc (owed s)\<rparr>)"
| new_write_half: "s_read_half (strm s) \<Longrightarrow> make_write_half (strm s) = Ok st \<Longrightarrow> stream_step cap atomic s (s\<lparr>strm := st\<rparr>)"
| new_read_half: "s_write_half (strm s) \<Longrightarrow> make_read_half (strm s) = Ok st \<Longrightarrow> stream_step cap atomic s (s\<lparr>strm := st\<rparr>)"
| wait: "tasks s t = Idle \<Longrightarrow>
    stream_step cap atomic s (s\<lparr>tasks := (tasks s)(t := Checking i (start_generation (Notify_wait (s_notify (strm s)))))\<rparr>)"
| look: "tasks s t = Checking i g \<Longrightarrow>
    stream_step cap atomic s (s\<lparr>tasks := (tasks s)(t := if is_ready cap atomic i (strm s) then Idle else Parked i g)\<rparr>)"
| resume: "tasks s t = Parked i g \<Longrightarrow> generation (s_notify (strm s)) \<noteq> g \<Longrightarrow>
    stream_step cap atomic s (s\<lparr>tasks := (tasks s)(t := Idle)\<rparr>)"

definition stream_init :: "stream_sys \<Rightarrow> bool" where
  "stream_init s \<longleftrightarrow> s = \<lparr>strm = Stream_new, tasks = (\<lambda>_. Idle), owed = 0, sent = [], received = []\<rparr>"

definition waits_since :: "u64 \<Rightarrow> task \<Rightarrow> bool" where
  "waits_since g t \<longleftrightarrow> (\<exists>i. t = Checking i g \<or> t = Parked i g)"

definition stream_inv :: "nat \<Rightarrow> nat \<Rightarrow> stream_sys \<Rightarrow> bool" where
  "stream_inv cap atomic s \<longleftrightarrow>
     length (s_buffer (strm s)) \<le> cap \<and> sent s = received s @ s_buffer (strm s) \<and>
     (\<forall>t g. waits_since g (tasks s t) \<longrightarrow> g \<le> generation (s_notify (strm s))) \<and>
     (\<forall>t i g. tasks s t = Parked i g \<and> is_ready cap atomic i (strm s) \<longrightarrow>
        g \<noteq> generation (s_notify (strm s)) \<or> 0 < owed s)"

section \<open>What the operations do\<close>

lemma Notify_notify_generation:
  assumes "Notify_notify n = (Ok (n', wks) :: (_, error_kind) outcome)"
  shows "generation n < generation n'"
proof -
  have "unat (generation n) + 1 < 2 ^ 64" "generation n' = generation n + 1"
    using assms by (auto simp: Notify_notify_def result_simps wadd_def split: if_splits)
  then have "unat (generation n') = unat (generation n) + 1" by (simp add: unat_word_ariths)
  then show ?thesis by (simp add: word_less_nat_alt)
qed

lemma stream_notify_Ok:
  assumes "stream_notify st = (Ok (), st')"
  shows "s_buffer st' = s_buffer st" "s_read_half st' = s_read_half st" "s_write_half st' = s_write_half st"
    "generation (s_notify st) < generation (s_notify st')"
proof -
  obtain n where n: "Notify_notify (s_notify st) = (Ok (n, wakers (s_notify st)) :: (_, error_kind) outcome)" "st' = st\<lparr>s_notify := n\<rparr>"
    using assms by (auto simp: stream_notify_def Notify_notify_def result_simps split: outcome.splits)
  show "generation (s_notify st) < generation (s_notify st')" using Notify_notify_generation [OF n(1)] n(2) by simp
qed (use assms in \<open>auto simp: stream_notify_def split: outcome.splits\<close>)

lemma take_bytes_Ok:
  assumes "take_bytes n was_full st = (Ok data, st')"
  shows "data = take n (s_buffer st)" "s_buffer st' = drop n (s_buffer st)"
    "s_read_half st' = s_read_half st" "s_write_half st' = s_write_half st"
    "was_full \<Longrightarrow> generation (s_notify st) < generation (s_notify st')" "\<not> was_full \<Longrightarrow> s_notify st' = s_notify st"
  using assms stream_notify_Ok [of "st\<lparr>s_buffer := drop n (s_buffer st)\<rparr>" st']
  by (auto simp: take_bytes_def result_simps split: if_splits)

text \<open>What reading amounts to: bytes go, and unless they were sent for again nobody could write
  who could not before.\<close>

definition took :: "nat \<Rightarrow> nat \<Rightarrow> bytes \<Rightarrow> stream \<Rightarrow> stream \<Rightarrow> bool" where
  "took cap atomic data st st' \<longleftrightarrow> st' = st \<and> data = [] \<or>
     s_buffer st = data @ s_buffer st' \<and> s_buffer st \<noteq> [] \<and> length (s_buffer st) \<le> cap \<and>
     s_read_half st' = s_read_half st \<and> s_write_half st' = s_write_half st \<and>
     (generation (s_notify st) < generation (s_notify st') \<or>
      s_notify st' = s_notify st \<and> atomic \<le> cap - length (s_buffer st))"

lemma read_start_Some:
  "read_start cap atomic st = Ok (Some was_full) \<Longrightarrow>
   s_buffer st \<noteq> [] \<and> length (s_buffer st) \<le> cap \<and> was_full = (cap - length (s_buffer st) < atomic)"
  by (auto simp: read_start_def result_simps split: if_splits)

lemma stream_read_took:
  assumes "stream_read cap atomic n st = (Ok data, st')"
  shows "took cap atomic data st st'"
proof (cases "n = 0 \<or> read_start cap atomic st = Ok None")
  case True
  then show ?thesis using assms by (auto simp: stream_read_def sbind_def took_def split: if_splits)
next
  case False
  then obtain was_full where r: "read_start cap atomic st = Ok (Some was_full)" "take_bytes n was_full st = (Ok data, st')"
    using assms by (auto simp: stream_read_def result_simps split: option.splits)
  show ?thesis using read_start_Some [OF r(1)] take_bytes_Ok [OF r(2)] by (cases was_full) (auto simp: took_def)
qed

lemma stream_read_to_user_took:
  assumes "stream_read_to_user cap atomic split copy n st = (Ok l, st')"
  shows "took cap atomic (take l (s_buffer st)) st st' \<and> l \<le> n"
proof (cases "n = 0 \<or> read_start cap atomic st = Ok None")
  case True
  then show ?thesis using assms by (auto simp: stream_read_to_user_def sbind_def took_def split: if_splits)
next
  case False
  then obtain was_full data where r: "read_start cap atomic st = Ok (Some was_full)" "take_bytes l was_full st = (Ok data, st')" "l \<le> n"
    using assms by (auto simp: stream_read_to_user_def result_simps Let_def split: option.splits if_splits)
  show ?thesis using read_start_Some [OF r(1)] take_bytes_Ok [OF r(2)] r(3) by (cases was_full) (auto simp: took_def)
qed

lemma took_inv:
  assumes inv: "stream_inv cap atomic s" and t: "took cap atomic data (strm s) st'" and atomic: "0 < atomic"
  shows "stream_inv cap atomic (s\<lparr>strm := st', received := received s @ data\<rparr>)"
proof (cases "st' = strm s \<and> data = []")
  case True
  then show ?thesis using inv by simp
next
  case False
  let ?st = "strm s"
  from t False have *: "s_buffer ?st = data @ s_buffer st'" "length (s_buffer ?st) \<le> cap"
    "s_read_half st' = s_read_half ?st" "s_write_half st' = s_write_half ?st"
    "generation (s_notify ?st) < generation (s_notify st') \<or> s_notify st' = s_notify ?st \<and> atomic \<le> cap - length (s_buffer ?st)"
    by (auto simp: took_def)
  have sc: "strong_count st' = strong_count ?st" by (simp add: strong_count_def *(3,4))
  have len: "length (s_buffer st') \<le> length (s_buffer ?st)" by (simp add: *(1))
  have ready: "is_ready cap atomic i ?st" if "is_ready cap atomic i st'" "atomic \<le> cap - length (s_buffer ?st)" for i
  proof (cases i)
    case (Read_events ev)
    then show ?thesis using that(1) *(1) by (auto simp: read_poll_ready_def flag_def sc split: if_splits)
  next
    case (Write_events ev)
    have "length (s_buffer ?st) < cap" using that(2) atomic by linarith
    then show ?thesis using that(1) Write_events by (auto simp: write_poll_ready_def flag_def sc split: if_splits)
  next
    case (Room n)
    have "(if n \<le> atomic then n \<le> cap - length (s_buffer ?st) else 0 < cap - length (s_buffer ?st))" using that(2) atomic by auto
    then show ?thesis using Room *(2) by (auto simp: ready_for_write_def usub_def)
  qed
  have gen: "generation (s_notify ?st) \<le> generation (s_notify st')" using *(5) by auto
  have g: "g \<le> generation (s_notify ?st)" if "waits_since g (tasks s t)" for t g using inv that unfolding stream_inv_def by blast
  then have 1: "g \<le> generation (s_notify st')" if "waits_since g (tasks s t)" for t g using gen order.trans that by blast
  have 2: "g \<noteq> generation (s_notify st') \<or> 0 < owed s" if p: "tasks s t = Parked i g" "is_ready cap atomic i st'" for t i g
    using *(5)
  proof
    assume "generation (s_notify ?st) < generation (s_notify st')"
    with g [of g t] p show ?thesis by (auto simp: waits_since_def)
  next
    assume "s_notify st' = s_notify ?st \<and> atomic \<le> cap - length (s_buffer ?st)"
    with ready p inv show ?thesis unfolding stream_inv_def by metis
  qed
  show ?thesis using inv * len 1 2 unfolding stream_inv_def by simp blast
qed

text \<open>Pushing and dropping owe a notification; nothing is asked of the tasks until it is sent.\<close>

lemma owed_inv:
  assumes "stream_inv cap atomic s" "s_notify st' = s_notify (strm s)" "length (s_buffer st') \<le> cap" "sent' = received s @ s_buffer st'"
  shows "stream_inv cap atomic (s\<lparr>strm := st', sent := sent', owed := Suc (owed s)\<rparr>)"
  using assms by (simp add: stream_inv_def)

lemma notified_inv:
  assumes inv: "stream_inv cap atomic s" and st: "stream_notify (strm s) = (Ok (), st')"
  shows "stream_inv cap atomic (s\<lparr>strm := st', owed := k\<rparr>)"
proof -
  note n = stream_notify_Ok [OF st]
  have "g \<le> generation (s_notify st') \<and> g \<noteq> generation (s_notify st')" if "waits_since g (tasks s t)" for t g
    using inv n(4) that unfolding stream_inv_def by (metis order.strict_trans1 order.strict_implies_order order.strict_implies_not_eq)
  then show ?thesis using inv n(1) by (auto simp: stream_inv_def waits_since_def)
qed

lemma write_push_Ok:
  assumes "write_push cap atomic bs st = (Ok n, st')"
  shows "st' = st\<lparr>s_buffer := s_buffer st @ take n bs\<rparr>" "n \<le> length bs" "length (s_buffer st) + n \<le> cap"
  using assms by (auto simp: write_push_def write_room_def result_simps)

lemma fetch_bytes_length:
  assumes "\<And>k m bs. fetch k m = Ok bs \<Longrightarrow> length bs = m" "fetch_bytes second fetch n = Ok bs"
  shows "length bs = n"
  using assms by (auto simp: fetch_bytes_def result_simps split: if_splits)

lemma write_push_user_Ok:
  assumes "write_push_user cap atomic second fetch n st = (Ok l, st')" "\<And>k m bs. fetch k m = Ok bs \<Longrightarrow> length bs = m"
  shows "\<exists>bs. st' = st\<lparr>s_buffer := s_buffer st @ bs\<rparr> \<and> length bs = l \<and> l \<le> n \<and> length (s_buffer st) + l \<le> cap"
  using assms(1) fetch_bytes_length [OF assms(2)] by (force simp: write_push_user_def write_room_def result_simps)

lemma fewer_ready:
  assumes "stream_inv cap atomic s" "s_notify st' = s_notify (strm s)" "s_buffer st' = s_buffer (strm s)"
    "\<And>i. is_ready cap atomic i st' \<Longrightarrow> is_ready cap atomic i (strm s)"
  shows "stream_inv cap atomic (s\<lparr>strm := st'\<rparr>)"
  using assms unfolding stream_inv_def by simp blast

lemma new_half_ready:
  assumes "s_buffer st' = s_buffer st" "strong_count st' = 2" "is_ready cap atomic i st'"
  shows "is_ready cap atomic i st"
  using assms by (cases i) (auto simp: read_poll_ready_def write_poll_ready_def ready_for_write_def flag_def result_simps usub_def split: if_splits)

lemma stream_step_inv:
  assumes step: "stream_step cap atomic s t" and inv: "stream_inv cap atomic s" and atomic: "0 < atomic"
  shows "stream_inv cap atomic t"
  using step
proof cases
  case (read n data st)
  then show ?thesis using took_inv [OF inv stream_read_took atomic] by simp
next
  case (read_to_user split copy n l st)
  then show ?thesis using took_inv [OF inv conjunct1 [OF stream_read_to_user_took] atomic] by simp
next
  case (push bs n st)
  note w = write_push_Ok [OF push(4)]
  have "stream_inv cap atomic (s\<lparr>strm := st, sent := sent s @ take n bs, owed := Suc (owed s)\<rparr>)"
    by (rule owed_inv [OF inv]) (use w inv in \<open>auto simp: stream_inv_def\<close>)
  then show ?thesis using push(1) by simp
next
  case (push_user n second fetch l st)
  obtain bs where w: "st = (strm s)\<lparr>s_buffer := s_buffer (strm s) @ bs\<rparr>" "length (s_buffer (strm s)) + length bs \<le> cap"
    using write_push_user_Ok [OF push_user(4)] push_user(5) by blast
  have "stream_inv cap atomic (s\<lparr>strm := st, sent := sent s @ bs, owed := Suc (owed s)\<rparr>)"
    by (rule owed_inv [OF inv]) (use w inv in \<open>auto simp: stream_inv_def\<close>)
  then show ?thesis using push_user(1) by (simp add: w(1))
next
  case (notify st)
  then show ?thesis using notified_inv [OF inv] by simp
next
  case (set_flags st)
  then show ?thesis using notified_inv [OF inv, of st "owed s"] by simp
next
  case drop_read
  then show ?thesis using inv by (simp add: stream_inv_def)
next
  case drop_write
  then show ?thesis using inv by (simp add: stream_inv_def)
next
  case (new_write_half st)
  then have "s_buffer st = s_buffer (strm s)" "s_notify st = s_notify (strm s)" "strong_count st = 2"
    by (auto simp: make_write_half_def result_simps strong_count_def)
  then show ?thesis unfolding new_write_half(1) using fewer_ready [OF inv] new_half_ready by blast
next
  case (new_read_half st)
  then have "s_buffer st = s_buffer (strm s)" "s_notify st = s_notify (strm s)" "strong_count st = 2"
    by (auto simp: make_read_half_def result_simps strong_count_def)
  then show ?thesis unfolding new_read_half(1) using fewer_ready [OF inv] new_half_ready by blast
next
  case (wait t i)
  then show ?thesis using inv by (auto simp: stream_inv_def waits_since_def Notify_wait_def)
next
  case (look t i g)
  then show ?thesis using inv by (auto simp: stream_inv_def waits_since_def)
next
  case (resume t i g)
  then show ?thesis using inv by (auto simp: stream_inv_def waits_since_def)
qed


text \<open>A stream with room for atomic writes of at least one byte.\<close>

lemma stream_init_inv: "stream_init s \<Longrightarrow> stream_inv cap atomic s"
  by (auto simp: stream_init_def stream_inv_def Stream_new_def Notify_new_def waits_since_def)


interpretation unix_stream: step_system stream_init "stream_step SOCKET_CAPACITY 1" "stream_inv SOCKET_CAPACITY 1"
  by unfold_locales (erule stream_init_inv, rule stream_step_inv, simp_all)

section \<open>Properties\<close>



text \<open>
  C18. The outcome of a write to a pipe. Without a reader it fails with \<^verbatim>\<open>Pipe\<close>. Up to \<^verbatim>\<open>PIPE_BUF\<close>
  bytes are written all or not at all; more are written as far as there is room, if there is any;
  a write that finds no room fails with \<^verbatim>\<open>Again\<close> and changes nothing.
\<close>

theorem pipe_write_outcome:
  assumes "length (s_buffer st) \<le> PIPE_CAPACITY" "unat (generation (s_notify st)) + 1 < 2 ^ 64"
  shows "\<exists>r st'. stream_write PIPE_CAPACITY PIPE_BUF bs st = (r, st') \<and>
    (let room = PIPE_CAPACITY - length (s_buffer st);
         n = (if length bs \<le> PIPE_BUF then length bs else min (length bs) room) in
     if strong_count st \<le> 1 then r = Err Pipe \<and> st' = st
     else if bs = [] then r = Ok 0 \<and> st' = st
     else if n \<le> room \<and> 0 < n then r = Ok n \<and> s_buffer st' = s_buffer st @ take n bs
     else r = Err Again \<and> st' = st)"
proof -
  have n: "stream_notify st1 = (Ok (), st1\<lparr>s_notify := \<lparr>generation = generation (s_notify st) + 1, wakers = []\<rparr>\<rparr>)"
    if "s_notify st1 = s_notify st" for st1
    using that assms(2) by (simp add: stream_notify_def Notify_notify_def wadd_def)
  show ?thesis using assms(1) n
    by (auto simp: stream_write_def write_push_def write_room_def sbind_def ensure_def usub_def Let_def)
qed


section \<open>An example\<close>





theorem pipe_write_outcome_witness:
  "length (s_buffer Stream_new) \<le> PIPE_CAPACITY \<and>
   (\<exists>st'. stream_write PIPE_CAPACITY PIPE_BUF [1, 2] Stream_new = (Ok 2, st') \<and> s_buffer st' = [1, 2])"
proof -
  have a: "length (s_buffer Stream_new) \<le> PIPE_CAPACITY" "unat (generation (s_notify Stream_new)) + 1 < 2 ^ 64"
    by (simp_all add: Stream_new_def Notify_new_def)
  from pipe_write_outcome [OF a, of "[1, 2]"] a show ?thesis by (simp add: Stream_new_def strong_count_def Let_def numeral_2_eq_2)
qed

end
