(* ===== verification/Eventfd.thy ===== *)
theory Eventfd
  imports Streams
begin

text \<open>
  Event descriptors, \<^verbatim>\<open>tee/kernel/src/fs/fd/eventfd.rs\<close>: a counter that writes add to and a read
  takes, with a notification for those who wait until it can be read or written.
\<close>

section \<open>Operations\<close>

definition u64_bytes :: "u64 \<Rightarrow> bytes" where
  "u64_bytes w = map (\<lambda>i. ucast (drop_bit (8 * i) w)) [0..<8]"

fun bytes_u64 :: "bytes \<Rightarrow> u64" where
  "bytes_u64 [] = 0"
| "bytes_u64 (b # bs) = ucast b OR push_bit 8 (bytes_u64 bs)"

record eventfd =
  e_ownership :: ownership
  e_notify :: notify
  e_counter :: u64

definition EventFd_new :: "u32 \<Rightarrow> u32 \<Rightarrow> u32 \<Rightarrow> eventfd" where
  "EventFd_new initval uid gid =
     \<lparr>e_ownership = Ownership_new (OWNER_READ OR OWNER_WRITE) uid gid, e_notify = Notify_new, e_counter = ucast initval\<rparr>"

definition eventfd_read :: "nat \<Rightarrow> (eventfd, bytes) stateful" where
  "eventfd_read n =
     sbind (slift (ensure (n = 8) Inval (Ok ()))) (\<lambda>_.
     sbind (\<lambda>e. (Ok (e_counter e), e\<lparr>e_counter := 0\<rparr>)) (\<lambda>v.
       slift (ensure (v \<noteq> 0) Again (Ok (u64_bytes v)))))"

definition checked_add :: "u64 \<Rightarrow> u64 \<Rightarrow> u64 option" where
  "checked_add a b = (if unat a + unat b < 2 ^ 64 then Some (a + b) else None)"

text \<open>
  The loop around \<^verbatim>\<open>compare_exchange\<close>: \<open>seen\<close> are the values that it finds, one for each time
  it is tried while others write; after them it finds the value that was expected. The result is
  the value before and after.
\<close>

fun add_loop :: "u64 \<Rightarrow> u64 \<Rightarrow> u64 list \<Rightarrow> (u64 \<times> u64) result" where
  "add_loop add old [] = rmap (\<lambda>new. (old, new)) (ok_or (checked_add old add) Again)"
| "add_loop add old (v # seen) =
     rbind (ok_or (checked_add old add) Again) (\<lambda>new.
       if v = old then Ok (old, new) else add_loop add v seen)"

definition eventfd_notify :: "(eventfd, unit) stateful" where
  "eventfd_notify e =
     (case Notify_notify (e_notify e) of
        Ok (n, _) \<Rightarrow> (Ok (), e\<lparr>e_notify := n\<rparr>)
      | Err x \<Rightarrow> (Err x, e)
      | Panic \<Rightarrow> (Panic, e))"

definition eventfd_write :: "u64 list \<Rightarrow> bytes \<Rightarrow> (eventfd, nat) stateful" where
  "eventfd_write seen buf =
     sbind (slift (ensure (length buf = 8) Inval (Ok ()))) (\<lambda>_.
       let add = bytes_u64 buf in
       if add = 0 then sret 8
       else sbind (\<lambda>e. (add_loop add (e_counter e) seen, e)) (\<lambda>(old, new).
         sbind (\<lambda>e. (Ok (), e\<lparr>e_counter := new\<rparr>)) (\<lambda>_.
         sbind (if old = 0 then eventfd_notify else sret ()) (\<lambda>_. sret 8))))"

definition eventfd_poll_ready :: "event set \<Rightarrow> u64 \<Rightarrow> event set" where
  "eventfd_poll_ready ev c = (flag READ (c \<noteq> 0) \<union> flag WRITE (c \<noteq> - 1)) \<inter> ev"

section \<open>Bytes of a word\<close>

lemma bytes_u64_bit: "bit (bytes_u64 bs) n = (n < 64 \<and> n div 8 < length bs \<and> bit (bs ! (n div 8)) (n mod 8))"
proof (induction bs arbitrary: n)
  case (Cons b bs)
  show ?case
  proof (cases "n < 8")
    case True
    then show ?thesis by (simp add: bit_simps)
  next
    case False
    then obtain m where m: "n = m + 8" by (metis add.commute le_add_diff_inverse not_less)
    have "\<not> bit b n" using False by (auto dest: bit_imp_le_length)
    moreover have "(m + 8) div 8 = Suc (m div 8)" by simp
    ultimately show ?thesis by (auto simp: bit_simps m Cons.IH)
  qed
qed simp

lemma length_u64_bytes [simp]: "length (u64_bytes w) = 8"
  by (simp add: u64_bytes_def)

lemma bytes_u64_bytes: "bytes_u64 (u64_bytes w) = w"
proof (rule bit_word_eqI)
  fix n assume "n < LENGTH(64)"
  then have n: "n < 64" "n div 8 < 8" by auto
  have "8 * (n div 8) + n mod 8 = n" by simp
  then show "bit (bytes_u64 (u64_bytes w)) n = bit w n" using n
    by (simp add: bytes_u64_bit u64_bytes_def bit_simps)
qed

lemma u64_bytes_u64: "length bs = 8 \<Longrightarrow> u64_bytes (bytes_u64 bs) = bs"
  by (rule nth_equalityI, simp, rule bit_word_eqI) (auto simp: u64_bytes_def bytes_u64_bit bit_simps)


section \<open>The transition system\<close>

text \<open>
  The counter and the tasks that wait on it. A write is the successful \<^verbatim>\<open>compare_exchange\<close>; the
  notification follows. \<open>added\<close> and \<open>taken\<close> are the sums of what was written and read.
\<close>

datatype waiter = Free | Looking "event set" u64 | Asleep "event set" u64

record eventfd_sys =
  evfd :: eventfd
  waiters :: "nat \<Rightarrow> waiter"
  debt :: nat
  added :: nat
  taken :: nat

inductive eventfd_step :: "eventfd_sys \<Rightarrow> eventfd_sys \<Rightarrow> bool" where
  read: "eventfd_read n (evfd s) = (Ok bs, e) \<Longrightarrow>
    eventfd_step s (s\<lparr>evfd := e, taken := taken s + unat (bytes_u64 bs)\<rparr>)"
| write_add: "add \<noteq> 0 \<Longrightarrow> add_loop add old seen = Ok (e_counter (evfd s), new) \<Longrightarrow>
    eventfd_step s (s\<lparr>evfd := (evfd s)\<lparr>e_counter := new\<rparr>, added := added s + unat add,
      debt := debt s + (if e_counter (evfd s) = 0 then 1 else 0)\<rparr>)"
| notify: "debt s > 0 \<Longrightarrow> eventfd_notify (evfd s) = (Ok (), e) \<Longrightarrow>
    eventfd_step s (s\<lparr>evfd := e, debt := debt s - 1\<rparr>)"
| wait: "waiters s t = Free \<Longrightarrow>
    eventfd_step s (s\<lparr>waiters := (waiters s)(t := Looking ev (start_generation (Notify_wait (e_notify (evfd s)))))\<rparr>)"
| look: "waiters s t = Looking ev g \<Longrightarrow>
    eventfd_step s (s\<lparr>waiters := (waiters s)(t :=
      if eventfd_poll_ready ev (e_counter (evfd s)) \<noteq> {} then Free else Asleep ev g)\<rparr>)"
| resume: "waiters s t = Asleep ev g \<Longrightarrow> generation (e_notify (evfd s)) \<noteq> g \<Longrightarrow>
    eventfd_step s (s\<lparr>waiters := (waiters s)(t := Free)\<rparr>)"

definition eventfd_init :: "u32 \<Rightarrow> eventfd_sys \<Rightarrow> bool" where
  "eventfd_init initval s \<longleftrightarrow> (\<exists>uid gid.
     s = \<lparr>evfd = EventFd_new initval uid gid, waiters = (\<lambda>_. Free), debt = 0, added = 0, taken = 0\<rparr>)"

definition since :: "u64 \<Rightarrow> waiter \<Rightarrow> bool" where
  "since g w \<longleftrightarrow> (\<exists>ev. w = Looking ev g \<or> w = Asleep ev g)"

definition eventfd_inv :: "u32 \<Rightarrow> eventfd_sys \<Rightarrow> bool" where
  "eventfd_inv initval s \<longleftrightarrow>
     unat initval + added s = taken s + unat (e_counter (evfd s)) \<and>
     (\<forall>t g. since g (waiters s t) \<longrightarrow> g \<le> generation (e_notify (evfd s))) \<and>
     (\<forall>t ev g. waiters s t = Asleep ev g \<and> READ \<in> ev \<and> e_counter (evfd s) \<noteq> 0 \<longrightarrow>
        g \<noteq> generation (e_notify (evfd s)) \<or> 0 < debt s)"

lemma add_loop_Ok: "add_loop add old seen = Ok (c, new) \<Longrightarrow> checked_add c add = Some new"
  by (induction seen arbitrary: old) (auto simp: result_simps split: if_splits)

lemma checked_add_Some: "checked_add a b = Some c \<Longrightarrow> unat c = unat a + unat b"
  by (auto simp: checked_add_def unat_word_ariths split: if_splits)

lemma eventfd_read_Ok:
  "eventfd_read n e = (Ok bs, e') \<Longrightarrow> e' = e\<lparr>e_counter := 0\<rparr> \<and> bytes_u64 bs = e_counter e \<and> e_counter e \<noteq> 0 \<and> n = 8"
  by (auto simp: eventfd_read_def result_simps bytes_u64_bytes)

lemma eventfd_notify_Ok:
  assumes "eventfd_notify e = (Ok (), e')"
  shows "e_counter e' = e_counter e" "generation (e_notify e) < generation (e_notify e')"
proof -
  obtain n where n: "Notify_notify (e_notify e) = (Ok (n, wakers (e_notify e)) :: (_, error_kind) outcome)" "e' = e\<lparr>e_notify := n\<rparr>"
    using assms by (auto simp: eventfd_notify_def Notify_notify_def result_simps split: outcome.splits)
  show "generation (e_notify e) < generation (e_notify e')" using Notify_notify_generation [OF n(1)] n(2) by simp
qed (use assms in \<open>auto simp: eventfd_notify_def split: outcome.splits\<close>)

lemma eventfd_step_inv:
  assumes "eventfd_step s t" "eventfd_inv initval s"
  shows "eventfd_inv initval t"
  using assms(1)
proof cases
  case (read n bs e)
  then show ?thesis using assms(2) eventfd_read_Ok [OF read(2)] by (auto simp: eventfd_inv_def)
next
  case (write_add add old seen new)
  have "unat new = unat (e_counter (evfd s)) + unat add" by (rule checked_add_Some [OF add_loop_Ok [OF write_add(3)]])
  then show ?thesis using write_add(1,2) assms(2) by (auto simp: eventfd_inv_def)
next
  case (notify e)
  note n = eventfd_notify_Ok [OF notify(3)]
  have "g \<le> generation (e_notify e) \<and> g \<noteq> generation (e_notify e)" if "since g (waiters s t)" for t g
    using assms(2) n(2) that unfolding eventfd_inv_def by (metis order.strict_trans1 order.strict_implies_order order.strict_implies_not_eq)
  then show ?thesis using assms(2) n(1) notify(1) by (auto simp: eventfd_inv_def since_def)
next
  case (wait t ev)
  then show ?thesis using assms(2) by (auto simp: eventfd_inv_def Notify_wait_def since_def)
next
  case (look t ev g)
  then show ?thesis using assms(2) by (auto simp: eventfd_inv_def eventfd_poll_ready_def flag_def since_def)
next
  case (resume t ev g)
  then show ?thesis using assms(2) by (auto simp: eventfd_inv_def since_def)
qed

lemma eventfd_init_inv: "eventfd_init initval s \<Longrightarrow> eventfd_inv initval s"
proof -
  have "unat initval < 2 ^ 64" using unsigned_less [of initval, where 'a = nat] by simp
  then show "eventfd_init initval s \<Longrightarrow> eventfd_inv initval s"
    by (auto simp: eventfd_init_def eventfd_inv_def EventFd_new_def since_def unsigned_ucast_eq take_bit_nat_eq_self)
qed

interpretation evs: step_system "eventfd_init initval" eventfd_step "eventfd_inv initval" for initval
  by unfold_locales (erule eventfd_init_inv, erule (1) eventfd_step_inv [rotated])


section \<open>Properties\<close>

text \<open>
  C19. What is read from an event descriptor is what was written: the initial value and the sum
  of the values written are the sum of the values read and the counter, however reads and the
  compare-and-exchange loops of writes interleave; so that nothing is lost or counted twice.
\<close>

theorem eventfd_counts:
  assumes "reachable (eventfd_init initval) eventfd_step s"
  shows "unat initval + added s = taken s + unat (e_counter (evfd s))"
  using evs.reachable_inv [OF assms] by (simp add: eventfd_inv_def)

text \<open>
  A task that waits to read an event descriptor is woken: when no notification is under
  way and the counter is not zero, its generation is past.
\<close>

theorem eventfd_wakes_readers:
  assumes "reachable (eventfd_init initval) eventfd_step s" "debt s = 0"
    and "waiters s t = Asleep ev g" "READ \<in> ev" "e_counter (evfd s) \<noteq> 0"
  shows "g \<noteq> generation (e_notify (evfd s))"
  using evs.reachable_inv [OF assms(1)] assms(2-5) by (auto simp: eventfd_inv_def)

text \<open>
  A task that waits to write is not woken: a read takes the counter down from its maximum and
  notifies nobody. Task 0 sleeps until the descriptor can be written; it can be, no notification
  is under way, and its generation is the current one.
\<close>

lemma unat_max: "unat (- 1 :: u64) = 2 ^ 64 - 1"
  by (simp add: unsigned_minus_1_eq_mask mask_eq_exp_minus_1)

definition full_eventfd :: eventfd_sys where
  "full_eventfd = \<lparr>evfd = (EventFd_new 0 0 0)\<lparr>e_counter := - 1, e_notify := \<lparr>generation = 1, wakers = []\<rparr>\<rparr>,
     waiters = (\<lambda>_. Free)(0 := Asleep {WRITE} 1), debt = 0, added = 2 ^ 64 - 1, taken = 0\<rparr>"

lemma full_eventfd_reachable: "reachable (eventfd_init 0) eventfd_step full_eventfd"
proof -
  define s0 where "s0 = \<lparr>evfd = EventFd_new 0 0 0, waiters = (\<lambda>_. Free), debt = 0, added = 0, taken = 0\<rparr>"
  define s1 where "s1 = s0\<lparr>evfd := (EventFd_new 0 0 0)\<lparr>e_counter := - 1\<rparr>, added := 2 ^ 64 - 1, debt := 1\<rparr>"
  define s2 where "s2 = s1\<lparr>evfd := (evfd s1)\<lparr>e_notify := \<lparr>generation = 1, wakers = []\<rparr>\<rparr>, debt := 0\<rparr>"
  define s3 where "s3 = s2\<lparr>waiters := (\<lambda>_. Free)(0 := Looking {WRITE} 1)\<rparr>"
  note defs = s0_def s1_def s2_def s3_def EventFd_new_def Notify_new_def
  have 0: "reachable (eventfd_init 0) eventfd_step s0" by (rule reachable.start) (auto simp: eventfd_init_def s0_def)
  have "add_loop (- 1) 0 [] = Ok (e_counter (evfd s0), - 1)" by (simp add: defs checked_add_def ok_or_def unat_max)
  then have 1: "eventfd_step s0 s1" using eventfd_step.write_add [of "- 1" 0 "[]" s0 "- 1"] by (simp add: defs unat_max)
  have "eventfd_notify (evfd s1) = (Ok (), (evfd s1)\<lparr>e_notify := \<lparr>generation = 1, wakers = []\<rparr>\<rparr>)"
    by (simp add: defs eventfd_notify_def Notify_notify_def wadd_def)
  then have 2: "eventfd_step s1 s2" using eventfd_step.notify [of s1] by (simp add: defs)
  have 3: "eventfd_step s2 s3" using eventfd_step.wait [of s2 0 "{WRITE}"] by (simp add: defs Notify_wait_def)
  have 4: "eventfd_step s3 full_eventfd"
    using eventfd_step.look [of s3 0 "{WRITE}" 1] by (simp add: defs full_eventfd_def eventfd_poll_ready_def flag_def)
  from 0 1 2 3 4 show ?thesis by (blast intro: reachable.step)
qed

theorem eventfd_writer_not_woken:
  "\<exists>s. reachable (eventfd_init 0) eventfd_step s \<and> debt s = 0 \<and> waiters s 0 = Asleep {WRITE} (generation (e_notify (evfd s))) \<and>
     eventfd_poll_ready {WRITE} (e_counter (evfd s)) = {WRITE}"
proof -
  let ?s = "full_eventfd\<lparr>evfd := (evfd full_eventfd)\<lparr>e_counter := 0\<rparr>, taken := 2 ^ 64 - 1\<rparr>"
  have "eventfd_read 8 (evfd full_eventfd) = (Ok (u64_bytes (- 1)), (evfd full_eventfd)\<lparr>e_counter := 0\<rparr>)"
    by (simp add: eventfd_read_def sbind_def ensure_def full_eventfd_def)
  from eventfd_step.read [OF this] have "eventfd_step full_eventfd ?s"
    by (simp add: bytes_u64_bytes full_eventfd_def unat_max)
  then have "reachable (eventfd_init 0) eventfd_step ?s" using full_eventfd_reachable reachable.step by metis
  then show ?thesis by (intro exI [of _ ?s]) (simp add: full_eventfd_def eventfd_poll_ready_def flag_def)
qed

theorem eventfd_counts_witness:
  "reachable (eventfd_init 0) eventfd_step full_eventfd \<and> unat (0 :: u32) + added full_eventfd = taken full_eventfd + unat (e_counter (evfd full_eventfd)) \<and>
   added full_eventfd = 2 ^ 64 - 1"
  using eventfd_counts [OF full_eventfd_reachable] full_eventfd_reachable by (simp add: full_eventfd_def)

end
