(* ===== verification/Open_File.thy ===== *)
theory Open_File
  imports Tmpfs Streams
begin

text \<open>
  Open files, \<^verbatim>\<open>tee/kernel/src/fs/fd/file.rs\<close>, on the files of the in-memory file system. A
  description has a cursor; the four kinds of description are one record with the kind of access.
  The path a description only reports, and its file lock, are left out.
  The state of an operation is the description, the heap of pages and the store of nodes.
\<close>

section \<open>Descriptions\<close>


datatype access = Readonly | Writeonly | Append | ReadWrite

record description =
  d_access :: access
  d_file :: nid
  d_flags :: u64
  cursor :: nat

type_synonym open_state = "description \<times> heap \<times> fs"

definition new_description :: "access \<Rightarrow> nid \<Rightarrow> u64 \<Rightarrow> description" where
  "new_description acc n flags = \<lparr>d_access = acc, d_file = n, d_flags = flags, cursor = 0\<rparr>"

definition open_file :: "nid \<Rightarrow> u64 \<Rightarrow> (heap \<times> fs, description) stateful" where
  "open_file n flags =
     sbind (slift (ensure (\<not> contains flags OpenFlags_DIRECTORY) IsDir (Ok ()))) (\<lambda>_.
     sbind (if contains flags OpenFlags_TRUNC then file_truncate n 0 else sret ()) (\<lambda>_.
       sret (new_description
         (if contains flags OpenFlags_WRONLY then
            (if contains flags OpenFlags_APPEND then Append else Writeonly)
          else if contains flags OpenFlags_RDWR then ReadWrite
          else Readonly) n flags)))"

definition with_node :: "(nid \<Rightarrow> (heap \<times> fs, 'a) stateful) \<Rightarrow> (open_state, 'a) stateful" where
  "with_node g = (\<lambda>(d, hs). case g (d_file d) hs of (r, hs') \<Rightarrow> (r, (d, hs')))"

definition set_cursor :: "nat \<Rightarrow> (open_state, unit) stateful" where
  "set_cursor c = (\<lambda>(d, hs). (Ok (), (d\<lparr>cursor := c\<rparr>, hs)))"

text \<open>\<^verbatim>\<open>*guard += len\<close>.\<close>

definition advance :: "nat \<Rightarrow> (open_state, unit) stateful" where
  "advance n s = sbind (slift (uadd (cursor (fst s)) n)) set_cursor s"

definition can_read :: "description \<Rightarrow> bool" where
  "can_read d \<longleftrightarrow> d_access d = Readonly \<or> d_access d = ReadWrite"

definition can_seek_write :: "description \<Rightarrow> bool" where
  "can_seek_write d \<longleftrightarrow> d_access d = Writeonly \<or> d_access d = ReadWrite"

definition description_read :: "bytes \<Rightarrow> (open_state, nat \<times> bytes) stateful" where
  "description_read buf s =
     (if can_read (fst s) then
        sbind (with_node (\<lambda>n. file_read n (cursor (fst s)) buf (contains (d_flags (fst s)) OpenFlags_NOATIME)))
          (\<lambda>(k, buf'). sbind (advance k) (\<lambda>_. sret (k, buf'))) s
      else (Err Inval, s))"

definition description_pread :: "nat \<Rightarrow> bytes \<Rightarrow> (open_state, nat \<times> bytes) stateful" where
  "description_pread pos buf s =
     (if can_read (fst s)
      then with_node (\<lambda>n. file_read n pos buf (contains (d_flags (fst s)) OpenFlags_NOATIME)) s
      else (Err Inval, s))"

definition description_write :: "bytes \<Rightarrow> (open_state, nat) stateful" where
  "description_write buf s =
     (case d_access (fst s) of
        Readonly \<Rightarrow> (Err Inval, s)
      | Append \<Rightarrow> with_node (\<lambda>n. file_append n buf) s
      | _ \<Rightarrow> sbind (with_node (\<lambda>n. file_write n (cursor (fst s)) buf)) (\<lambda>k. sbind (advance k) (\<lambda>_. sret k)) s)"

definition description_pwrite :: "nat \<Rightarrow> bytes \<Rightarrow> (open_state, nat) stateful" where
  "description_pwrite pos buf s =
     (if can_seek_write (fst s) then with_node (\<lambda>n. file_write n pos buf) s else (Err Inval, s))"

definition description_truncate :: "nat \<Rightarrow> (open_state, unit) stateful" where
  "description_truncate l s =
     (if can_seek_write (fst s) then with_node (\<lambda>n. file_truncate n l) s else (Err Inval, s))"

datatype whence = Set | Cur | End | Data | Hole

text \<open>\<^verbatim>\<open>offset as isize\<close> and \<^verbatim>\<open>checked_add_signed\<close>.\<close>

definition as_isize :: "nat \<Rightarrow> int" where
  "as_isize x = (if x < 2 ^ 63 then int x else int x - 2 ^ 64)"

definition checked_add_signed :: "nat \<Rightarrow> int \<Rightarrow> nat option" where
  "checked_add_signed a b = (if 0 \<le> int a + b \<and> int a + b < 2 ^ 64 then Some (nat (int a + b)) else None)"

definition file_size :: "description \<Rightarrow> fs \<Rightarrow> nat result" where
  "file_size d s = rmap (\<lambda>st. nat (st_size st)) (stat_of (d_file d) s)"

definition seek_to :: "description \<Rightarrow> fs \<Rightarrow> nat \<Rightarrow> whence \<Rightarrow> nat result" where
  "seek_to d s offset whence =
     (case whence of
        Set \<Rightarrow> Ok offset
      | Cur \<Rightarrow> ok_or (checked_add_signed (cursor d) (as_isize offset)) Inval
      | End \<Rightarrow> rbind (file_size d s) (\<lambda>n. ok_or (checked_add_signed n (as_isize offset)) Inval)
      | Data \<Rightarrow> if d_access d = Readonly then rbind (file_size d s) (\<lambda>n. ensure (offset < n) XIo (Ok offset)) else Panic
      | Hole \<Rightarrow> if d_access d = Readonly then rbind (file_size d s) (\<lambda>n. ensure (offset < n) XIo (Ok n)) else Panic)"

definition description_seek :: "nat \<Rightarrow> whence \<Rightarrow> (open_state, nat) stateful" where
  "description_seek offset whence s =
     (if d_access (fst s) = Append then (Err SPipe, s)
      else sbind (slift (seek_to (fst s) (snd (snd s)) offset whence)) (\<lambda>c. sbind (set_cursor c) (\<lambda>_. sret c)) s)"

definition description_poll_ready :: "access \<Rightarrow> event set \<Rightarrow> event set" where
  "description_poll_ready acc ev =
     ev \<inter> (case acc of Readonly \<Rightarrow> {READ} | ReadWrite \<Rightarrow> {READ, WRITE} | _ \<Rightarrow> {WRITE})"

section \<open>Files as byte strings\<close>

definition file_ok :: "nid \<Rightarrow> kernel_page multiset \<Rightarrow> heap \<times> fs \<Rightarrow> bool" where
  "file_ok n M hs \<longleftrightarrow> (\<exists>f. nodes (snd hs) n = Some (TmpFsFile f) \<and> buf_inv (fst hs, f_buffer f) M)"

definition contents :: "nid \<Rightarrow> heap \<times> fs \<Rightarrow> bytes" where
  "contents n hs = (case nodes (snd hs) n of Some (TmpFsFile f) \<Rightarrow> flat (fst hs, f_buffer f) | _ \<Rightarrow> [])"

lemma with_file_eq:
  assumes "nodes s n = Some (TmpFsFile f)" "f_buffer (touch (clock s) f) = f_buffer f"
    and "g (f_buffer f) (h, f_buffer f) = (r, (h', b))"
  shows "\<exists>s'. with_file n touch g (h, s) = (r, (h', s')) \<and> (\<exists>f'. nodes s' n = Some (TmpFsFile f') \<and> f_buffer f' = b)"
  using assms by (auto simp: with_file_def Let_def set_node_def)

lemma file_read_spec:
  assumes "file_ok n M hs"
  shows "\<exists>hs'. file_read n offset buf no_atime hs =
      (Ok (min (length (contents n hs) - offset) (length buf),
        take (min (length (contents n hs) - offset) (length buf)) (drop offset (contents n hs)) @
        drop (min (length (contents n hs) - offset) (length buf)) buf), hs') \<and>
    file_ok n M hs' \<and> contents n hs' = contents n hs"
proof -
  obtain h s f where hs: "hs = (h, s)" "nodes s n = Some (TmpFsFile f)" "buf_inv (h, f_buffer f) M"
    using assms by (cases hs) (auto simp: file_ok_def)
  let ?c = "contents n hs"
  have c: "?c = flat (h, f_buffer f)" by (simp add: contents_def hs)
  let ?k = "min (length ?c - offset) (length buf)"
  have r: "Page_Buffer.read offset buf (h, f_buffer f) = (Ok (?k, take ?k (drop offset ?c) @ drop ?k buf), (h, f_buffer f))"
    using buffer_read_spec [OF hs(3), of offset buf] by (simp add: c flat_read_def)
  let ?touch = "\<lambda>t f. if no_atime then f else f\<lparr>f_atime := t\<rparr>"
  obtain s' f' where s': "with_file n ?touch (\<lambda>_. Page_Buffer.read offset buf) (h, s) =
      (Ok (?k, take ?k (drop offset ?c) @ drop ?k buf), (h, s'))" "nodes s' n = Some (TmpFsFile f')" "f_buffer f' = f_buffer f"
    using with_file_eq [OF hs(2), where touch = ?touch and g = "\<lambda>_. Page_Buffer.read offset buf" and h = h, OF _ r] by auto
  have "file_ok n M (h, s')" "contents n (h, s') = ?c" using s' hs c by (auto simp: file_ok_def contents_def)
  then show ?thesis using s'(1) unfolding file_read_def hs(1) [symmetric] by (auto simp: hs(1))
qed

text \<open>The operations that change the buffer.\<close>

lemma with_file_spec:
  assumes "file_ok n M (h, s)" "\<And>c f. f_buffer (touch c f) = f_buffer f"
    and "\<And>b. buf_inv (h, b) M \<Longrightarrow> \<exists>r t. g b (h, b) = (r, t) \<and> buf_inv t M \<and> P r (flat (h, b)) (flat t)"
  shows "\<exists>r hs'. with_file n touch g (h, s) = (r, hs') \<and> file_ok n M hs' \<and> P r (contents n (h, s)) (contents n hs')"
proof -
  obtain f where f: "nodes s n = Some (TmpFsFile f)" "buf_inv (h, f_buffer f) M" using assms(1) by (auto simp: file_ok_def)
  obtain r h' b where g: "g (f_buffer f) (h, f_buffer f) = (r, (h', b))" "buf_inv (h', b) M" "P r (flat (h, f_buffer f)) (flat (h', b))"
    using assms(3) [OF f(2)] by auto
  obtain s' f' where "with_file n touch g (h, s) = (r, (h', s'))" "nodes s' n = Some (TmpFsFile f')" "f_buffer f' = b"
    using with_file_eq [where touch = touch and g = g, OF f(1) assms(2) g(1)] by blast
  then show ?thesis using f g by (auto simp: file_ok_def contents_def)
qed

definition wrote :: "nat \<Rightarrow> bytes \<Rightarrow> nat result \<Rightarrow> bytes \<Rightarrow> bytes \<Rightarrow> bool" where
  "wrote offset bs r old new \<longleftrightarrow> r = Ok (length bs) \<and> new = flat_write offset bs old \<or> r = Err NoMem \<and> length new = length old"

lemma buffer_write_wrote:
  assumes "buf_inv (h, b) M" "offset + length bs < usize_bound"
  shows "\<exists>r t. buffer_write offset bs (h, b) = (r, t) \<and> buf_inv t M \<and> wrote offset bs r (flat (h, b)) (flat t)"
  using buffer_write_done [OF assms] by (auto simp: write_done_def wrote_def)

lemma file_write_spec:
  assumes "file_ok n M hs" "offset + length bs < usize_bound"
  shows "\<exists>r hs'. file_write n offset bs hs = (r, hs') \<and> file_ok n M hs' \<and> wrote offset bs r (contents n hs) (contents n hs')"
  using with_file_spec [of n M "fst hs" "snd hs" touch_write "\<lambda>_. buffer_write offset bs" "wrote offset bs"]
    buffer_write_wrote [OF _ assms(2)] assms(1)
  by (simp add: file_write_def touch_write_def)

lemma file_append_spec:
  assumes "file_ok n M hs" "length (contents n hs) + length bs < usize_bound"
  shows "\<exists>r hs'. file_append n bs hs = (r, hs') \<and> file_ok n M hs' \<and> wrote (length (contents n hs)) bs r (contents n hs) (contents n hs')"
proof -
  obtain h s where hs: "hs = (h, s)" by (cases hs)
  obtain f where f: "nodes s n = Some (TmpFsFile f)" "buf_inv (h, f_buffer f) M" using assms(1) by (auto simp: file_ok_def hs)
  have "len (f_buffer f) = length (contents n hs)" using length_flat [OF f(2)] by (simp add: contents_def hs f)
  then have "file_append n bs hs = file_write n (length (contents n hs)) bs hs"
    using f by (simp add: file_append_def file_write_def with_file_def hs Let_def touch_write_def)
  then show ?thesis using file_write_spec [OF assms] by simp
qed

lemma file_truncate_spec:
  assumes "file_ok n M hs" "l < usize_bound"
  shows "\<exists>r hs'. file_truncate n l hs = (r, hs') \<and> file_ok n M hs' \<and>
    (r = Ok () \<and> contents n hs' = flat_truncate l (contents n hs) \<or> r = Err NoMem \<and> contents n hs' = contents n hs)"
  using with_file_spec [of n M "fst hs" "snd hs" touch_write "\<lambda>_. Page_Buffer.truncate l"
      "\<lambda>r old new. r = Ok () \<and> new = flat_truncate l old \<or> r = Err NoMem \<and> new = old"]
    buffer_truncate_spec [OF _ assms(2)] assms(1)
  by (fastforce simp: file_truncate_def touch_write_def)

section \<open>Descriptions as cursors into byte strings\<close>

definition description_ok :: "kernel_page multiset \<Rightarrow> open_state \<Rightarrow> bool" where
  "description_ok M s \<longleftrightarrow> file_ok (d_file (fst s)) M (snd s) \<and> cursor (fst s) < usize_bound"

definition data :: "open_state \<Rightarrow> bytes" where
  "data s = contents (d_file (fst s)) (snd s)"

lemma description_read_spec:
  assumes ok: "description_ok M s" and r: "can_read (fst s)" and len: "length (data s) < usize_bound"
    and k_def: "k = min (length (data s) - cursor (fst s)) (length buf)"
  shows "\<exists>t. description_read buf s = (Ok (k, take k (drop (cursor (fst s)) (data s)) @ drop k buf), t) \<and>
    fst t = (fst s)\<lparr>cursor := cursor (fst s) + k\<rparr> \<and> description_ok M t \<and> data t = data s"
proof -
  obtain d hs where s: "s = (d, hs)" by (cases s)
  obtain hs' where f: "file_read (d_file d) (cursor d) buf (contains (d_flags d) OpenFlags_NOATIME) hs =
      (Ok (k, take k (drop (cursor d) (data s)) @ drop k buf), hs')" "file_ok (d_file d) M hs'" "contents (d_file d) hs' = data s"
    using file_read_spec [of "d_file d" M hs "cursor d" buf] ok unfolding k_def s data_def description_ok_def by fastforce
  have "k = 0 \<or> cursor d + k \<le> length (data s)" by (auto simp: k_def s)
  then have c: "cursor d + k < usize_bound" using ok len by (auto simp: s description_ok_def)
  have "description_read buf s = (Ok (k, take k (drop (cursor d) (data s)) @ drop k buf), (d\<lparr>cursor := cursor d + k\<rparr>, hs'))"
    using r c f(1) by (simp add: description_read_def with_node_def sbind_def s advance_def set_cursor_def uadd_def)
  then show ?thesis using f c by (simp add: s description_ok_def data_def)
qed

lemma description_write_spec:
  assumes ok: "description_ok M s" and w: "can_seek_write (fst s)" and len: "cursor (fst s) + length bs < usize_bound"
  shows "\<exists>r t. description_write bs s = (r, t) \<and> description_ok M t \<and> wrote (cursor (fst s)) bs r (data s) (data t) \<and>
    fst t = (if r = Ok (length bs) then (fst s)\<lparr>cursor := cursor (fst s) + length bs\<rparr> else fst s)"
proof -
  obtain d hs where s: "s = (d, hs)" by (cases s)
  obtain r hs' where f: "file_write (d_file d) (cursor d) bs hs = (r, hs')" "file_ok (d_file d) M hs'"
    "wrote (cursor d) bs r (data s) (contents (d_file d) hs')"
    using file_write_spec [of "d_file d" M hs "cursor d" bs] ok len by (auto simp: s data_def description_ok_def)
  have acc: "d_access d = Writeonly \<or> d_access d = ReadWrite" using w by (simp add: s can_seek_write_def)
  show ?thesis
  proof (cases "r = Ok (length bs)")
    case True
    then have "description_write bs s = (r, (d\<lparr>cursor := cursor d + length bs\<rparr>, hs'))"
      using acc f(1) len by (auto simp: description_write_def with_node_def sbind_def s advance_def set_cursor_def uadd_def)
    then show ?thesis using True f len by (simp add: s description_ok_def data_def)
  next
    case False
    then have "r = Err NoMem" using f(3) by (simp add: wrote_def)
    moreover from this have "description_write bs s = (r, (d, hs'))"
      using acc f(1) by (auto simp: description_write_def with_node_def sbind_def s)
    ultimately show ?thesis using f ok by (simp add: s description_ok_def data_def)
  qed
qed

lemma flat_write_read: "take (length bs) (drop c (flat_write c bs f)) = bs"
  by (cases "bs = []") (simp_all add: flat_write_def flat_truncate_def)

section \<open>Properties\<close>

lemma read_back:
  assumes "description_ok M t" "d_access (fst t) = ReadWrite" "c < usize_bound"
    and "data t = flat_write c bs f" "length (data t) < usize_bound" "length buf = length bs"
  shows "\<exists>u v. description_seek c Set t = (Ok c, u) \<and> description_read buf u = (Ok (length bs, bs), v) \<and>
    cursor (fst v) = c + length bs \<and> data v = data t"
proof -
  define u where "u = ((fst t)\<lparr>cursor := c\<rparr>, snd t)"
  have seek: "description_seek c Set t = (Ok c, u)"
    using assms(2) by (cases t) (simp add: description_seek_def seek_to_def sbind_def set_cursor_def u_def)
  have u: "description_ok M u" "can_read (fst u)" "data u = data t" "cursor (fst u) = c"
    using assms(1-3) by (auto simp: u_def description_ok_def data_def can_read_def)
  have k: "length bs = min (length (data u) - cursor (fst u)) (length buf)"
  proof (cases "bs = []")
    case False
    then show ?thesis unfolding u(3,4) assms(4,6) length_flat_write [OF False] by simp
  qed (simp add: assms(6))
  have "take (length bs) (drop (cursor (fst u)) (data u)) @ drop (length bs) buf = bs"
    by (simp add: u(3,4) assms(4,6) flat_write_read)
  then show ?thesis
    using description_read_spec [OF u(1,2) _ k] seek assms(5) by (auto simp: u(3,4))
qed

text \<open>
  C20. What is written to an open file is read back. A write at the cursor either reports that
  there is no memory, or writes all the bytes; then seeking to where the write began and reading
  as many bytes gives these bytes and leaves the cursor behind them, and the file has the written
  bytes there, zeros where the write left a gap, and is otherwise as it was.
\<close>

theorem write_seek_read:
  assumes "description_ok M s" "d_access (fst s) = ReadWrite"
    and "cursor (fst s) + length bs < usize_bound" "length (data s) < usize_bound" "length buf = length bs"
  shows "\<exists>r t. description_write bs s = (r, t) \<and> (r = Err NoMem \<and> fst t = fst s \<or>
    r = Ok (length bs) \<and> data t = flat_write (cursor (fst s)) bs (data s) \<and>
    (\<exists>u v. description_seek (cursor (fst s)) Set t = (Ok (cursor (fst s)), u) \<and>
      description_read buf u = (Ok (length bs, bs), v) \<and> cursor (fst v) = cursor (fst s) + length bs \<and>
      data v = data t))"
proof -
  let ?c = "cursor (fst s)"
  have acc: "can_seek_write (fst s)" using assms(2) by (simp add: can_seek_write_def)
  obtain r t where w: "description_write bs s = (r, t)" "description_ok M t" "wrote ?c bs r (data s) (data t)"
    "fst t = (if r = Ok (length bs) then (fst s)\<lparr>cursor := ?c + length bs\<rparr> else fst s)"
    using description_write_spec [OF assms(1) acc assms(3)] by blast
  consider "r = Err NoMem" | "r = Ok (length bs)" "data t = flat_write ?c bs (data s)"
    using w(3) by (auto simp: wrote_def)
  then show ?thesis
  proof cases
    case 2
    have "length (data t) < usize_bound"
      using assms(3,4) by (cases "bs = []") (simp add: 2(2) flat_write_def, simp add: 2(2) length_flat_write)
    moreover have "d_access (fst t) = ReadWrite" "?c < usize_bound" using w(4) 2(1) assms(2,3) by simp_all
    ultimately show ?thesis using read_back [OF w(2) _ _ 2(2) _ assms(5)] w(1) 2 by blast
  qed (use w in simp)
qed

definition example_open :: open_state where
  "example_open = (new_description ReadWrite 2 OpenFlags_RDWR, heap_new [],
     \<lparr>nodes = [2 \<mapsto> file_node 1 420 0 0 Timespec_ZERO], ino_counter = 3, dev_counter = 2, clock = Timespec_ZERO\<rparr>)"

lemma example_open_ok: "description_ok {#} example_open" "data example_open = []" "cursor (fst example_open) = 0"
  by (simp_all add: example_open_def description_ok_def file_ok_def data_def contents_def new_description_def file_node_def
      buf_inv_def Buffer_new_def kp_inv_new nz_distinct_def flat_def)

theorem write_seek_read_witness:
  "\<exists>r t. description_write [7, 9] example_open = (r, t) \<and> (r = Err NoMem \<and> fst t = fst example_open \<or>
    r = Ok 2 \<and> data t = flat_write 0 [7, 9] [] \<and>
    (\<exists>u v. description_seek 0 Set t = (Ok 0, u) \<and>
      description_read [0, 0] u = (Ok (2, [7, 9]), v) \<and> cursor (fst v) = 2 \<and> data v = data t))"
proof -
  have "d_access (fst example_open) = ReadWrite" by (simp add: example_open_def new_description_def)
  then show ?thesis
    using write_seek_read [OF example_open_ok(1), of "[7, 9]" "[0, 0]"] by (simp add: example_open_ok(2,3) flip: numeral_2_eq_2)
qed

end
