(* ===== verification/Spin_Locks.thy ===== *)
theory Spin_Locks
  imports Interfaces
begin

text \<open>
  The spin locks of the kernel: \<^verbatim>\<open>spin/mutex.rs\<close>, \<^verbatim>\<open>spin/rwlock.rs\<close> and \<^verbatim>\<open>spin/once.rs\<close> (with
  \<^verbatim>\<open>spin/lazy.rs\<close> on top). A step is one atomic instruction of one task; the tasks interleave in
  any way. The critical sections that the other theories take as one step are what these locks
  protect.
\<close>

section \<open>Mutexes\<close>

record 'a mutex =
  locked :: bool
  cell :: 'a




text \<open>
  Where a task stands: outside, in the loop of \<open>lock\<close>, or in \<open>lock_two\<close>, before it has the mutex at
  the lower address, with it and before the other one, or about to drop it because the other
  one is taken.
\<close>

datatype lock_pc = Outside | Locking nat | First nat nat | Second nat nat | Dropping nat nat

record 'a lock_task =
  pc :: lock_pc
  guards :: "nat set"

text \<open>Mutexes by address.\<close>

record 'a mutex_sys =
  mutexes :: "nat \<Rightarrow> 'a mutex"
  lock_tasks :: "nat \<Rightarrow> 'a lock_task"











lemma same_mutex: "(mutexes s)(a := mutexes s a) = mutexes s"
  by simp








section \<open>Read-write locks\<close>

text \<open>The state is an \<^verbatim>\<open>i64\<close>, whose atomic additions wrap around.\<close>

definition i64_MIN :: int where
  "i64_MIN = - (2 ^ 63)"

definition RELOAD_LIMIT :: int where
  "RELOAD_LIMIT = - (2 ^ 62)"

definition wrap_i64 :: "int \<Rightarrow> int" where
  "wrap_i64 i = (i + 2 ^ 63) mod 2 ^ 64 - 2 ^ 63"

text \<open>
  A task is one guard or the attempt to get it. \<open>Reload\<close> is before the load in \<open>reload\<close>, \<open>Exchange v\<close>
  before the compare-and-exchange with the value \<open>v\<close> seen last.
\<close>

datatype rw_task = Idle | Reading | Writing | Reload | Exchange int

record rw_sys =
  state :: int
  rw_tasks :: "nat \<Rightarrow> rw_task"

definition try_read :: "int \<Rightarrow> rw_task \<times> int" where
  "try_read value =
     (if 0 \<le> value then Reading else if value \<le> RELOAD_LIMIT then Reload else Idle, wrap_i64 (value + 1))"

definition reload_match :: "int \<Rightarrow> rw_task" where
  "reload_match value = (if 0 \<le> value then Idle else if value \<le> RELOAD_LIMIT then Exchange value else Idle)"

definition reload_exchange :: "int \<Rightarrow> int \<Rightarrow> rw_task \<times> int" where
  "reload_exchange value st = (if st = value then (Idle, i64_MIN) else (reload_match st, st))"

definition try_write :: "int \<Rightarrow> rw_task \<times> int" where
  "try_write st = (if st = 0 then (Writing, i64_MIN) else (Idle, st))"

fun rw_instr :: "bool \<Rightarrow> rw_task \<Rightarrow> int \<Rightarrow> rw_task \<times> int" where
  "rw_instr for_write Idle st = (if for_write then try_write st else try_read st)"
| "rw_instr for_write Reload st = (reload_match st, st)"
| "rw_instr for_write (Exchange v) st = reload_exchange v st"
| "rw_instr for_write Reading st = (Idle, wrap_i64 (st - 1))"
| "rw_instr for_write Writing st = (Idle, 0)"

text \<open>\<open>n\<close> tasks, each of which tries to get a guard for reading or writing, and drops it when it has one.\<close>

inductive rw_step :: "nat \<Rightarrow> rw_sys \<Rightarrow> rw_sys \<Rightarrow> bool" for n where
  "t < n \<Longrightarrow> rw_instr for_write (rw_tasks s t) (state s) = (k, st) \<Longrightarrow>
    rw_step n s \<lparr>state = st, rw_tasks = (rw_tasks s)(t := k)\<rparr>"

definition rw_init :: "rw_sys \<Rightarrow> bool" where
  "rw_init s \<longleftrightarrow> s = \<lparr>state = 0, rw_tasks = (\<lambda>_. Idle)\<rparr>"

definition number :: "nat \<Rightarrow> ('t \<Rightarrow> bool) \<Rightarrow> (nat \<Rightarrow> 't) \<Rightarrow> nat" where
  "number n P f = card {t. t < n \<and> P (f t)}"

definition reloading :: "rw_task \<Rightarrow> bool" where
  "reloading k \<longleftrightarrow> (case k of Reload \<Rightarrow> True | Exchange v \<Rightarrow> True | _ \<Rightarrow> False)"

definition readers :: "nat \<Rightarrow> rw_sys \<Rightarrow> nat" where
  "readers n s = number n (\<lambda>k. k = Reading) (rw_tasks s)"

definition writers :: "nat \<Rightarrow> rw_sys \<Rightarrow> nat" where
  "writers n s = number n (\<lambda>k. k = Writing) (rw_tasks s)"

text \<open>
  Without a writer the state counts the readers. With one it is so far below zero that the
  attempts to read that are not yet undone do not bring it near the limit.
\<close>

definition rw_inv :: "nat \<Rightarrow> rw_sys \<Rightarrow> bool" where
  "rw_inv n s \<longleftrightarrow>
     (\<forall>t v. rw_tasks s t = Exchange v \<longrightarrow> v \<le> RELOAD_LIMIT) \<and>
     (writers n s = 0 \<and> state s = int (readers n s) \<or>
      writers n s = 1 \<and> readers n s = 0 \<and> i64_MIN \<le> state s \<and> state s \<le> i64_MIN + int (number n reloading (rw_tasks s)))"

lemma number_update:
  assumes "t < n"
  shows "number n P (f(t := k)) + of_bool (P (f t)) = number n P f + of_bool (P k)"
proof -
  let ?R = "{u. u < n \<and> u \<noteq> t \<and> P (f u)}"
  have "{u. u < n \<and> P (g u)} = (if P (g t) then insert t ?R else ?R)" if "\<And>u. u \<noteq> t \<Longrightarrow> g u = f u" for g
    using assms that by auto metis
  from this [of f] this [of "f(t := k)"] have "number n P f = card ?R + of_bool (P (f t))"
    "number n P (f(t := k)) = card ?R + of_bool (P k)"
    by (simp_all add: number_def)
  then show ?thesis by simp
qed

lemma number_less: "t < n \<Longrightarrow> \<not> P (f t) \<Longrightarrow> number n P f < n"
  using number_update [of t n P f undefined] psubset_card_mono [of "{..<n}" "{t. t < n \<and> P (f t)}"]
  by (auto simp: number_def)

lemma number_pos: "t < n \<Longrightarrow> P (f t) \<Longrightarrow> 0 < number n P f"
  by (auto simp: number_def card_gt_0_iff)

lemma number_le: "number n P f \<le> n"
  using card_mono [of "{..<n}" "{t. t < n \<and> P (f t)}"] by (auto simp: number_def)

lemma wrap_i64_id: "- (2 ^ 63) \<le> i \<Longrightarrow> i < 2 ^ 63 \<Longrightarrow> wrap_i64 i = i"
  by (simp add: wrap_i64_def)

lemma rw_step_inv:
  assumes n: "n \<le> 2 ^ 62" and step: "rw_step n s s'" and inv: "rw_inv n s"
  shows "rw_inv n s'"
  using step
proof cases
  case (1 t w k st)
  let ?k = "rw_tasks s t"
  define p where "p = number n reloading (rw_tasks s)"
  have p: "p \<le> n" "\<not> reloading ?k \<Longrightarrow> p < n"
    using 1(2) number_le number_less by (auto simp: p_def)
  have counts: "readers n s' + of_bool (?k = Reading) = readers n s + of_bool (k = Reading)"
    "writers n s' + of_bool (?k = Writing) = writers n s + of_bool (k = Writing)"
    "number n reloading (rw_tasks s') + of_bool (reloading ?k) = p + of_bool (reloading k)"
    unfolding readers_def writers_def p_def 1(1) rw_sys.select_convs by (rule number_update [OF 1(2)])+
  have pos: "?k = Reading \<Longrightarrow> 0 < readers n s" "?k = Writing \<Longrightarrow> 0 < writers n s" "reloading ?k \<Longrightarrow> 0 < p"
    using 1(2) number_pos [of t n _ "rw_tasks s"] by (auto simp: readers_def writers_def p_def)
  have r: "readers n s \<le> n" using number_le by (simp add: readers_def)
  have ex: "\<And>u v. rw_tasks s u = Exchange v \<Longrightarrow> v \<le> RELOAD_LIMIT" using inv by (auto simp: rw_inv_def)
  then have 2: "\<forall>u v. rw_tasks s' u = Exchange v \<longrightarrow> v \<le> RELOAD_LIMIT"
    using 1(3) by (cases ?k) (auto simp: 1(1) try_write_def try_read_def reload_match_def reload_exchange_def split: if_splits)
  have st: "state s' = st" by (simp add: 1(1))
  show ?thesis
  proof (cases "writers n s = 0")
    case True
    then have "state s = int (readers n s)" using inv by (simp add: rw_inv_def)
    then show ?thesis
      using 1(3) 2 counts pos r n ex [of t] True unfolding rw_inv_def st
      by (cases ?k) (auto simp: try_write_def try_read_def reload_match_def reload_exchange_def reloading_def
          wrap_i64_id i64_MIN_def RELOAD_LIMIT_def split: if_splits)
  next
    case False
    then have "writers n s = 1" "readers n s = 0" "i64_MIN \<le> state s" "state s \<le> i64_MIN + int p"
      using inv by (auto simp: rw_inv_def p_def)
    then show ?thesis
      using 1(3) 2 counts pos p n unfolding rw_inv_def st
      by (cases ?k) (auto simp: try_write_def try_read_def reload_match_def reload_exchange_def reloading_def
          wrap_i64_id i64_MIN_def RELOAD_LIMIT_def split: if_splits)
  qed
qed

lemma rw_init_inv: "rw_init s \<Longrightarrow> rw_inv n s"
  by (simp add: rw_init_def rw_inv_def readers_def writers_def number_def)

text \<open>More tasks than this never lock at the same time.\<close>

definition max_tasks :: nat where
  "max_tasks = 2 ^ 62"

lemma number_zero: "number n P f = 0 \<longleftrightarrow> (\<forall>t < n. \<not> P (f t))"
  by (auto simp: number_def)

lemma number_one:
  assumes "number n P f = 1" "t < n" "t' < n" "P (f t)" "P (f t')"
  shows "t = t'"
proof -
  obtain x where x: "{u. u < n \<and> P (f u)} = {x}" using assms(1) unfolding number_def by (rule card_1_singletonE)
  have "t \<in> {u. u < n \<and> P (f u)}" "t' \<in> {u. u < n \<and> P (f u)}" using assms(2-5) by simp_all
  then show ?thesis unfolding x by simp
qed

lemma max_tasks_le: "max_tasks \<le> 2 ^ 62"
  unfolding max_tasks_def by (rule order.refl)

interpretation rwl: step_system rw_init "rw_step max_tasks" "rw_inv max_tasks"
  by unfold_locales (rule rw_init_inv, assumption, rule rw_step_inv [OF max_tasks_le])

section \<open>Initialisation once\<close>

definition STATE_UNINITIALIZED :: u8 where "STATE_UNINITIALIZED = 0"
definition STATE_INITIALIZING :: u8 where "STATE_INITIALIZING = 1"
definition STATE_INITIALIZED :: u8 where "STATE_INITIALIZED = 2"

lemmas state_defs = STATE_UNINITIALIZED_def STATE_INITIALIZING_def STATE_INITIALIZED_def

record 'a once =
  once_state :: u8
  once_cell :: "'a option"

definition Once_new :: "'a once" where
  "Once_new = \<lparr>once_state = STATE_UNINITIALIZED, once_cell = None\<rparr>"

text \<open>
  Where a call of \<open>call_once\<close> stands: before its first load, before the compare-and-exchange, before the call of
  \<open>init\<close>, with its value before it is written, before the last store, in the loop, and before the
  cell is read. \<open>Got v\<close> has returned a reference to what is in the cell (\<open>None\<close> when it was not
  initialised).
\<close>

datatype 'a once_task = Enter | Claim | Init | Store 'a | Publish | Spin | Return | Got "'a option"

text \<open>\<open>init\<close> gives the value that the initialiser of this call returns.\<close>

fun once_instr :: "'a \<Rightarrow> 'a once_task \<Rightarrow> 'a once \<Rightarrow> 'a once_task \<times> 'a once" where
  "once_instr init Enter c =
     (if once_state c = STATE_UNINITIALIZED then Claim
      else if once_state c \<noteq> STATE_INITIALIZED then Spin else Return, c)"
| "once_instr init Claim c =
     (if once_state c = STATE_UNINITIALIZED then (Init, c\<lparr>once_state := STATE_INITIALIZING\<rparr>)
      else (if once_state c \<noteq> STATE_INITIALIZED then Spin else Return, c))"
| "once_instr init Init c = (Store init, c)"
| "once_instr init (Store v) c = (Publish, c\<lparr>once_cell := Some v\<rparr>)"
| "once_instr init Publish c = (Return, c\<lparr>once_state := STATE_INITIALIZED\<rparr>)"
| "once_instr init Spin c = (if once_state c \<noteq> STATE_INITIALIZED then Spin else Return, c)"
| "once_instr init Return c = (Got (once_cell c), c)"
| "once_instr init (Got v) c = (Got v, c)"

definition once_get :: "'a once \<Rightarrow> 'a option option" where
  "once_get c = (if once_state c = STATE_INITIALIZED then Some (once_cell c) else None)"

record 'a once_sys =
  once :: "'a once"
  once_tasks :: "nat \<Rightarrow> 'a once_task"
  inits :: "'a list"

inductive once_step :: "'a once_sys \<Rightarrow> 'a once_sys \<Rightarrow> bool" where
  "once_instr init (once_tasks s t) (once s) = (k, c) \<Longrightarrow>
    once_step s \<lparr>once = c, once_tasks = (once_tasks s)(t := k),
      inits = if once_tasks s t = Init then inits s @ [init] else inits s\<rparr>"

definition once_init :: "'a once_sys \<Rightarrow> bool" where
  "once_init s \<longleftrightarrow> s = \<lparr>once = Once_new, once_tasks = (\<lambda>_. Enter), inits = []\<rparr>"

text \<open>Before the initialisation, while one task carries it out, and after it.\<close>

fun stage :: "'a list \<Rightarrow> 'a option \<Rightarrow> 'a once_task \<Rightarrow> bool" where
  "stage is c Init \<longleftrightarrow> is = []"
| "stage is c (Store v) \<longleftrightarrow> is = [v]"
| "stage is c Publish \<longleftrightarrow> (\<exists>v. is = [v] \<and> c = Some v)"
| "stage is c _ \<longleftrightarrow> False"

definition waiting :: "'a once_task \<Rightarrow> bool" where
  "waiting k \<longleftrightarrow> k = Enter \<or> k = Claim \<or> k = Spin"

definition before :: "'a once_sys \<Rightarrow> bool" where
  "before s \<longleftrightarrow> once_state (once s) = STATE_UNINITIALIZED \<and> inits s = [] \<and> (\<forall>t. waiting (once_tasks s t))"

definition during :: "nat \<Rightarrow> 'a once_sys \<Rightarrow> bool" where
  "during t0 s \<longleftrightarrow> once_state (once s) = STATE_INITIALIZING \<and>
     stage (inits s) (once_cell (once s)) (once_tasks s t0) \<and> (\<forall>t. t \<noteq> t0 \<longrightarrow> waiting (once_tasks s t))"

definition after :: "'a \<Rightarrow> 'a once_sys \<Rightarrow> bool" where
  "after v s \<longleftrightarrow> once_state (once s) = STATE_INITIALIZED \<and> inits s = [v] \<and> once_cell (once s) = Some v \<and>
     (\<forall>t. waiting (once_tasks s t) \<or> once_tasks s t = Return \<or> once_tasks s t = Got (Some v))"

definition once_inv :: "'a once_sys \<Rightarrow> bool" where
  "once_inv s \<longleftrightarrow> before s \<or> (\<exists>t. during t s) \<or> (\<exists>v. after v s)"

lemma before_step:
  assumes "once_step s s'" "before s"
  shows "before s' \<or> (\<exists>t. during t s')"
  using assms(1)
proof cases
  case (1 init t k c)
  have "waiting (once_tasks s t)" using assms(2) by (simp add: before_def)
  then consider "once_tasks s t = Enter \<or> once_tasks s t = Spin" | "once_tasks s t = Claim" by (auto simp: waiting_def)
  then show ?thesis
  proof cases
    case 1
    then have "k = Claim \<or> k = Spin" "c = once s" "once_tasks s t \<noteq> Init"
      using assms(2) \<open>once_instr init _ _ = _\<close> by (auto simp: before_def state_defs)
    then have "before s'" using assms(2) \<open>s' = _\<close> by (auto simp: before_def waiting_def)
    then show ?thesis ..
  next
    case 2
    then have "k = Init" "c = (once s)\<lparr>once_state := STATE_INITIALIZING\<rparr>"
      using assms(2) \<open>once_instr init _ _ = _\<close> by (auto simp: before_def)
    then have "during t s'" using assms(2) 2 \<open>s' = _\<close> by (simp add: before_def during_def)
    then show ?thesis by blast
  qed
qed

lemma during_step:
  assumes "once_step s s'" "during t0 s"
  shows "during t0 s' \<or> (\<exists>v. after v s')"
  using assms(1)
proof cases
  case (1 init t k c)
  show ?thesis
  proof (cases "t = t0")
    case True
    then show ?thesis using assms(2) 1 by (cases "once_tasks s t0") (auto simp: during_def after_def)
  next
    case False
    then have "waiting (once_tasks s t)" using assms(2) by (simp add: during_def)
    then show ?thesis using assms(2) 1 False by (auto simp: during_def waiting_def state_defs)
  qed
qed

lemma after_step:
  assumes "once_step s s'" "after v s"
  shows "after v s'"
  using assms(1)
proof cases
  case (1 init t k c)
  have "once_tasks s t = Enter \<or> once_tasks s t = Claim \<or> once_tasks s t = Spin \<or>
      once_tasks s t = Return \<or> once_tasks s t = Got (Some v)"
    using assms(2) by (auto simp: after_def waiting_def)
  then show ?thesis using assms(2) 1 by (elim disjE) (auto simp: after_def state_defs)
qed

lemma once_step_inv: "once_step s s' \<Longrightarrow> once_inv s \<Longrightarrow> once_inv s'"
  unfolding once_inv_def by (elim disjE exE) (blast dest: before_step during_step after_step)+

lemma once_init_inv: "once_init s \<Longrightarrow> once_inv s"
  by (simp add: once_init_def once_inv_def before_def Once_new_def waiting_def)

interpretation onc: step_system once_init once_step once_inv
  by unfold_locales (fact once_init_inv, rule once_step_inv)

section \<open>Properties\<close>





text \<open>
  C14. A writer excludes everybody else, however many attempts to read fail meanwhile and however
  the reloads of the counter interleave. An attempt to read fails only when there is a writer,
  and an attempt to write fails only when there is a writer or a reader.
\<close>

theorem rwlock_exclusion:
  assumes "reachable rw_init (rw_step max_tasks) s"
  shows "(\<forall>t t'. t < max_tasks \<and> t' < max_tasks \<and> t \<noteq> t' \<and> rw_tasks s t = Writing \<longrightarrow>
      rw_tasks s t' \<noteq> Reading \<and> rw_tasks s t' \<noteq> Writing) \<and>
    (fst (try_read (state s)) = Reading \<longleftrightarrow> (\<forall>t < max_tasks. rw_tasks s t \<noteq> Writing)) \<and>
    (fst (try_write (state s)) = Writing \<longleftrightarrow> (\<forall>t < max_tasks. rw_tasks s t \<noteq> Writing \<and> rw_tasks s t \<noteq> Reading))"
proof -
  have inv: "rw_inv max_tasks s" using rwl.reachable_inv [OF assms] .
  have w: "writers max_tasks s = 0 \<longleftrightarrow> (\<forall>t < max_tasks. rw_tasks s t \<noteq> Writing)"
    and r: "readers max_tasks s = 0 \<longleftrightarrow> (\<forall>t < max_tasks. rw_tasks s t \<noteq> Reading)"
    unfolding writers_def readers_def by (rule number_zero)+
  have one: "t = t'" if "writers max_tasks s = 1" "t < max_tasks" "t' < max_tasks" "rw_tasks s t = Writing" "rw_tasks s t' = Writing" for t t'
    using number_one [of max_tasks "\<lambda>k. k = Writing" "rw_tasks s" t t'] that by (simp add: writers_def)
  have neg: "state s < 0" if "writers max_tasks s = 1"
    using inv that number_le [of max_tasks reloading "rw_tasks s"] by (auto simp: rw_inv_def i64_MIN_def max_tasks_def)
  consider "writers max_tasks s = 0" "state s = int (readers max_tasks s)" | "writers max_tasks s = 1" "readers max_tasks s = 0"
    using inv by (auto simp: rw_inv_def)
  then show ?thesis
  proof cases
    case 1
    then show ?thesis using w r by (auto simp: try_read_def try_write_def)
  next
    case 2
    then show ?thesis using neg one w r by (auto simp: try_read_def try_write_def)
  qed
qed

definition example_rw :: rw_sys where
  "example_rw = \<lparr>state = i64_MIN, rw_tasks = (\<lambda>_. Idle)(3 := Writing)\<rparr>"

lemma example_rw_reachable: "reachable rw_init (rw_step max_tasks) example_rw"
proof -
  let ?s = "\<lparr>state = 0, rw_tasks = (\<lambda>_. Idle)\<rparr>"
  have "rw_step max_tasks ?s \<lparr>state = i64_MIN, rw_tasks = (rw_tasks ?s)(3 := Writing)\<rparr>"
    by (rule rw_step.intros [where for_write = True]) (simp_all add: try_write_def max_tasks_def)
  then show ?thesis
    by (intro reachable.step [OF reachable.start [of rw_init ?s]]) (auto simp: rw_init_def example_rw_def)
qed

theorem rwlock_exclusion_witness:
  "rw_tasks example_rw 3 = Writing \<and> fst (try_read (state example_rw)) \<noteq> Reading \<and>
    fst (try_write (state example_rw)) \<noteq> Writing \<and> rw_tasks example_rw 5 \<noteq> Reading"
proof -
  have "rw_tasks example_rw 3 = Writing" by (simp add: example_rw_def)
  moreover have "\<exists>t < max_tasks. rw_tasks example_rw t = Writing" using calculation by (intro exI [of _ 3]) (simp add: max_tasks_def)
  moreover have "(3 :: nat) < max_tasks \<and> (5 :: nat) < max_tasks \<and> (3 :: nat) \<noteq> 5" by (simp add: max_tasks_def)
  ultimately show ?thesis using rwlock_exclusion [OF example_rw_reachable] by blast
qed

text \<open>
  C15. A value is initialised once: at most one initialiser is ever called, every call returns a
  reference to the value it gave, and \<open>get\<close> shows nothing or this value; nobody reads the cell before it
  is written. While a call spins because of the initialisation of another, there is a task
  that carries it out.
\<close>

theorem once_initialises_once:
  assumes "reachable once_init once_step s"
  shows "length (inits s) \<le> 1 \<and> (once_tasks s t = Got v \<longrightarrow> (\<exists>x. v = Some x \<and> inits s = [x])) \<and>
    (once_get (once s) = None \<or> (\<exists>x. once_get (once s) = Some (Some x) \<and> inits s = [x])) \<and>
    (once_state (once s) = STATE_INITIALIZING \<longrightarrow> (\<exists>t. \<not> waiting (once_tasks s t) \<and> stage (inits s) (once_cell (once s)) (once_tasks s t)))"
proof -
  consider "before s" | t0 where "during t0 s" | x where "after x s"
    using onc.reachable_inv [OF assms] by (auto simp: once_inv_def)
  then show ?thesis
  proof cases
    case 1
    moreover from this have "waiting (once_tasks s t)" by (simp add: before_def)
    then have "once_tasks s t \<noteq> Got v" by (auto simp: waiting_def)
    ultimately show ?thesis by (simp add: before_def once_get_def state_defs)
  next
    case 2
    then have d: "once_state (once s) = STATE_INITIALIZING" "stage (inits s) (once_cell (once s)) (once_tasks s t0)"
      "t \<noteq> t0 \<Longrightarrow> waiting (once_tasks s t)"
      by (auto simp: during_def)
    then have "length (inits s) \<le> 1 \<and> \<not> waiting (once_tasks s t0) \<and> once_tasks s t0 \<noteq> Got v"
      by (cases "once_tasks s t0") (auto simp: waiting_def)
    moreover from this d(3) have "once_tasks s t \<noteq> Got v" by (cases "t = t0") (auto simp: waiting_def)
    ultimately show ?thesis using d(1,2) by (auto simp: once_get_def state_defs)
  next
    case 3
    moreover from this have "waiting (once_tasks s t) \<or> once_tasks s t = Return \<or> once_tasks s t = Got (Some x)" by (simp add: after_def)
    then have "once_tasks s t = Got v \<longrightarrow> v = Some x" by (auto simp: waiting_def)
    ultimately show ?thesis by (auto simp: after_def once_get_def state_defs)
  qed
qed

definition once_run :: "nat \<Rightarrow> 'a \<Rightarrow> 'a once_sys \<Rightarrow> 'a once_sys" where
  "once_run t init s = (case once_instr init (once_tasks s t) (once s) of (k, c) \<Rightarrow>
     \<lparr>once = c, once_tasks = (once_tasks s)(t := k), inits = if once_tasks s t = Init then inits s @ [init] else inits s\<rparr>)"

lemma once_run_step: "once_step s (once_run t init s)"
proof (cases "once_instr init (once_tasks s t) (once s)")
  case (Pair k c)
  from once_step.intros [OF this] show ?thesis by (simp add: once_run_def Pair)
qed

definition example_once :: "nat once_sys" where
  "example_once = (once_run 0 7 ^^ 7) (once_run 1 8 \<lparr>once = Once_new, once_tasks = (\<lambda>_. Enter), inits = []\<rparr>)"

lemma example_once_reachable: "reachable once_init once_step example_once"
proof -
  have "reachable once_init once_step s \<Longrightarrow> reachable once_init once_step ((once_run 0 7 ^^ n) s)" for n and s :: "nat once_sys"
    by (induction n) (auto intro: reachable.step once_run_step)
  moreover have "reachable once_init once_step (once_run 1 8 \<lparr>once = Once_new, once_tasks = (\<lambda>_. Enter), inits = []\<rparr> :: nat once_sys)"
    by (intro reachable.step [where step = once_step, OF _ once_run_step] reachable.start) (simp add: once_init_def)
  ultimately show ?thesis unfolding example_once_def by blast
qed

theorem once_initialises_once_witness:
  "once_tasks example_once 0 = Got (Some 7) \<and> inits example_once = [7]"
proof -
  have "once_tasks example_once 0 = Got (Some 7)"
    by (simp add: example_once_def once_run_def Once_new_def eval_nat_numeral)
  then show ?thesis using once_initialises_once [OF example_once_reachable, of 0 "Some 7"] by simp
qed

end
