(* ===== verification/Futex.thy ===== *)
theory Futex
  imports Channels
begin

text \<open>
  Futexes, \<^verbatim>\<open>tee/kernel/src/user/process/futex.rs\<close>: tasks that wait until another task wakes those
  at an address. A waiter is the sender of a oneshot channel whose receiver the waiting task has.
  Channels are numbered; \<open>f_chans\<close> is the state of each.
\<close>

section \<open>Operations\<close>

record futex_waiter =
  w_sender :: nat
  w_bitset :: "u32 option"

record futex_state =
  futexes :: "u64 \<rightharpoonup> futex_waiter list"
  f_chans :: "nat \<Rightarrow> unit oneshot"
  next_chan :: nat

definition Futexes_new :: futex_state where
  "Futexes_new = \<lparr>futexes = Map.empty, f_chans = (\<lambda>_. Empty), next_chan = 0\<rparr>"

definition matches_bitset :: "u32 option \<Rightarrow> u32 option \<Rightarrow> bool" where
  "matches_bitset b b' = (case (b, b') of (Some l, Some r) \<Rightarrow> l AND r \<noteq> 0 | _ \<Rightarrow> True)"

text \<open>\<open>wait\<close>, up to where it awaits: the value is checked without and with the lock, and a waiter registered.\<close>

text \<open>Reading fails where nothing is mapped.\<close>

definition check_value :: "u32 option \<Rightarrow> u32 \<Rightarrow> unit result" where
  "check_value current val = rbind (ok_or current Fault) (\<lambda>v. ensure (v = val) Again (Ok ()))"

definition register :: "u64 \<Rightarrow> u32 option \<Rightarrow> futex_state \<Rightarrow> nat \<times> futex_state" where
  "register uaddr bitset s =
     (let c = next_chan s; ws = (case futexes s uaddr of None \<Rightarrow> [] | Some ws \<Rightarrow> ws) in
      (c, s\<lparr>futexes := (futexes s)(uaddr \<mapsto> ws @ [\<lparr>w_sender = c, w_bitset = bitset\<rparr>]),
        f_chans := (f_chans s)(c := Empty), next_chan := c + 1\<rparr>))"

text \<open>
  The loop of \<open>wake\<close> with \<open>n\<close> tasks woken so far: how many are woken in the end, the waiters that stay, and
  the channels. A sender is dropped after it has sent, or could not because the receiver is gone.
\<close>

fun wake_loop :: "nat \<Rightarrow> u32 option \<Rightarrow> futex_waiter list \<Rightarrow> nat \<Rightarrow> (nat \<Rightarrow> unit oneshot)
    \<Rightarrow> nat \<times> futex_waiter list \<times> (nat \<Rightarrow> unit oneshot)" where
  "wake_loop num bitset [] n cs = (n, [], cs)"
| "wake_loop num bitset (w # ws) n cs =
     (if matches_bitset (w_bitset w) bitset then
        (case oneshot_fill () (cs (w_sender w)) of
           Ok (c, _) \<Rightarrow>
             let cs' = cs(w_sender w := fst (oneshot_sender_drop c)) in
             if num \<le> n + 1 then (n + 1, ws, cs') else wake_loop num bitset ws (n + 1) cs'
         | _ \<Rightarrow> wake_loop num bitset ws n (cs(w_sender w := fst (oneshot_sender_drop (cs (w_sender w))))))
      else (case wake_loop num bitset ws n cs of (k, rest, cs') \<Rightarrow> (k, w # rest, cs')))"

definition futex_wake :: "u64 \<Rightarrow> nat \<Rightarrow> u32 option \<Rightarrow> futex_state \<Rightarrow> nat \<times> futex_state" where
  "futex_wake uaddr num bitset s =
     (if num = 0 then (0, s)
      else case futexes s uaddr of
        None \<Rightarrow> (0, s)
      | Some ws \<Rightarrow> (case wake_loop num bitset ws 0 (f_chans s) of (k, rest, cs) \<Rightarrow>
          (k, s\<lparr>futexes := (futexes s)(uaddr \<mapsto> rest), f_chans := cs\<rparr>)))"

section \<open>Tasks\<close>

text \<open>
  A task before it takes the lock, with the lock before it checks the value again, with the lock
  and the value checked, waiting for its channel, and back with a result. \<open>epoch\<close> is not in the code: it
  counts, for each address, the calls of \<open>wake\<close> for any bitset that woke fewer tasks than they
  could have; a task remembers the epoch at which it saw the value.
\<close>

record request =
  r_addr :: u64
  r_val :: u32
  r_bitset :: "u32 option"
  r_deadline :: bool

datatype fx_task = Ready | Entering request | Holding request | Checked request nat | Sleeping request nat nat | Back "unit result"

record futex_sys =
  fx :: futex_state
  memory :: "u64 \<Rightarrow> u32 option"
  lock_owner :: "nat option"
  fx_tasks :: "nat \<Rightarrow> fx_task"
  epoch :: "u64 \<Rightarrow> nat"

definition after_check :: "unit result \<Rightarrow> fx_task \<Rightarrow> fx_task" where
  "after_check r k = (case r of Ok _ \<Rightarrow> k | _ \<Rightarrow> Back r)"

inductive futex_step :: "futex_sys \<Rightarrow> futex_sys \<Rightarrow> bool" where
  call: "fx_tasks s t = Ready \<or> fx_tasks s t = Back r \<Longrightarrow>
    futex_step s (s\<lparr>fx_tasks := (fx_tasks s)(t := after_check (check_value (memory s (r_addr q)) (r_val q)) (Entering q))\<rparr>)"
| lock: "fx_tasks s t = Entering q \<Longrightarrow> lock_owner s = None \<Longrightarrow>
    futex_step s (s\<lparr>lock_owner := Some t, fx_tasks := (fx_tasks s)(t := Holding q)\<rparr>)"
| check: "fx_tasks s t = Holding q \<Longrightarrow> check_value (memory s (r_addr q)) (r_val q) = Ok () \<Longrightarrow>
    futex_step s (s\<lparr>fx_tasks := (fx_tasks s)(t := Checked q (epoch s (r_addr q)))\<rparr>)"
| check_fails: "fx_tasks s t = Holding q \<Longrightarrow> check_value (memory s (r_addr q)) (r_val q) = r \<Longrightarrow> r \<noteq> Ok () \<Longrightarrow>
    futex_step s (s\<lparr>lock_owner := None, fx_tasks := (fx_tasks s)(t := Back r)\<rparr>)"
| push: "fx_tasks s t = Checked q e \<Longrightarrow> register (r_addr q) (r_bitset q) (fx s) = (c, f) \<Longrightarrow>
    futex_step s (s\<lparr>fx := f, lock_owner := None, fx_tasks := (fx_tasks s)(t := Sleeping q e c)\<rparr>)"
| park: "fx_tasks s t = Sleeping q e c \<Longrightarrow> oneshot_poll wk (f_chans (fx s) c) = (Parked, st) \<Longrightarrow>
    futex_step s (s\<lparr>fx := (fx s)\<lparr>f_chans := (f_chans (fx s))(c := st)\<rparr>\<rparr>)"
| recv: "fx_tasks s t = Sleeping q e c \<Longrightarrow> oneshot_poll wk (f_chans (fx s) c) = (Got (), st) \<Longrightarrow>
    futex_step s (s\<lparr>fx := (fx s)\<lparr>f_chans := (f_chans (fx s))(c := oneshot_receiver_drop st)\<rparr>,
      fx_tasks := (fx_tasks s)(t := Back (Ok ()))\<rparr>)"
| recv_error: "fx_tasks s t = Sleeping q e c \<Longrightarrow> oneshot_poll wk (f_chans (fx s) c) = (RecvError, st) \<Longrightarrow>
    futex_step s (s\<lparr>fx_tasks := (fx_tasks s)(t := Back Panic)\<rparr>)"
| timeout: "fx_tasks s t = Sleeping q e c \<Longrightarrow> r_deadline q \<Longrightarrow> oneshot_poll wk (f_chans (fx s) c) = (Parked, st) \<Longrightarrow>
    futex_step s (s\<lparr>fx := (fx s)\<lparr>f_chans := (f_chans (fx s))(c := oneshot_receiver_drop st)\<rparr>,
      fx_tasks := (fx_tasks s)(t := Back (Err TimedOut))\<rparr>)"
| interrupted: "fx_tasks s t = Sleeping q e c \<Longrightarrow>
    futex_step s (s\<lparr>fx := (fx s)\<lparr>f_chans := (f_chans (fx s))(c := oneshot_receiver_drop (f_chans (fx s) c))\<rparr>,
      fx_tasks := (fx_tasks s)(t := Ready)\<rparr>)"
| wake: "lock_owner s = None \<Longrightarrow> futex_wake a num bitset (fx s) = (k, f) \<Longrightarrow>
    futex_step s (s\<lparr>fx := f, epoch := if bitset = None \<and> k < num then (epoch s)(a := epoch s a + 1) else epoch s\<rparr>)"
| store: "futex_step s (s\<lparr>memory := (memory s)(a := v)\<rparr>)"

definition futex_init :: "futex_sys \<Rightarrow> bool" where
  "futex_init s \<longleftrightarrow> fx s = Futexes_new \<and> lock_owner s = None \<and> fx_tasks s = (\<lambda>_. Ready) \<and> epoch s = (\<lambda>_. 0)"

text \<open>The waiters at an address, and what the channel of a waiting task looks like: in the queue
  until it is woken.\<close>

definition waiters :: "u64 \<Rightarrow> futex_state \<Rightarrow> futex_waiter list" where
  "waiters a f = (case futexes f a of None \<Rightarrow> [] | Some ws \<Rightarrow> ws)"

definition open_chan :: "unit oneshot \<Rightarrow> bool" where
  "open_chan c \<longleftrightarrow> (case c of Empty \<Rightarrow> True | Waiting _ \<Rightarrow> True | _ \<Rightarrow> False)"

definition queued :: "request \<Rightarrow> nat \<Rightarrow> futex_state \<Rightarrow> bool" where
  "queued q c f \<longleftrightarrow> open_chan (f_chans f c) \<and> \<lparr>w_sender = c, w_bitset = r_bitset q\<rparr> \<in> set (waiters (r_addr q) f)"

definition senders :: "u64 \<Rightarrow> futex_state \<Rightarrow> nat list" where
  "senders a f = map w_sender (waiters a f)"

definition futex_ok :: "futex_state \<Rightarrow> bool" where
  "futex_ok f \<longleftrightarrow> (\<forall>a. distinct (senders a f) \<and> (\<forall>c \<in> set (senders a f). c < next_chan f)) \<and>
     (\<forall>a a'. a \<noteq> a' \<longrightarrow> set (senders a f) \<inter> set (senders a' f) = {})"

definition futex_inv :: "futex_sys \<Rightarrow> bool" where
  "futex_inv s \<longleftrightarrow> futex_ok (fx s) \<and>
     (\<forall>t. lock_owner s = Some t \<longleftrightarrow> (\<exists>q e. fx_tasks s t = Holding q \<or> fx_tasks s t = Checked q e)) \<and>
     (\<forall>t q e. fx_tasks s t = Checked q e \<longrightarrow> e = epoch s (r_addr q)) \<and>
     (\<forall>t q e c. fx_tasks s t = Sleeping q e c \<longrightarrow> c < next_chan (fx s) \<and>
        (f_chans (fx s) c = Sent () \<or> queued q c (fx s) \<and> e = epoch s (r_addr q))) \<and>
     (\<forall>t t' q q' e e' c. fx_tasks s t = Sleeping q e c \<and> fx_tasks s t' = Sleeping q' e' c \<longrightarrow> t = t') \<and>
     (\<forall>t. fx_tasks s t \<noteq> Back Panic)"

section \<open>What waking does\<close>

text \<open>The first waiters, up to some point, lose those whose bitset matches; the receivers that are
  still there get their value.\<close>

definition live :: "u32 option \<Rightarrow> (nat \<Rightarrow> unit oneshot) \<Rightarrow> futex_waiter \<Rightarrow> bool" where
  "live b cs w \<longleftrightarrow> matches_bitset (w_bitset w) b \<and> cs (w_sender w) \<noteq> Closed"

definition woken_by :: "u32 option \<Rightarrow> futex_waiter list \<Rightarrow> (nat \<Rightarrow> unit oneshot) \<Rightarrow> nat \<Rightarrow> unit oneshot" where
  "woken_by b pre cs = (\<lambda>c. if \<exists>w \<in> set pre. w_sender w = c \<and> live b cs w then Sent () else cs c)"

declare wake_loop.simps(2) [simp del]

lemma wake_loop_cons:
  "wake_loop num b (w # ws) n cs =
     (if \<not> matches_bitset (w_bitset w) b then (case wake_loop num b ws n cs of (k, rest, cs') \<Rightarrow> (k, w # rest, cs'))
      else if cs (w_sender w) = Closed then wake_loop num b ws n cs
      else if num \<le> n + 1 then (n + 1, ws, cs(w_sender w := Sent ()))
      else wake_loop num b ws (n + 1) (cs(w_sender w := Sent ())))"
proof (cases "cs (w_sender w) = Closed")
  case True
  moreover from True have "cs(w_sender w := Closed) = cs" by auto
  ultimately show ?thesis by (simp add: wake_loop.simps(2) oneshot_fill_def oneshot_sender_drop_def)
next
  case False
  then show ?thesis by (cases "cs (w_sender w)") (simp_all add: wake_loop.simps(2) oneshot_fill_def oneshot_sender_drop_def Let_def)
qed

lemma woken_by_later: "w_sender w \<notin> w_sender ` set pre \<Longrightarrow> live b cs w \<Longrightarrow> woken_by b pre (cs(w_sender w := Sent ())) = woken_by b (w # pre) cs"
  by (fastforce simp: woken_by_def live_def fun_eq_iff)

lemma filter_live_later: "w_sender w \<notin> w_sender ` set pre \<Longrightarrow> filter (live b (cs(w_sender w := x))) pre = filter (live b cs) pre"
  by (rule filter_cong) (simp, metis fun_upd_other imageI live_def)

lemma wake_loop_live:
  "live b cs w \<Longrightarrow> wake_loop num b (w # ws) n cs =
     (if num \<le> n + 1 then (n + 1, ws, cs(w_sender w := Sent ())) else wake_loop num b ws (n + 1) (cs(w_sender w := Sent ())))"
  by (simp add: wake_loop_cons live_def)

lemma wake_loop_dead:
  "\<not> live b cs w \<Longrightarrow> wake_loop num b ws n cs = (k, rest, cs') \<Longrightarrow>
   wake_loop num b (w # ws) n cs = (k, filter (\<lambda>w. \<not> matches_bitset (w_bitset w) b) [w] @ rest, cs')"
  by (simp add: wake_loop_cons live_def)

lemma live_matches: "live b cs w \<Longrightarrow> matches_bitset (w_bitset w) b"
  by (simp add: live_def)

lemma wake_loop_split:
  assumes "distinct (map w_sender ws)" "n < num"
  shows "\<exists>pre suf. ws = pre @ suf \<and> n + length (filter (live b cs) pre) \<le> num \<and>
    (n + length (filter (live b cs) pre) < num \<longrightarrow> suf = []) \<and>
    wake_loop num b ws n cs = (n + length (filter (live b cs) pre),
      filter (\<lambda>w. \<not> matches_bitset (w_bitset w) b) pre @ suf, woken_by b pre cs)"
  using assms
proof (induction ws arbitrary: n cs)
  case Nil
  then show ?case by (simp add: woken_by_def)
next
  case (Cons w ws)
  have d: "distinct (map w_sender ws)" "w_sender w \<notin> w_sender ` set ws" using Cons.prems(1) by auto
  show ?case
  proof (cases "live b cs w")
    case False
    from Cons.IH [OF d(1) Cons.prems(2), of cs] obtain pre suf where *: "ws = pre @ suf" "n + length (filter (live b cs) pre) \<le> num"
      "n + length (filter (live b cs) pre) < num \<longrightarrow> suf = []"
      "wake_loop num b ws n cs = (n + length (filter (live b cs) pre), filter (\<lambda>w. \<not> matches_bitset (w_bitset w) b) pre @ suf, woken_by b pre cs)"
      by blast
    have "woken_by b (w # pre) cs = woken_by b pre cs" using False by (auto simp: woken_by_def)
    then show ?thesis using *(1-3) False wake_loop_dead [OF False *(4)]
      by - (rule exI [of _ "w # pre"], rule exI [of _ suf], simp)
  next
    case live: True
    show ?thesis
    proof (cases "num \<le> n + 1")
      case True
      have "woken_by b [w] cs = cs(w_sender w := Sent ())" using live by (auto simp: woken_by_def live_def)
      then show ?thesis using live True Cons.prems(2) live_matches [OF live]
        by - (rule exI [of _ "[w]"], rule exI [of _ ws], simp add: wake_loop_live fun_eq_iff)
    next
      case False
      let ?cs = "cs(w_sender w := Sent ())"
      have "n + 1 < num" using False by simp
      from Cons.IH [OF d(1) this, of ?cs] obtain pre suf where *: "ws = pre @ suf"
        "n + 1 + length (filter (live b ?cs) pre) \<le> num" "n + 1 + length (filter (live b ?cs) pre) < num \<longrightarrow> suf = []"
        "wake_loop num b ws (n + 1) ?cs = (n + 1 + length (filter (live b ?cs) pre), filter (\<lambda>w. \<not> matches_bitset (w_bitset w) b) pre @ suf, woken_by b pre ?cs)"
        by blast
      have "w_sender w \<notin> w_sender ` set pre" using d(2) *(1) by auto
      then have "woken_by b pre ?cs = woken_by b (w # pre) cs" "filter (live b ?cs) pre = filter (live b cs) pre"
        using live by (auto simp: woken_by_later filter_live_later)
      then show ?thesis using * False live live_matches [OF live]
        by - (rule exI [of _ "w # pre"], rule exI [of _ suf], simp add: wake_loop_live)
    qed
  qed
qed

definition wakes :: "u64 \<Rightarrow> nat \<Rightarrow> u32 option \<Rightarrow> futex_waiter list \<Rightarrow> futex_waiter list \<Rightarrow> futex_state \<Rightarrow> futex_state \<Rightarrow> bool" where
  "wakes a k b pre suf f f' \<longleftrightarrow> waiters a f = pre @ suf \<and> k = length (filter (live b (f_chans f)) pre) \<and>
     waiters a f' = filter (\<lambda>w. \<not> matches_bitset (w_bitset w) b) pre @ suf \<and> (\<forall>a'. a' \<noteq> a \<longrightarrow> waiters a' f' = waiters a' f) \<and>
     f_chans f' = woken_by b pre (f_chans f) \<and> next_chan f' = next_chan f"

lemma woken_by_Nil [simp]: "woken_by b [] cs = cs"
  by (simp add: woken_by_def)

lemma futex_wake_split:
  assumes "futex_ok f" "futex_wake a num b f = (k, f')"
  obtains pre suf where "wakes a k b pre suf f f'" "k \<le> num" "k < num \<Longrightarrow> suf = []"
proof (cases "num = 0 \<or> futexes f a = None")
  case True
  then have "wakes a k b [] (waiters a f) f f'" "k \<le> num" "k < num \<Longrightarrow> waiters a f = []"
    using assms(2) by (auto simp: futex_wake_def wakes_def waiters_def split: if_splits)
  then show ?thesis using that by blast
next
  case False
  then obtain ws where ws: "futexes f a = Some ws" "0 < num" by auto
  then have "distinct (map w_sender ws)" using assms(1) by (auto simp: futex_ok_def senders_def waiters_def dest: spec [of _ a])
  from wake_loop_split [OF this ws(2), of b "f_chans f"] obtain pre suf where *: "ws = pre @ suf" 
    "length (filter (live b (f_chans f)) pre) \<le> num" "length (filter (live b (f_chans f)) pre) < num \<longrightarrow> suf = []"
    "wake_loop num b ws 0 (f_chans f) = (length (filter (live b (f_chans f)) pre),
       filter (\<lambda>w. \<not> matches_bitset (w_bitset w) b) pre @ suf, woken_by b pre (f_chans f))"
    by auto
  have "wakes a k b pre suf f f'" "k = length (filter (live b (f_chans f)) pre)"
    using assms(2) ws * by (auto simp: futex_wake_def wakes_def waiters_def)
  then show ?thesis using that * by blast
qed

lemma wakes_senders:
  assumes "wakes a k b pre suf f f'"
  shows "set (senders x f') \<subseteq> set (senders x f)" "distinct (senders x f) \<Longrightarrow> distinct (senders x f')"
  using assms by (cases "x = a"; auto simp: wakes_def senders_def distinct_map_filter)+

lemma wakes_ok: "wakes a k b pre suf f f' \<Longrightarrow> futex_ok f \<Longrightarrow> futex_ok f'"
  unfolding futex_ok_def using wakes_senders [of a k b pre suf f f']
  by (smt (verit) disjoint_iff subsetD wakes_def)

lemma wakes_sent: "wakes a k b pre suf f f' \<Longrightarrow> f_chans f c = Sent () \<Longrightarrow> f_chans f' c = Sent ()"
  by (simp add: wakes_def woken_by_def)

lemma same_waiter:
  assumes "futex_ok f" "w \<in> set (waiters a f)" "w' \<in> set (waiters a' f)" "w_sender w = w_sender w'"
  shows "a = a' \<and> w = w'"
proof -
  have "w_sender w \<in> set (senders a f)" "w_sender w \<in> set (senders a' f)" using assms(2,3) by (simp_all add: senders_def) (simp add: assms(4))
  then have "a = a'" using assms(1) unfolding futex_ok_def by blast
  moreover have "distinct (map w_sender (waiters a f))" using assms(1) by (simp add: futex_ok_def senders_def)
  ultimately show ?thesis using assms(2-4) by (auto simp: distinct_map inj_on_def)
qed

lemma wakes_queued:
  assumes wk: "wakes a k b pre suf f f'" and ok: "futex_ok f" and q: "queued q c f"
  shows "if r_addr q = a \<and> \<lparr>w_sender = c, w_bitset = r_bitset q\<rparr> \<in> set pre \<and> matches_bitset (r_bitset q) b
    then f_chans f' c = Sent () else queued q c f'"
proof -
  let ?w = "\<lparr>w_sender = c, w_bitset = r_bitset q\<rparr>"
  have w: "?w \<in> set (waiters (r_addr q) f)" "open_chan (f_chans f c)" using q by (simp_all add: queued_def)
  then have nc: "f_chans f c \<noteq> Closed" by (auto simp: open_chan_def)
  have same: "r_addr q = a \<and> w' = ?w" if "w' \<in> set pre" "w_sender w' = c" for w'
    using same_waiter [OF ok w(1), of w' a] that wk by (auto simp: wakes_def)
  show ?thesis
  proof (cases "r_addr q = a \<and> ?w \<in> set pre \<and> matches_bitset (r_bitset q) b")
    case True
    then have "live b (f_chans f) ?w" using nc by (simp add: live_def)
    then have "f_chans f' c = Sent ()" using wk True by (force simp: wakes_def woken_by_def)
    then show ?thesis using True by simp
  next
    case False
    have "\<not> (\<exists>w' \<in> set pre. w_sender w' = c \<and> live b (f_chans f) w')"
    proof
      assume "\<exists>w' \<in> set pre. w_sender w' = c \<and> live b (f_chans f) w'"
      then obtain w' where "w' \<in> set pre" "w_sender w' = c" "live b (f_chans f) w'" by blast
      with same [of w'] False show False using live_matches [of b "f_chans f" w'] by simp
    qed
    then have "f_chans f' c = f_chans f c" using wk by (auto simp: wakes_def woken_by_def)
    moreover have "?w \<in> set (waiters (r_addr q) f')" using wk w(1) False by (cases "r_addr q = a") (auto simp: wakes_def)
    ultimately show ?thesis using False w(2) by (auto simp: queued_def)
  qed
qed

section \<open>The invariant\<close>

text \<open>What a waiting task has: its own channel, which has its value or is in the queue.\<close>

definition sleeper_ok :: "futex_state \<Rightarrow> (u64 \<Rightarrow> nat) \<Rightarrow> request \<Rightarrow> nat \<Rightarrow> nat \<Rightarrow> bool" where
  "sleeper_ok f ep q e c \<longleftrightarrow> c < next_chan f \<and> (f_chans f c = Sent () \<or> queued q c f \<and> e = ep (r_addr q))"

lemma futex_invI:
  assumes "futex_ok (fx s)"
    "\<And>t. lock_owner s = Some t \<longleftrightarrow> (\<exists>q e. fx_tasks s t = Holding q \<or> fx_tasks s t = Checked q e)"
    "\<And>t q e. fx_tasks s t = Checked q e \<Longrightarrow> e = epoch s (r_addr q)"
    "\<And>t q e c. fx_tasks s t = Sleeping q e c \<Longrightarrow> sleeper_ok (fx s) (epoch s) q e c"
    "\<And>t t' q q' e e' c. fx_tasks s t = Sleeping q e c \<Longrightarrow> fx_tasks s t' = Sleeping q' e' c \<Longrightarrow> t = t'"
    "\<And>t. fx_tasks s t \<noteq> Back Panic"
  shows "futex_inv s"
  using assms unfolding futex_inv_def sleeper_ok_def by blast

lemma futex_invD:
  assumes "futex_inv s"
  shows "futex_ok (fx s)"
    "lock_owner s = Some t \<longleftrightarrow> (\<exists>q e. fx_tasks s t = Holding q \<or> fx_tasks s t = Checked q e)"
    "fx_tasks s t = Checked q e \<Longrightarrow> e = epoch s (r_addr q)"
    "fx_tasks s t = Sleeping q e c \<Longrightarrow> sleeper_ok (fx s) (epoch s) q e c"
    "fx_tasks s t = Sleeping q e c \<Longrightarrow> fx_tasks s t' = Sleeping q' e' c \<Longrightarrow> t = t'"
    "fx_tasks s t \<noteq> Back Panic"
  using assms unfolding futex_inv_def sleeper_ok_def by blast+

text \<open>A task that is not asleep moves to a state outside the lock and not asleep, or stays there.\<close>

lemma futex_inv_move:
  assumes inv: "futex_inv s" and k: "k = Ready \<or> (\<exists>q. k = Entering q \<or> k = Holding q \<or> k = Checked q (epoch s (r_addr q))) \<or> (\<exists>r. k = Back r \<and> r \<noteq> Panic)"
    and t: "\<And>q e c. fx_tasks s t \<noteq> Sleeping q e c"
    and own: "\<And>u. own = Some u \<longleftrightarrow> (\<exists>q e. ((fx_tasks s)(t := k)) u = Holding q \<or> ((fx_tasks s)(t := k)) u = Checked q e)"
  shows "futex_inv (s\<lparr>lock_owner := own, fx_tasks := (fx_tasks s)(t := k)\<rparr>)"
proof (rule futex_invI)
  note D = futex_invD [OF inv]
  let ?s = "s\<lparr>lock_owner := own, fx_tasks := (fx_tasks s)(t := k)\<rparr>"
  have other: "u \<noteq> t \<and> fx_tasks s u = Sleeping q e c" if "fx_tasks ?s u = Sleeping q e c" for u q e c
    using that k by (auto split: if_splits)
  then show "sleeper_ok (fx ?s) (epoch ?s) q e c" if "fx_tasks ?s u = Sleeping q e c" for u q e c
    using D(4) that by fastforce
  show "u = u'" if "fx_tasks ?s u = Sleeping q e c" "fx_tasks ?s u' = Sleeping q' e' c" for u u' q q' e e' c
    using D(5) other that by blast
  show "lock_owner ?s = Some u \<longleftrightarrow> (\<exists>q e. fx_tasks ?s u = Holding q \<or> fx_tasks ?s u = Checked q e)" for u
    using own [of u] by simp
  show "e = epoch ?s (r_addr q)" if "fx_tasks ?s u = Checked q e" for u q e
    using that k D(3) [of u q e] by (auto split: if_splits)
  show "fx_tasks ?s u \<noteq> Back Panic" for u using k D(6) [of u] by auto
  show "futex_ok (fx ?s)" using D(1) by simp
qed

text \<open>A task wakes up or gives up: its channel is closed.\<close>

lemma futex_inv_leave:
  assumes inv: "futex_inv s" and t: "fx_tasks s t = Sleeping q e c" and k: "k = Ready \<or> (\<exists>r. k = Back r \<and> r \<noteq> Panic)"
  shows "futex_inv (s\<lparr>fx := (fx s)\<lparr>f_chans := (f_chans (fx s))(c := x)\<rparr>, fx_tasks := (fx_tasks s)(t := k)\<rparr>)"
proof (rule futex_invI)
  note D = futex_invD [OF inv]
  show "futex_ok (fx (s\<lparr>fx := (fx s)\<lparr>f_chans := (f_chans (fx s))(c := x)\<rparr>, fx_tasks := (fx_tasks s)(t := k)\<rparr>))"
    using D(1) by (simp add: futex_ok_def senders_def waiters_def)
  show "sleeper_ok (fx (s\<lparr>fx := (fx s)\<lparr>f_chans := (f_chans (fx s))(c := x)\<rparr>, fx_tasks := (fx_tasks s)(t := k)\<rparr>))
      (epoch (s\<lparr>fx := (fx s)\<lparr>f_chans := (f_chans (fx s))(c := x)\<rparr>, fx_tasks := (fx_tasks s)(t := k)\<rparr>)) q' e' c'"
    if "fx_tasks (s\<lparr>fx := (fx s)\<lparr>f_chans := (f_chans (fx s))(c := x)\<rparr>, fx_tasks := (fx_tasks s)(t := k)\<rparr>) u = Sleeping q' e' c'" for u q' e' c'
  proof -
    have "fx_tasks s u = Sleeping q' e' c'" "u \<noteq> t" using that k by (auto split: if_splits)
    moreover from this have "c' \<noteq> c" using D(5) [OF t] by blast
    ultimately show ?thesis using D(4) [of u q' e' c'] by (auto simp: sleeper_ok_def queued_def waiters_def)
  qed
qed (use futex_invD [OF inv] t k in \<open>auto split: if_splits\<close>)

lemma futex_inv_park:
  assumes inv: "futex_inv s" and t: "fx_tasks s t = Sleeping q e c" and p: "oneshot_poll wk (f_chans (fx s) c) = (Parked, st)"
  shows "futex_inv (s\<lparr>fx := (fx s)\<lparr>f_chans := (f_chans (fx s))(c := st)\<rparr>\<rparr>)"
proof (rule futex_invI)
  note D = futex_invD [OF inv]
  have st: "st = Waiting wk" "f_chans (fx s) c \<noteq> Sent ()" using p by (auto simp: oneshot_poll_def split: oneshot.splits)
  show "futex_ok (fx (s\<lparr>fx := (fx s)\<lparr>f_chans := (f_chans (fx s))(c := st)\<rparr>\<rparr>))"
    using D(1) by (simp add: futex_ok_def senders_def waiters_def)
  show "sleeper_ok (fx (s\<lparr>fx := (fx s)\<lparr>f_chans := (f_chans (fx s))(c := st)\<rparr>\<rparr>)) (epoch (s\<lparr>fx := (fx s)\<lparr>f_chans := (f_chans (fx s))(c := st)\<rparr>\<rparr>)) q' e' c'"
    if "fx_tasks (s\<lparr>fx := (fx s)\<lparr>f_chans := (f_chans (fx s))(c := st)\<rparr>\<rparr>) u = Sleeping q' e' c'" for u q' e' c'
    using D(4) [of u q' e' c'] that st by (auto simp: sleeper_ok_def queued_def waiters_def open_chan_def)
qed (use futex_invD [OF inv] in auto)

lemma register_ok:
  assumes "futex_ok f" "register a b f = (c, f')"
  shows "futex_ok f'" "c = next_chan f" "next_chan f' = c + 1" "f_chans f' = (f_chans f)(c := Empty)"
    "waiters a f' = waiters a f @ [\<lparr>w_sender = c, w_bitset = b\<rparr>]" "x \<noteq> a \<Longrightarrow> waiters x f' = waiters x f"
proof -
  show *: "c = next_chan f" "next_chan f' = c + 1" "f_chans f' = (f_chans f)(c := Empty)"
    "waiters a f' = waiters a f @ [\<lparr>w_sender = c, w_bitset = b\<rparr>]" and o: "\<And>x. x \<noteq> a \<Longrightarrow> waiters x f' = waiters x f"
    using assms(2) by (auto simp: register_def Let_def waiters_def)
  have "senders x f' = senders x f @ (if x = a then [c] else [])" for x using *(4) o by (simp add: senders_def)
  moreover have "set (senders x f) \<inter> set (senders y f) = {}" if "x \<noteq> y" for x y
    using assms(1) that by (simp add: futex_ok_def)
  ultimately show "futex_ok f'" using assms(1) *(1,2) unfolding futex_ok_def
    by (auto simp: less_Suc_eq disjoint_iff)
qed

lemma futex_inv_push:
  assumes inv: "futex_inv s" and t: "fx_tasks s t = Checked q e" and r: "register (r_addr q) (r_bitset q) (fx s) = (c, f)"
  shows "futex_inv (s\<lparr>fx := f, lock_owner := None, fx_tasks := (fx_tasks s)(t := Sleeping q e c)\<rparr>)"
proof (rule futex_invI)
  note D = futex_invD [OF inv]
  note R = register_ok [OF D(1) r]
  let ?s = "s\<lparr>fx := f, lock_owner := None, fx_tasks := (fx_tasks s)(t := Sleeping q e c)\<rparr>"
  have own: "lock_owner s = Some t" using D(2) t by blast
  have old: "sleeper_ok f (epoch s) q' e' c' \<and> c' < c" if "fx_tasks s u = Sleeping q' e' c'" for u q' e' c'
    using D(4) [OF that] R(2-6) by (cases "r_addr q' = r_addr q") (auto simp: sleeper_ok_def queued_def)
  have new: "sleeper_ok f (epoch s) q e c"
    using R(3-5) D(3) [OF t] by (simp add: sleeper_ok_def queued_def open_chan_def)
  show "sleeper_ok (fx ?s) (epoch ?s) q' e' c'" if "fx_tasks ?s u = Sleeping q' e' c'" for u q' e' c'
    using that old new by (auto split: if_splits)
  show "u = u'" if "fx_tasks ?s u = Sleeping q1 e1 c1" "fx_tasks ?s u' = Sleeping q2 e2 c1" for u u' q1 q2 e1 e2 c1
    using that old [of u] old [of u'] D(5) [of u q1 e1 c1 u' q2 e2] by (auto split: if_splits)
  show "lock_owner ?s = Some u \<longleftrightarrow> (\<exists>q e. fx_tasks ?s u = Holding q \<or> fx_tasks ?s u = Checked q e)" for u
    using D(2) [of u] own by auto
  show "e' = epoch ?s (r_addr q')" if "fx_tasks ?s u = Checked q' e'" for u q' e'
    using that D(3) [of u q' e'] by (auto split: if_splits)
qed (use futex_invD [OF inv] register_ok [OF futex_invD(1) [OF inv] r] in auto)

lemma matches_None [simp]: "matches_bitset b None"
  by (cases b) (simp_all add: matches_bitset_def)

lemma futex_inv_wake:
  assumes inv: "futex_inv s" and l: "lock_owner s = None" and w: "futex_wake a num b (fx s) = (k, f)"
  shows "futex_inv (s\<lparr>fx := f, epoch := if b = None \<and> k < num then (epoch s)(a := epoch s a + 1) else epoch s\<rparr>)"
proof (rule futex_invI)
  note D = futex_invD [OF inv]
  let ?s = "s\<lparr>fx := f, epoch := if b = None \<and> k < num then (epoch s)(a := epoch s a + 1) else epoch s\<rparr>"
  obtain pre suf where wk: "wakes a k b pre suf (fx s) f" "k < num \<Longrightarrow> suf = []" using futex_wake_split [OF D(1) w] by metis
  show "futex_ok (fx ?s)" using wakes_ok [OF wk(1) D(1)] by simp
  show "sleeper_ok (fx ?s) (epoch ?s) q e c" if "fx_tasks ?s u = Sleeping q e c" for u q e c
  proof -
    have so: "sleeper_ok (fx s) (epoch s) q e c" using D(4) that by simp
    then have n: "c < next_chan f" using wk(1) by (simp add: sleeper_ok_def wakes_def)
    show ?thesis
    proof (cases "f_chans f c = Sent ()")
      case True
      then show ?thesis using n by (simp add: sleeper_ok_def)
    next
      case False
      then have q: "queued q c (fx s)" "e = epoch s (r_addr q)"
        using so wakes_sent [OF wk(1)] by (auto simp: sleeper_ok_def)
      then have q': "queued q c f" "\<not> (r_addr q = a \<and> \<lparr>w_sender = c, w_bitset = r_bitset q\<rparr> \<in> set pre \<and> matches_bitset (r_bitset q) b)"
        using wakes_queued [OF wk(1) D(1) q(1)] False by (auto split: if_splits)
      have "epoch ?s (r_addr q) = epoch s (r_addr q)"
      proof (cases "b = None \<and> k < num \<and> r_addr q = a")
        case True
        then have "\<lparr>w_sender = c, w_bitset = r_bitset q\<rparr> \<in> set pre" using q(1) wk by (simp add: queued_def wakes_def)
        then show ?thesis using q'(2) True by simp
      qed auto
      then show ?thesis using n q' q(2) by (simp add: sleeper_ok_def)
    qed
  qed
  show "e = epoch ?s (r_addr q)" if "fx_tasks ?s u = Checked q e" for u q e
    using that l D(2) [of u] by auto
qed (use futex_invD [OF inv] in auto)

lemma futex_step_inv: "futex_step s s' \<Longrightarrow> futex_inv s \<Longrightarrow> futex_inv s'"
proof (induction rule: futex_step.induct)
  case (call s t r q)
  have "check_value (memory s (r_addr q)) (r_val q) \<noteq> Panic"
    by (cases "memory s (r_addr q)") (auto simp: check_value_def result_simps)
  then have "futex_inv (s\<lparr>lock_owner := lock_owner s, fx_tasks := (fx_tasks s)(t := after_check (check_value (memory s (r_addr q)) (r_val q)) (Entering q))\<rparr>)"
    using call futex_invD(2) [OF call(2)]
    by (intro futex_inv_move) (auto simp: after_check_def split: outcome.splits)
  then show ?case by simp
next
  case (lock s t q)
  then show ?case using futex_invD(2) [OF lock(3)] by (intro futex_inv_move) auto
next
  case (check s t q)
  have "futex_inv (s\<lparr>lock_owner := lock_owner s, fx_tasks := (fx_tasks s)(t := Checked q (epoch s (r_addr q)))\<rparr>)"
    using check futex_invD(2) [OF check(3)] by (intro futex_inv_move) auto
  then show ?case by simp
next
  case (check_fails s t q r)
  have "r \<noteq> Panic" using check_fails(2) by (cases "memory s (r_addr q)") (auto simp: check_value_def result_simps)
  moreover have "lock_owner s = Some t" using futex_invD(2) [OF check_fails(4)] check_fails(1) by blast
  moreover from this have "\<not> (\<exists>q e. fx_tasks s u = Holding q \<or> fx_tasks s u = Checked q e)" if "u \<noteq> t" for u
    using futex_invD(2) [OF check_fails(4), of u] that by simp
  ultimately show ?case using check_fails by (intro futex_inv_move) auto
next
  case (push s t q e c f)
  then show ?case by (intro futex_inv_push)
next
  case (park s t q e c wk st)
  then show ?case by (intro futex_inv_park)
next
  case (recv s t q e c wk st)
  then show ?case by (intro futex_inv_leave) auto
next
  case (recv_error s t q e c wk st)
  have "sleeper_ok (fx s) (epoch s) q e c" using futex_invD(4) [OF recv_error(3,1)] .
  then show ?case using recv_error(2)
    by (auto simp: sleeper_ok_def queued_def open_chan_def oneshot_poll_def split: oneshot.splits)
next
  case (timeout s t q e c wk st)
  then show ?case by (intro futex_inv_leave) auto
next
  case (interrupted s t q e c)
  then show ?case by (intro futex_inv_leave) auto
next
  case (wake s a num b k f)
  then show ?case by (intro futex_inv_wake)
next
  case (store s a v)
  then show ?case unfolding futex_inv_def by simp
qed

lemma futex_init_inv: "futex_init s \<Longrightarrow> futex_inv s"
  by (simp add: futex_init_def futex_inv_def Futexes_new_def futex_ok_def senders_def waiters_def)

interpretation ftx: step_system futex_init futex_step futex_inv
  by unfold_locales (rule futex_init_inv, assumption, rule futex_step_inv)

section \<open>Properties\<close>

text \<open>
  C21. No wake-up is lost, whatever the interleaving of waits, wakes, stores to the futex word, timeouts
  and interruptions. A task that waits has been woken if, since it saw the expected value, a
  \<open>wake\<close> for any bitset at its address woke fewer tasks than it could have. In every state a \<open>wake\<close> wakes at
  most the given number of tasks, only such that wait at its address with a bitset that
  matches, and all of these when it wakes fewer than the given number. Waiting never ends with
  the channel closed, so that the \<open>unwrap\<close> of the result does not panic.
\<close>

theorem futex_no_lost_wakeup:
  assumes "reachable futex_init futex_step s" "fx_tasks s t = Sleeping q e c"
  shows "(e \<noteq> epoch s (r_addr q) \<longrightarrow> f_chans (fx s) c = Sent ()) \<and>
    fst (oneshot_poll wk (f_chans (fx s) c)) \<noteq> RecvError \<and>
    (futex_wake a num b (fx s) = (k, f) \<longrightarrow> k \<le> num \<and>
       (f_chans f c \<noteq> f_chans (fx s) c \<longrightarrow> r_addr q = a \<and> matches_bitset (r_bitset q) b \<and> f_chans f c = Sent ()) \<and>
       (k < num \<and> r_addr q = a \<and> matches_bitset (r_bitset q) b \<longrightarrow> f_chans f c = Sent ()))"
proof (intro conjI impI)
  have inv: "futex_inv s" using ftx.reachable_inv [OF assms(1)] .
  note D = futex_invD [OF inv]
  have so: "sleeper_ok (fx s) (epoch s) q e c" using D(4) [OF assms(2)] .
  then show "e \<noteq> epoch s (r_addr q) \<Longrightarrow> f_chans (fx s) c = Sent ()" "fst (oneshot_poll wk (f_chans (fx s) c)) \<noteq> RecvError"
    by (auto simp: sleeper_ok_def queued_def open_chan_def oneshot_poll_def split: oneshot.splits)
  assume w: "futex_wake a num b (fx s) = (k, f)"
  obtain pre suf where wk: "wakes a k b pre suf (fx s) f" "k < num \<Longrightarrow> suf = []" "k \<le> num" using futex_wake_split [OF D(1) w] by metis
  show "k \<le> num" by (fact wk(3))
  have sent: "f_chans f c = Sent ()" if "f_chans (fx s) c = Sent ()" using wakes_sent [OF wk(1) that] .
  have "r_addr q = a \<and> matches_bitset (r_bitset q) b \<and> f_chans f c = Sent ()" if "f_chans f c \<noteq> f_chans (fx s) c"
  proof -
    have fc: "f_chans f c = (if \<exists>w \<in> set pre. w_sender w = c \<and> live b (f_chans (fx s)) w then Sent () else f_chans (fx s) c)"
      using wk(1) by (simp add: wakes_def woken_by_def)
    then have "\<exists>w \<in> set pre. w_sender w = c \<and> live b (f_chans (fx s)) w" using that by presburger
    moreover from this have "f_chans f c = Sent ()" using fc by presburger
    ultimately obtain w where w: "w \<in> set pre" "w_sender w = c" "live b (f_chans (fx s)) w" "f_chans f c = Sent ()" by blast
    have "queued q c (fx s)" using so sent that by (auto simp: sleeper_ok_def)
    then show ?thesis
      using same_waiter [OF D(1), of w a "\<lparr>w_sender = c, w_bitset = r_bitset q\<rparr>" "r_addr q"] w wk(1) live_matches [OF w(3)]
      by (auto simp: queued_def wakes_def)
  qed
  then show "r_addr q = a" "matches_bitset (r_bitset q) b" "f_chans f c = Sent ()" if "f_chans f c \<noteq> f_chans (fx s) c"
    using that by simp_all
  show "f_chans f c = Sent ()" if m: "k < num \<and> r_addr q = a \<and> matches_bitset (r_bitset q) b"
  proof (cases "f_chans (fx s) c = Sent ()")
    case False
    then have "queued q c (fx s)" using so by (simp add: sleeper_ok_def)
    moreover from this have "\<lparr>w_sender = c, w_bitset = r_bitset q\<rparr> \<in> set pre"
      using wk m by (simp add: queued_def wakes_def)
    ultimately show ?thesis using wakes_queued [OF wk(1) D(1)] m by fastforce
  qed (fact sent)
qed

text \<open>Task 0 waits at the address 4096, where there is the value 5 it expects.\<close>

definition example_request :: request where
  "example_request = \<lparr>r_addr = 4096, r_val = 5, r_bitset = Some 3, r_deadline = False\<rparr>"

definition example_futex :: "fx_task \<Rightarrow> nat option \<Rightarrow> futex_state \<Rightarrow> futex_sys" where
  "example_futex k own f = \<lparr>fx = f, memory = (\<lambda>_. Some 5), lock_owner = own, fx_tasks = (\<lambda>_. Ready)(0 := k), epoch = (\<lambda>_. 0)\<rparr>"

definition example_waiting :: futex_state where
  "example_waiting = snd (register 4096 (Some 3) Futexes_new)"

lemma example_futex_reachable: "reachable futex_init futex_step (example_futex (Sleeping example_request 0 0) None example_waiting)"
proof -
  let ?q = example_request
  have c: "check_value (Some 5) (r_val ?q) = Ok ()" by (simp add: check_value_def result_simps example_request_def)
  have "futex_init (example_futex Ready None Futexes_new)" by (simp add: futex_init_def example_futex_def fun_eq_iff)
  then have "reachable futex_init futex_step (example_futex Ready None Futexes_new)" by (rule reachable.start)
  moreover have "futex_step (example_futex Ready None Futexes_new) (example_futex (Entering ?q) None Futexes_new)"
    using futex_step.call [of "example_futex Ready None Futexes_new" 0 _ ?q] c by (simp add: example_futex_def after_check_def)
  ultimately have "reachable futex_init futex_step (example_futex (Entering ?q) None Futexes_new)" by (rule reachable.step)
  moreover have "futex_step (example_futex (Entering ?q) None Futexes_new) (example_futex (Holding ?q) (Some 0) Futexes_new)"
    using futex_step.lock [of "example_futex (Entering ?q) None Futexes_new" 0 ?q] by (simp add: example_futex_def)
  ultimately have "reachable futex_init futex_step (example_futex (Holding ?q) (Some 0) Futexes_new)" by (rule reachable.step)
  moreover have "futex_step (example_futex (Holding ?q) (Some 0) Futexes_new) (example_futex (Checked ?q 0) (Some 0) Futexes_new)"
    using futex_step.check [of "example_futex (Holding ?q) (Some 0) Futexes_new" 0 ?q] c by (simp add: example_futex_def)
  ultimately have "reachable futex_init futex_step (example_futex (Checked ?q 0) (Some 0) Futexes_new)" by (rule reachable.step)
  moreover have "futex_step (example_futex (Checked ?q 0) (Some 0) Futexes_new) (example_futex (Sleeping ?q 0 0) None example_waiting)"
    using futex_step.push [of "example_futex (Checked ?q 0) (Some 0) Futexes_new" 0 ?q 0 0 example_waiting]
    by (simp add: example_futex_def example_waiting_def example_request_def register_def Futexes_new_def Let_def)
  ultimately show ?thesis by (rule reachable.step)
qed

theorem futex_no_lost_wakeup_witness:
  "fst (futex_wake 4096 2 (Some 1) example_waiting) = 1 \<and>
    f_chans (snd (futex_wake 4096 2 (Some 1) example_waiting)) 0 = Sent ()"
proof -
  have "matches_bitset (Some 3) (Some 1)" by (simp add: matches_bitset_def)
  moreover have "fst (futex_wake 4096 2 (Some 1) example_waiting) = 1"
    using calculation by (simp add: futex_wake_def example_waiting_def register_def Futexes_new_def Let_def wake_loop_cons)
  ultimately show ?thesis
    using futex_no_lost_wakeup [OF example_futex_reachable, where t = 0 and q = example_request and e = 0 and c = 0 and
        a = 4096 and num = 2 and b = "Some 1" and k = 1 and f = "snd (futex_wake 4096 2 (Some 1) example_waiting)"]
    by (simp add: example_futex_def example_request_def prod_eq_iff)
qed

end
