(* ===== verification/Spec2Isabelle.thy ===== *)
theory Spec2Isabelle
  imports Supervisor_Services Fd_Table Channels Pcid Memory_System Fs_Properties Eventfd Open_File Spin_Locks Futex
begin

text \<open>
  mushroom runs a Linux program inside a confidential virtual machine: a kernel
  (\<^verbatim>\<open>tee/kernel\<close>) that implements Linux system calls for it, a small supervisor (\<^verbatim>\<open>tee/supervisor-snp\<close>,
  \<^verbatim>\<open>tee/supervisor-tdx\<close>) that starts processors and talks to the host on the kernel's behalf, and a
  host program (\<^verbatim>\<open>host\<close>) that creates the virtual machine and verifies its attestation. Trust
  rests on the kernel: it isolates processes from each other, and it decides who sees which memory
  and which file. This library models the parts of the kernel where that is decided, with the
  shared memory protocol between kernel and supervisor.

  \<^bold>\<open>How the code is modelled.\<close> A Rust function is a HOL function of the same name. A fallible
  function returns an outcome: \<^verbatim>\<open>Ok\<close>, \<^verbatim>\<open>Err\<close> with one of the kernel's error kinds, or \<^verbatim>\<open>Panic\<close>
  for a failed assertion, an index out of range, a checked overflow, an \<^verbatim>\<open>unwrap\<close> of nothing or a
  \<^verbatim>\<open>todo!()\<close> (theory \<^verbatim>\<open>Prelude\<close>); a panic is never confused with an error. State is passed
  explicitly (\<^verbatim>\<open>stateful\<close>, \<^verbatim>\<open>sbind\<close>), memory that is shared through reference counts is an explicit heap, and
  an allocation may fail at any point (\<^verbatim>\<open>oom\<close> is the list of the failures to come). A critical section of a lock, or
  one atomic instruction, is one step; tasks interleave at steps. Machine words are words, or
  natural numbers with their bound written out where only overflow matters.

  \<^bold>\<open>Theories and sources (paths are below \<^verbatim>\<open>tee/kernel/src\<close> unless they start with \<^verbatim>\<open>common\<close>).\<close>
  \<^item> \<^verbatim>\<open>Prelude\<close>, \<^verbatim>\<open>Interfaces\<close>, \<^verbatim>\<open>Ordered_Map\<close>: outcomes, checked arithmetic, error kinds
    (\<^verbatim>\<open>error.rs\<close>); the locales \<^verbatim>\<open>step_system\<close> (a transition system with an invariant), \<^verbatim>\<open>fifo_channel\<close>,
    \<^verbatim>\<open>ordered_map\<close>, and the standard library's \<^verbatim>\<open>BTreeMap\<close> as the interpretation of the last.
  \<^item> \<^verbatim>\<open>Supervisor_Services\<close>: \<^verbatim>\<open>common/supervisor-services\<close>, the ring of commands, the
    allocation bitmap and the notification bitmap in the memory that kernel and supervisor share.
  \<^item> \<^verbatim>\<open>Notify\<close>, \<^verbatim>\<open>Channels\<close>, \<^verbatim>\<open>Futex\<close>: \<^verbatim>\<open>rt/notify.rs\<close>, \<^verbatim>\<open>rt/oneshot.rs\<close>, \<^verbatim>\<open>rt/mpsc.rs\<close>, \<^verbatim>\<open>rt/mpmc.rs\<close>, and
    \<^verbatim>\<open>user/process/futex.rs\<close> on top of the oneshot channels.
  \<^item> \<^verbatim>\<open>Spin_Locks\<close>: \<^verbatim>\<open>spin/mutex.rs\<close>, \<^verbatim>\<open>spin/rwlock.rs\<close>, \<^verbatim>\<open>spin/once.rs\<close>, the locks whose critical sections are the steps
    of the other theories.
  \<^item> \<^verbatim>\<open>Kernel_Page\<close>, \<^verbatim>\<open>Page_Buffer\<close>: \<^verbatim>\<open>memory/page/kernel.rs\<close> (reference-counted pages, copy on write) and
    \<^verbatim>\<open>memory/page/buffer.rs\<close> (byte buffers made of them).
  \<^item> \<^verbatim>\<open>Page_Table\<close>, \<^verbatim>\<open>Page_Walk\<close>, \<^verbatim>\<open>Pcid\<close>: \<^verbatim>\<open>memory/pagetable.rs\<close>, the entries, the four-level walks with
    their reference counts and the allocation of process context identifiers.
  \<^item> \<^verbatim>\<open>Mappings\<close>, \<^verbatim>\<open>Address_Space\<close>, \<^verbatim>\<open>Address_Safety\<close>, \<^verbatim>\<open>Page_Faults\<close>, \<^verbatim>\<open>Fork\<close>, \<^verbatim>\<open>Memory_System\<close>:
    \<^verbatim>\<open>user/process/memory.rs\<close> and \<^verbatim>\<open>memory/page/user.rs\<close>: mappings, the operations of an address space (mmap, munmap,
    mprotect, madvise, brk, page faults, fork), and all address spaces together with the files they map.
  \<^item> \<^verbatim>\<open>Paths\<close>, \<^verbatim>\<open>File_Access\<close>: \<^verbatim>\<open>fs/path.rs\<close>, \<^verbatim>\<open>fs/ownership.rs\<close>, the permission checks of \<^verbatim>\<open>fs/node.rs\<close>, the modes
    and flags of \<^verbatim>\<open>user/process/syscall/args.rs\<close>.
  \<^item> \<^verbatim>\<open>Tmpfs\<close>, \<^verbatim>\<open>Tree\<close>, \<^verbatim>\<open>Tree_Ops\<close>, \<^verbatim>\<open>File_System\<close>: \<^verbatim>\<open>fs/node/tmpfs.rs\<close> and \<^verbatim>\<open>fs/node/directory.rs\<close>; the file system as two maps
    (what each node is, what each directory holds) and as a transition system.
  \<^item> \<^verbatim>\<open>Lookup\<close>, \<^verbatim>\<open>Lookup_Safety\<close>, \<^verbatim>\<open>Path_Operations\<close>, \<^verbatim>\<open>Fs_Properties\<close>: the operations on paths of \<^verbatim>\<open>fs/node.rs\<close>.
  \<^item> \<^verbatim>\<open>Open_File\<close>, \<^verbatim>\<open>Streams\<close>, \<^verbatim>\<open>Eventfd\<close>, \<^verbatim>\<open>File_Lock\<close>, \<^verbatim>\<open>Fd_Table\<close>: \<^verbatim>\<open>fs/fd/file.rs\<close>, \<^verbatim>\<open>fs/fd/stream_buffer.rs\<close>,
    \<^verbatim>\<open>fs/fd/eventfd.rs\<close>, the file locks and the descriptor table of \<^verbatim>\<open>fs/fd.rs\<close>, and the system calls on
    descriptors of \<^verbatim>\<open>user/process/syscall.rs\<close> (dup, close, fcntl, flock).

  \<^bold>\<open>What is shown.\<close>
  \<^item> Memory. Pages are never used after they are freed, leaked or freed twice; a page that is made mutable is
    not seen by others. Buffers made of pages behave as byte strings that read zeros beyond their
    end. The walks of the page tables refine a map from pages to entries. In every reachable
    state of all address spaces, a page table entry grants no more than the mapping does, and a
    writable entry to a private page belongs to one address space only; page
    faults, fork and munmap do what their specifications on the mapped bytes say, and mmap finds room when there is room.
  \<^item> Files. In every reachable state the directories form a tree, link counts are right, and the path of a directory
    leads back to it. Every operation on paths ends without a panic, and rename refines its
    specification. The recursive lookup is the iterative one. Removing, linking and renaming need write
    permission on the directories they change.
  \<^item> Descriptors. What is written to a file is read back. The bytes of a pipe
    arrive complete and in order, nobody sleeps while what they wait for is there, and
    writes up to \<^verbatim>\<open>PIPE_BUF\<close> bytes are atomic. Locks exclude each other. The descriptor table hands out
    the least free number and keeps its limits.
  \<^item> Kernel and supervisor. The commands arrive in order however both sides interleave.
    Channels deliver in order, a notification wakes everyone who waits, and futexes lose no wake-up.
  \<^item> Locks. Mutexes and read-write locks exclude, a task that locks two mutexes never waits while it has one, and values
    initialised once are initialised once.

  \<^bold>\<open>Bounds and fuel.\<close> There is no fuel: loops are recursive functions with a termination proof or,
    where a loop may run forever (\<^verbatim>\<open>dir_path\<close> and the loop over the parents in \<^verbatim>\<open>rename\<close>), partial
    functions for which the theorems show that they return. Lookups end because a context
    limits the symbolic links; the recursions of \<^verbatim>\<open>Lookup\<close> test that
    a lookup never raises that limit, and their equations without the test are proved in \<^verbatim>\<open>Lookup_Safety\<close>.
    Link counts below 2^64 are a condition of the steps that make links, and at most 2^62 tasks use a
    read-write lock at a time, so that the counter of the lock cannot wrap around.

  \<^bold>\<open>Code outside the repository.\<close> The placement of pages by the allocator (\<^verbatim>\<open>loc\<close>) and the files an
    address space maps (\<^verbatim>\<open>file_pages\<close>) are parameters; the latter are interpreted on tmpfs. Copies to and from
    user memory are parameters of the functions that call them.

  \<^bold>\<open>Not modelled.\<close> Assembly, hardware and hypervisor interfaces and code that only moves data between
    them have no counterpart in a functional model: the exception and system call entry
    (\<^verbatim>\<open>exception.rs\<close>, \<^verbatim>\<open>syscall/cpu_state.rs\<close>), processor start, TLB shootdown (\<^verbatim>\<open>memory/invlpgb.rs\<close>), the supervisors, the host
    programs and the structures of the SNP and TDX firmware (\<^verbatim>\<open>common/snp-types\<close>, \<^verbatim>\<open>common/tdx-types\<close>). The allocators behind
    the kernel's heap and frames (\<^verbatim>\<open>memory/frame.rs\<close>, \<^verbatim>\<open>memory/heap\<close>) work on raw memory and appear only as an allocation that
    may fail. The rest is left out for its size: threads, signals and process groups (\<^verbatim>\<open>user/process.rs\<close>,
    \<^verbatim>\<open>thread.rs\<close>), program loading (\<^verbatim>\<open>exec\<close>), the argument types of
    system calls (\<^verbatim>\<open>args.rs\<close> and \<^verbatim>\<open>pointee.rs\<close> beyond modes and flags) and the system calls
    that only decode arguments and call what is modelled here; procfs and devtmpfs; epoll, named pipes,
    packet sockets; time, logging and profiling.
\<close>

end
